theory Spec2Isabelle
  imports Main "HOL-Library.Product_Lexorder" "HOL-Library.Multiset" "HOL-Library.Tree"
begin

section \<open>Python values and exceptions\<close>

text \<open>
  The exceptions the core can raise, one constructor per exception class and raise site:
  \<^item> \<open>AttributeError\<close>: an attribute of \<open>None\<close> is read or written;
  \<^item> \<open>RecursionError\<close>: the interpreter's recursion limit is exceeded;
  \<^item> \<open>NotLoaded\<close>, \<open>DayNotFound\<close>: the two \<open>RuntimeError\<close>s of the query methods;
  \<^item> \<open>BadDate\<close>, \<open>BadTime\<close>: the \<open>ValueError\<close>s of \<open>_parse_date\<close> and \<open>_parse_time\<close>;
  \<^item> \<open>InvalidRange\<close>, \<open>InvalidDuration\<close>: the \<open>ValueError\<close>s of \<open>is_time_available\<close> and
    \<open>find_free_slot\<close>;
  \<^item> \<open>KeyError\<close>, \<open>ValueError\<close>, \<open>TypeError\<close>: the exceptions of \<open>from_dict\<close>: a key is
    missing, \<open>strptime\<close> refuses a string, \<open>strptime\<close> is given a value that is not a string
    or a record that is not a dictionary is subscripted;
  \<^item> \<open>FormatError\<close>: the \<open>ValueError\<close> that \<open>set_data\<close> raises for a \<open>KeyError\<close> or
    \<open>ValueError\<close> of record parsing;
  \<^item> \<open>TimeRangeError\<close>: the \<open>ValueError\<close> of \<open>datetime.time\<close> for an hour outside \<open>0..23\<close>.
\<close>

datatype error =
    AttributeError | RecursionError | NotLoaded | DayNotFound | BadDate | BadTime
  | InvalidRange | InvalidDuration | FormatError | TimeRangeError
  | KeyError | ValueError | TypeError

definition bind :: "error + 'a \<Rightarrow> ('a \<Rightarrow> error + 'b) \<Rightarrow> error + 'b" where
  "bind m f = (case m of Inl e \<Rightarrow> Inl e | Inr x \<Rightarrow> f x)"

section \<open>The interval tree (\<open>core.py\<close>, classes \<open>Color\<close>, \<open>IntervalNode\<close>, \<open>IntervalTree\<close>)\<close>

datatype Color = RED | BLACK

text \<open>
  A reference is \<open>None\<close> (Python's \<open>None\<close>) or \<open>Some a\<close>, the node object at address
  \<open>a\<close> of the tree's object store. Every tree owns its store; address \<open>0\<close> holds the
  sentinel \<open>self.nil\<close>.
\<close>

type_synonym ref = "nat option"

record IntervalNode =
  start :: int
  end' :: int
  slot_id :: int
  max_end :: int
  left :: ref
  right :: ref
  parent :: ref
  color :: Color

type_synonym heap = "IntervalNode list"

record IntervalTree =
  nodes :: heap
  root :: ref
  tsize :: int

definition nil :: ref where
  "nil = Some 0"

text \<open>\<open>IntervalNode(0, 0, -1, 0, color=Color.BLACK)\<close>; \<open>__post_init__\<close> leaves \<open>max_end = 0\<close>.\<close>

definition nil_node :: IntervalNode where
  "nil_node = \<lparr>start = 0, end' = 0, slot_id = -1, max_end = 0,
               left = None, right = None, parent = None, color = BLACK\<rparr>"

definition new_tree :: IntervalTree where
  "new_tree = \<lparr>nodes = [nil_node], root = None, tsize = 0\<rparr>"

definition overlaps_with :: "IntervalNode \<Rightarrow> int \<Rightarrow> int \<Rightarrow> bool" where
  "overlaps_with n s e = (\<not> (end' n \<le> s \<or> start n \<ge> e))"

subsection \<open>Equality of nodes\<close>

text \<open>
  \<open>IntervalNode\<close> is a \<open>@dataclass\<close>, so \<open>a == b\<close> and \<open>a != b\<close> on nodes are the
  generated \<open>__eq__\<close>: the fields are compared in declaration order (\<open>start\<close>, \<open>end\<close>,
  \<open>slot_id\<close>, \<open>max_end\<close>, \<open>left\<close>, \<open>right\<close>, \<open>parent\<close>, \<open>color\<close>), stopping at the first
  difference; two items that are the same object are equal without a call, and otherwise
  \<open>left\<close>, \<open>right\<close> and \<open>parent\<close> are compared by a nested \<open>__eq__\<close>. A node and
  \<open>None\<close> are unequal. The nesting is bounded by the interpreter's recursion limit:
  \<open>py_eq n\<close> may nest \<open>n\<close> calls and raises \<open>RecursionError\<close> beyond.
\<close>

fun py_eq :: "nat \<Rightarrow> heap \<Rightarrow> ref \<Rightarrow> ref \<Rightarrow> error + bool" where
  "py_eq n h None None = Inr True"
| "py_eq n h None (Some q) = Inr False"
| "py_eq n h (Some p) None = Inr False"
| "py_eq 0 h (Some p) (Some q) = Inl RecursionError"
| "py_eq (Suc n) h (Some p) (Some q) =
     (let x = h ! p; y = h ! q in
      if start x \<noteq> start y then Inr False
      else if end' x \<noteq> end' y then Inr False
      else if slot_id x \<noteq> slot_id y then Inr False
      else if max_end x \<noteq> max_end y then Inr False
      else bind (if left x = left y then Inr True else py_eq n h (left x) (left y)) (\<lambda>bl.
        if \<not> bl then Inr False
        else bind (if right x = right y then Inr True else py_eq n h (right x) (right y)) (\<lambda>br.
          if \<not> br then Inr False
          else bind (if parent x = parent y then Inr True
                     else py_eq n h (parent x) (parent y)) (\<lambda>bp.
            if \<not> bp then Inr False
            else Inr (color x = color y)))))"

text \<open>\<open>sys.getrecursionlimit()\<close>, which the repository never changes.\<close>

definition recursion_limit :: nat where
  "recursion_limit = 1000"

definition eq :: "heap \<Rightarrow> ref \<Rightarrow> ref \<Rightarrow> error + bool" where
  "eq h a b = py_eq recursion_limit h a b"

definition ne :: "heap \<Rightarrow> ref \<Rightarrow> ref \<Rightarrow> error + bool" where
  "ne h a b = bind (eq h a b) (\<lambda>b. Inr (\<not> b))"

subsection \<open>\<open>_update_max_end\<close>\<close>

definition update_max_end :: "heap \<Rightarrow> ref \<Rightarrow> error + heap" where
  "update_max_end h node =
     (case node of None \<Rightarrow> Inr h
      | Some a \<Rightarrow>
        bind (eq h node nil) (\<lambda>is_nil.
          if is_nil then Inr h
          else
            let h1 = h[a := (h ! a)\<lparr>max_end := end' (h ! a)\<rparr>] in
            bind (case left (h1 ! a) of None \<Rightarrow> Inr h1
                  | Some l \<Rightarrow>
                    bind (ne h1 (Some l) nil) (\<lambda>b.
                      Inr (if b
                           then h1[a := (h1 ! a)\<lparr>max_end :=
                                   max (max_end (h1 ! a)) (max_end (h1 ! l))\<rparr>]
                           else h1))) (\<lambda>h2.
              case right (h2 ! a) of None \<Rightarrow> Inr h2
              | Some r \<Rightarrow>
                bind (ne h2 (Some r) nil) (\<lambda>b.
                  Inr (if b
                       then h2[a := (h2 ! a)\<lparr>max_end :=
                               max (max_end (h2 ! a)) (max_end (h2 ! r))\<rparr>]
                       else h2)))))"

subsection \<open>\<open>_left_rotate\<close> and \<open>_right_rotate\<close>\<close>

text \<open>
  Each assignment of the source is one update of the store, in the source's order, and
  every read is from the store as it is at that statement. Writing an attribute of
  \<open>None\<close> raises \<open>AttributeError\<close>.
\<close>

definition left_rotate :: "IntervalTree \<Rightarrow> ref \<Rightarrow> error + IntervalTree" where
  "left_rotate t x =
     (case x of None \<Rightarrow> Inr t
      | Some xa \<Rightarrow>
       (case right (nodes t ! xa) of None \<Rightarrow> Inr t
        | Some ya \<Rightarrow>
          let h0 = nodes t;
              h1 = h0[xa := (h0 ! xa)\<lparr>right := left (h0 ! ya)\<rparr>] in
          bind (ne h1 (left (h1 ! ya)) nil) (\<lambda>b.
          bind (if b then (case left (h1 ! ya) of None \<Rightarrow> Inl AttributeError
                           | Some la \<Rightarrow> Inr (h1[la := (h1 ! la)\<lparr>parent := Some xa\<rparr>]))
                else Inr h1) (\<lambda>h2.
          let h3 = h2[ya := (h2 ! ya)\<lparr>parent := parent (h2 ! xa)\<rparr>] in
          bind (case parent (h3 ! xa) of None \<Rightarrow> Inr True
                | Some pa \<Rightarrow> eq h3 (parent (h3 ! xa)) nil) (\<lambda>at_root.
          bind (if at_root then Inr (t\<lparr>nodes := h3, root := Some ya\<rparr>)
                else (case parent (h3 ! xa) of None \<Rightarrow> Inl AttributeError
                      | Some pa \<Rightarrow>
                        bind (eq h3 (Some xa) (left (h3 ! pa))) (\<lambda>is_left.
                          if is_left
                          then Inr (t\<lparr>nodes := h3[pa := (h3 ! pa)\<lparr>left := Some ya\<rparr>]\<rparr>)
                          else Inr (t\<lparr>nodes := h3[pa := (h3 ! pa)\<lparr>right := Some ya\<rparr>]\<rparr>)))) (\<lambda>t4.
          let h4 = nodes t4;
              h5 = h4[ya := (h4 ! ya)\<lparr>left := Some xa\<rparr>];
              h6 = h5[xa := (h5 ! xa)\<lparr>parent := Some ya\<rparr>] in
          bind (update_max_end h6 (Some xa)) (\<lambda>h7.
          bind (update_max_end h7 (Some ya)) (\<lambda>h8.
          Inr (t4\<lparr>nodes := h8\<rparr>)))))))))"

definition right_rotate :: "IntervalTree \<Rightarrow> ref \<Rightarrow> error + IntervalTree" where
  "right_rotate t y =
     (case y of None \<Rightarrow> Inr t
      | Some ya \<Rightarrow>
       (case left (nodes t ! ya) of None \<Rightarrow> Inr t
        | Some xa \<Rightarrow>
          let h0 = nodes t;
              h1 = h0[ya := (h0 ! ya)\<lparr>left := right (h0 ! xa)\<rparr>] in
          bind (ne h1 (right (h1 ! xa)) nil) (\<lambda>b.
          bind (if b then (case right (h1 ! xa) of None \<Rightarrow> Inl AttributeError
                           | Some ra \<Rightarrow> Inr (h1[ra := (h1 ! ra)\<lparr>parent := Some ya\<rparr>]))
                else Inr h1) (\<lambda>h2.
          let h3 = h2[xa := (h2 ! xa)\<lparr>parent := parent (h2 ! ya)\<rparr>] in
          bind (case parent (h3 ! ya) of None \<Rightarrow> Inr True
                | Some pa \<Rightarrow> eq h3 (parent (h3 ! ya)) nil) (\<lambda>at_root.
          bind (if at_root then Inr (t\<lparr>nodes := h3, root := Some xa\<rparr>)
                else (case parent (h3 ! ya) of None \<Rightarrow> Inl AttributeError
                      | Some pa \<Rightarrow>
                        bind (eq h3 (Some ya) (right (h3 ! pa))) (\<lambda>is_right.
                          if is_right
                          then Inr (t\<lparr>nodes := h3[pa := (h3 ! pa)\<lparr>right := Some xa\<rparr>]\<rparr>)
                          else Inr (t\<lparr>nodes := h3[pa := (h3 ! pa)\<lparr>left := Some xa\<rparr>]\<rparr>)))) (\<lambda>t4.
          let h4 = nodes t4;
              h5 = h4[xa := (h4 ! xa)\<lparr>right := Some ya\<rparr>];
              h6 = h5[ya := (h5 ! ya)\<lparr>parent := Some xa\<rparr>] in
          bind (update_max_end h6 (Some ya)) (\<lambda>h7.
          bind (update_max_end h7 (Some xa)) (\<lambda>h8.
          Inr (t4\<lparr>nodes := h8\<rparr>)))))))))"

subsection \<open>\<open>_insert_fixup\<close>\<close>

text \<open>The loop condition: \<open>node.parent is not None and node.parent != self.nil and
  node.parent.color == Color.RED\<close>.\<close>

definition fixup_cond :: "IntervalTree \<Rightarrow> ref \<Rightarrow> error + bool" where
  "fixup_cond t node =
     (case node of None \<Rightarrow> Inl AttributeError
      | Some a \<Rightarrow>
       (case parent (nodes t ! a) of None \<Rightarrow> Inr False
        | Some p \<Rightarrow>
          bind (ne (nodes t) (Some p) nil) (\<lambda>b.
            Inr (b \<and> color (nodes t ! p) = RED))))"

text \<open>The \<open>else\<close> part of the first branch (the parent is taken for a left child, the
  uncle is not red): first its end, from \<open>if node.parent is not None\<close> on, then the whole
  part, from \<open>if node == node.parent.right\<close> on.\<close>

definition fixup_left_tail :: "IntervalTree \<Rightarrow> nat \<Rightarrow> error + IntervalTree \<times> ref" where
  "fixup_left_tail t1 a1 =
     (case parent (nodes t1 ! a1) of None \<Rightarrow> Inr (t1, Some a1)
      | Some p1 \<Rightarrow>
        let h1 = (nodes t1)[p1 := (nodes t1 ! p1)\<lparr>color := BLACK\<rparr>] in
        (case parent (h1 ! p1) of None \<Rightarrow> Inr (t1\<lparr>nodes := h1\<rparr>, Some a1)
         | Some g1 \<Rightarrow>
           let h2 = h1[g1 := (h1 ! g1)\<lparr>color := RED\<rparr>] in
           bind (right_rotate (t1\<lparr>nodes := h2\<rparr>) (Some g1)) (\<lambda>t2.
             Inr (t2, Some a1))))"

definition fixup_left_rot :: "IntervalTree \<Rightarrow> nat \<Rightarrow> nat \<Rightarrow> error + IntervalTree \<times> ref" where
  "fixup_left_rot t a p =
     bind (eq (nodes t) (Some a) (right (nodes t ! p))) (\<lambda>is_right.
     bind (if is_right then bind (left_rotate t (Some p)) (\<lambda>t1. Inr (t1, p))
           else Inr (t, a)) (\<lambda>(t1, a1). fixup_left_tail t1 a1))"

text \<open>The same in the second branch (the parent is not taken for a left child).\<close>

definition fixup_right_tail :: "IntervalTree \<Rightarrow> nat \<Rightarrow> error + IntervalTree \<times> ref" where
  "fixup_right_tail t1 a1 =
     (case parent (nodes t1 ! a1) of None \<Rightarrow> Inr (t1, Some a1)
      | Some p1 \<Rightarrow>
        let h1 = (nodes t1)[p1 := (nodes t1 ! p1)\<lparr>color := BLACK\<rparr>] in
        (case parent (h1 ! p1) of None \<Rightarrow> Inr (t1\<lparr>nodes := h1\<rparr>, Some a1)
         | Some g1 \<Rightarrow>
           let h2 = h1[g1 := (h1 ! g1)\<lparr>color := RED\<rparr>] in
           bind (left_rotate (t1\<lparr>nodes := h2\<rparr>) (Some g1)) (\<lambda>t2.
             Inr (t2, Some a1))))"

definition fixup_right_rot :: "IntervalTree \<Rightarrow> nat \<Rightarrow> nat \<Rightarrow> error + IntervalTree \<times> ref" where
  "fixup_right_rot t a p =
     bind (eq (nodes t) (Some a) (left (nodes t ! p))) (\<lambda>is_left.
     bind (if is_left then bind (right_rotate t (Some p)) (\<lambda>t1. Inr (t1, p))
           else Inr (t, a)) (\<lambda>(t1, a1). fixup_right_tail t1 a1))"

text \<open>The part shared by both branches when the uncle is red: recolour and move up.\<close>

definition fixup_recolor :: "IntervalTree \<Rightarrow> nat \<Rightarrow> nat \<Rightarrow> nat \<Rightarrow> IntervalTree \<times> ref" where
  "fixup_recolor t a p u =
     (let h = nodes t;
          h1 = h[p := (h ! p)\<lparr>color := BLACK\<rparr>];
          h2 = h1[u := (h1 ! u)\<lparr>color := BLACK\<rparr>] in
      case parent (h2 ! p) of None \<Rightarrow> (t\<lparr>nodes := h2\<rparr>, Some a)
      | Some g \<Rightarrow> (t\<lparr>nodes := h2[g := (h2 ! g)\<lparr>color := RED\<rparr>]\<rparr>, Some g))"

text \<open>One iteration of the \<open>while\<close> loop; it returns the tree and the new \<open>node\<close>.\<close>

definition fixup_step :: "IntervalTree \<Rightarrow> ref \<Rightarrow> error + IntervalTree \<times> ref" where
  "fixup_step t node =
     (case node of None \<Rightarrow> Inl AttributeError
      | Some a \<Rightarrow>
       (case parent (nodes t ! a) of None \<Rightarrow> Inl AttributeError
        | Some p \<Rightarrow>
          let h = nodes t in
          bind (case parent (h ! p) of None \<Rightarrow> Inr True
                | Some g \<Rightarrow> eq h (Some p) (left (h ! g))) (\<lambda>parent_is_left.
            if parent_is_left then
              (case (case parent (h ! p) of None \<Rightarrow> nil | Some g \<Rightarrow> right (h ! g)) of
                 None \<Rightarrow> fixup_left_rot t a p
               | Some u \<Rightarrow>
                 if color (h ! u) = RED then Inr (fixup_recolor t a p u)
                 else fixup_left_rot t a p)
            else
              (case (case parent (h ! p) of None \<Rightarrow> nil | Some g \<Rightarrow> left (h ! g)) of
                 None \<Rightarrow> fixup_right_rot t a p
               | Some u \<Rightarrow>
                 if color (h ! u) = RED then Inr (fixup_recolor t a p u)
                 else fixup_right_rot t a p))))"

text \<open>
  The \<open>while\<close> loops have no bound in the source, so they are partial functions:
  \<open>None\<close> is a loop that never ends, \<open>Some (Inl e)\<close> an exception, \<open>Some (Inr v)\<close>
  a normal return.
\<close>

partial_function (option) fixup_loop :: "IntervalTree \<Rightarrow> ref \<Rightarrow> (error + IntervalTree) option" where
  "fixup_loop t node =
     (case fixup_cond t node of Inl e \<Rightarrow> Some (Inl e)
      | Inr c \<Rightarrow>
        if \<not> c then Some (Inr t)
        else (case fixup_step t node of Inl e \<Rightarrow> Some (Inl e)
              | Inr (t1, node1) \<Rightarrow> fixup_loop t1 node1))"

declare fixup_loop.simps [code]

definition insert_fixup :: "IntervalTree \<Rightarrow> ref \<Rightarrow> (error + IntervalTree) option" where
  "insert_fixup t node =
     (case node of None \<Rightarrow> Some (Inr t)
      | Some a \<Rightarrow>
       (case fixup_loop t node of None \<Rightarrow> None
        | Some (Inl e) \<Rightarrow> Some (Inl e)
        | Some (Inr t1) \<Rightarrow>
          (case root t1 of None \<Rightarrow> Some (Inr t1)
           | Some r \<Rightarrow> Some (Inr (t1\<lparr>nodes := (nodes t1)[r := (nodes t1 ! r)\<lparr>color := BLACK\<rparr>]\<rparr>)))))"

subsection \<open>\<open>insert\<close>\<close>

definition obind :: "(error + 'a) option \<Rightarrow> ('a \<Rightarrow> (error + 'b) option) \<Rightarrow> (error + 'b) option" where
  "obind m f = (case m of None \<Rightarrow> None | Some (Inl e) \<Rightarrow> Some (Inl e) | Some (Inr x) \<Rightarrow> f x)"

text \<open>The descent: \<open>while current is not None and current != self.nil\<close>.\<close>

partial_function (option) insert_descend ::
  "heap \<Rightarrow> int \<Rightarrow> ref \<Rightarrow> ref \<Rightarrow> (error + heap \<times> ref) option" where
  "insert_descend h s current par =
     (case current of None \<Rightarrow> Some (Inr (h, par))
      | Some c \<Rightarrow>
       (case ne h current nil of Inl e \<Rightarrow> Some (Inl e)
        | Inr b \<Rightarrow>
          if \<not> b then Some (Inr (h, par))
          else (case update_max_end h current of Inl e \<Rightarrow> Some (Inl e)
                | Inr h1 \<Rightarrow>
                  insert_descend h1 s
                    (if s \<le> start (h1 ! c) then left (h1 ! c) else right (h1 ! c)) current)))"

declare insert_descend.simps [code]

text \<open>The walk back to the root: \<open>while node is not None and node != self.nil\<close>.\<close>

partial_function (option) insert_update :: "heap \<Rightarrow> ref \<Rightarrow> (error + heap) option" where
  "insert_update h node =
     (case node of None \<Rightarrow> Some (Inr h)
      | Some a \<Rightarrow>
       (case ne h node nil of Inl e \<Rightarrow> Some (Inl e)
        | Inr b \<Rightarrow>
          if \<not> b then Some (Inr h)
          else (case update_max_end h node of Inl e \<Rightarrow> Some (Inl e)
                | Inr h1 \<Rightarrow> insert_update h1 (parent (h1 ! a)))))"

declare insert_update.simps [code]

text \<open>
  The new node is allocated at the next free address of the store. \<open>__post_init__\<close>
  replaces a \<open>max_end\<close> of \<open>0\<close> by \<open>end\<close>, which is \<open>0\<close> as well here.
\<close>

definition insert' :: "IntervalTree \<Rightarrow> int \<Rightarrow> int \<Rightarrow> int \<Rightarrow> (error + IntervalTree) option" where
  "insert' t s e i =
     (let na = length (nodes t);
          new_node = \<lparr>start = s, end' = e, slot_id = i, max_end = (if e = 0 then e else e),
                      left = nil, right = nil, parent = nil, color = RED\<rparr>;
          h0 = nodes t @ [new_node] in
      obind (insert_descend h0 s (root t) nil) (\<lambda>(h1, par).
        let h2 = h1[na := (h1 ! na)\<lparr>parent := par\<rparr>] in
        obind (Some (bind (eq h2 par nil) (\<lambda>b. Inr (b \<or> par = None)))) (\<lambda>no_parent.
        obind (if no_parent then Some (Inr (t\<lparr>nodes := h2, root := Some na\<rparr>))
               else (case par of None \<Rightarrow> Some (Inl AttributeError)
                     | Some pa \<Rightarrow>
                       if start (h2 ! na) \<le> start (h2 ! pa)
                       then Some (Inr (t\<lparr>nodes := h2[pa := (h2 ! pa)\<lparr>left := Some na\<rparr>]\<rparr>))
                       else Some (Inr (t\<lparr>nodes := h2[pa := (h2 ! pa)\<lparr>right := Some na\<rparr>]\<rparr>)))) (\<lambda>t3.
        obind (insert_update (nodes t3) (Some na)) (\<lambda>h4.
        obind (insert_fixup (t3\<lparr>nodes := h4\<rparr>) (Some na)) (\<lambda>t5.
        Some (Inr (t5\<lparr>tsize := tsize t5 + 1\<rparr>))))))))"

text \<open>A sequence of inserts, as \<open>_build_indexes\<close> and the tests issue them; the first
  exception ends it.\<close>

fun inserts :: "IntervalTree \<Rightarrow> (int \<times> int \<times> int) list \<Rightarrow> (error + IntervalTree) option" where
  "inserts t [] = Some (Inr t)"
| "inserts t ((s, e, i) # xs) = obind (insert' t s e i) (\<lambda>t1. inserts t1 xs)"

subsection \<open>\<open>find_overlapping\<close>, \<open>get_all_intervals\<close>, \<open>is_empty\<close>\<close>

text \<open>The nested function \<open>search\<close>; \<open>result\<close> is the list it appends to.\<close>

partial_function (option) search ::
  "heap \<Rightarrow> int \<Rightarrow> int \<Rightarrow> ref \<Rightarrow> int list \<Rightarrow> (error + int list) option" where
  "search h s e node result =
     (case node of None \<Rightarrow> Some (Inr result)
      | Some a \<Rightarrow>
       (case eq h node nil of Inl er \<Rightarrow> Some (Inl er)
        | Inr is_nil \<Rightarrow>
          if is_nil then Some (Inr result)
          else
            let result1 = (if overlaps_with (h ! a) s e then result @ [slot_id (h ! a)]
                           else result) in
            (case (case left (h ! a) of None \<Rightarrow> Inr False
                   | Some l \<Rightarrow> bind (ne h (Some l) nil) (\<lambda>b. Inr (b \<and> max_end (h ! l) > s))) of
               Inl er \<Rightarrow> Some (Inl er)
             | Inr go_left \<Rightarrow>
               Option.bind (if go_left then search h s e (left (h ! a)) result1
                            else Some (Inr result1)) (\<lambda>r.
                 case r of Inl er \<Rightarrow> Some (Inl er)
                 | Inr result2 \<Rightarrow>
                 (case (case right (h ! a) of None \<Rightarrow> Inr False
                        | Some r \<Rightarrow> bind (ne h (Some r) nil) (\<lambda>b. Inr (b \<and> start (h ! a) < e))) of
                    Inl er \<Rightarrow> Some (Inl er)
                  | Inr go_right \<Rightarrow>
                    if go_right then search h s e (right (h ! a)) result2
                    else Some (Inr result2))))))"

declare search.simps [code]

definition find_overlapping :: "IntervalTree \<Rightarrow> int \<Rightarrow> int \<Rightarrow> (error + int list) option" where
  "find_overlapping t s e =
     (case root t of None \<Rightarrow> Some (Inr [])
      | Some r \<Rightarrow> search (nodes t) s e (root t) [])"

partial_function (option) inorder' ::
  "heap \<Rightarrow> ref \<Rightarrow> (int \<times> int \<times> int) list \<Rightarrow> (error + (int \<times> int \<times> int) list) option" where
  "inorder' h node result =
     (case node of None \<Rightarrow> Some (Inr result)
      | Some a \<Rightarrow>
       (case eq h node nil of Inl er \<Rightarrow> Some (Inl er)
        | Inr is_nil \<Rightarrow>
          if is_nil then Some (Inr result)
          else
            Option.bind (inorder' h (left (h ! a)) result) (\<lambda>r.
              case r of Inl er \<Rightarrow> Some (Inl er)
              | Inr result1 \<Rightarrow>
                inorder' h (right (h ! a))
                  (result1 @ [(start (h ! a), end' (h ! a), slot_id (h ! a))]))))"

declare inorder'.simps [code]

text \<open>\<open>sorted(result)\<close> orders the triples as Python orders tuples: lexicographically.\<close>

definition get_all_intervals :: "IntervalTree \<Rightarrow> (error + (int \<times> int \<times> int) list) option" where
  "get_all_intervals t =
     (case root t of None \<Rightarrow> Some (Inr (sort []))
      | Some r \<Rightarrow> obind (inorder' (nodes t) (root t) []) (\<lambda>result. Some (Inr (sort result))))"

definition is_empty :: "IntervalTree \<Rightarrow> error + bool" where
  "is_empty t = (case root t of None \<Rightarrow> Inr True | Some r \<Rightarrow> eq (nodes t) (root t) nil)"

section \<open>Dates and times (\<open>datetime.strptime\<close>, \<open>strftime\<close>)\<close>

text \<open>
  The repository parses with \<open>datetime.datetime.strptime\<close> and the formats \<open>'%Y-%m-%d'\<close>
  and \<open>'%H:%M'\<close>, and prints with \<open>strftime\<close> and the same formats. CPython matches the
  string against a regular expression built from the format and refuses what is left over:
  \<open>%Y\<close> is \<open>\d\d\d\d\<close>, \<open>%m\<close> is \<open>1[0-2]|0[1-9]|[1-9]\<close>,
  \<open>%d\<close> is \<open>3[0-1]|[1-2]\d|0[1-9]|[1-9]| [1-9]\<close>, \<open>%H\<close> is \<open>2[0-3]|[0-1]\d|\d\<close> and
  \<open>%M\<close> is \<open>[0-5]\d|\d\<close>; a date must exist in the calendar and have a year of at least 1.
  Strings are ASCII here. \<open>None\<close> is the \<open>ValueError\<close> of \<open>strptime\<close>.
\<close>

type_synonym time = "nat \<times> nat"

type_synonym date = "nat \<times> nat \<times> nat"

definition is_digit :: "char \<Rightarrow> bool" where
  "is_digit c = (c \<in> set ''0123456789'')"

definition digit_val :: "char \<Rightarrow> nat" where
  "digit_val c = of_char c - 48"

definition digit_char :: "nat \<Rightarrow> char" where
  "digit_char n = char_of (48 + n)"

definition pad2 :: "nat \<Rightarrow> string" where
  "pad2 n = [digit_char (n div 10 mod 10), digit_char (n mod 10)]"

definition two_digits :: "char \<Rightarrow> char \<Rightarrow> nat" where
  "two_digits c1 c2 = 10 * digit_val c1 + digit_val c2"

fun parse_minute :: "string \<Rightarrow> nat option" where
  "parse_minute [c1] = (if is_digit c1 then Some (digit_val c1) else None)"
| "parse_minute [c1, c2] =
     (if c1 \<in> set ''012345'' \<and> is_digit c2 then Some (two_digits c1 c2) else None)"
| "parse_minute cs = None"

fun strptime_time :: "string \<Rightarrow> time option" where
  "strptime_time (c1 # c2 # c3 # cs) =
     (if c3 = CHR '':'' \<and> ((c1 = CHR ''2'' \<and> c2 \<in> set ''0123'') \<or> (c1 \<in> set ''01'' \<and> is_digit c2))
      then map_option (\<lambda>m. (two_digits c1 c2, m)) (parse_minute cs)
      else if c2 = CHR '':'' \<and> is_digit c1
      then map_option (\<lambda>m. (digit_val c1, m)) (parse_minute (c3 # cs))
      else None)"
| "strptime_time cs = None"

fun parse_day :: "string \<Rightarrow> nat option" where
  "parse_day [c1] = (if c1 \<in> set ''123456789'' then Some (digit_val c1) else None)"
| "parse_day [c1, c2] =
     (if (c1 = CHR ''3'' \<and> c2 \<in> set ''01'') \<or> (c1 \<in> set ''12'' \<and> is_digit c2)
         \<or> (c1 = CHR ''0'' \<and> c2 \<in> set ''123456789'')
      then Some (two_digits c1 c2)
      else if c1 = CHR '' '' \<and> c2 \<in> set ''123456789'' then Some (digit_val c2)
      else None)"
| "parse_day cs = None"

fun parse_month_day :: "string \<Rightarrow> (nat \<times> nat) option" where
  "parse_month_day (c1 # c2 # c3 # cs) =
     (if c3 = CHR ''-'' \<and> ((c1 = CHR ''1'' \<and> c2 \<in> set ''012'') \<or> (c1 = CHR ''0'' \<and> c2 \<in> set ''123456789''))
      then map_option (\<lambda>d. (two_digits c1 c2, d)) (parse_day cs)
      else if c2 = CHR ''-'' \<and> c1 \<in> set ''123456789''
      then map_option (\<lambda>d. (digit_val c1, d)) (parse_day (c3 # cs))
      else None)"
| "parse_month_day cs = None"

definition is_leap :: "nat \<Rightarrow> bool" where
  "is_leap y = (y mod 4 = 0 \<and> (y mod 100 \<noteq> 0 \<or> y mod 400 = 0))"

definition days_in_month :: "nat \<Rightarrow> nat \<Rightarrow> nat" where
  "days_in_month y m =
     (if m = 2 then (if is_leap y then 29 else 28)
      else if m \<in> {4, 6, 9, 11} then 30 else 31)"

fun strptime_date :: "string \<Rightarrow> date option" where
  "strptime_date (y1 # y2 # y3 # y4 # c # cs) =
     (if is_digit y1 \<and> is_digit y2 \<and> is_digit y3 \<and> is_digit y4 \<and> c = CHR ''-''
      then (case parse_month_day cs of None \<Rightarrow> None
            | Some (m, d) \<Rightarrow>
              let y = 100 * two_digits y1 y2 + two_digits y3 y4 in
              if 1 \<le> y \<and> d \<le> days_in_month y m then Some (y, m, d) else None)
      else None)"
| "strptime_date cs = None"

text \<open>
  \<open>strftime('%Y-%m-%d')\<close> and \<open>strftime('%H:%M')\<close>. CPython hands the format to the C
  library: month, day, hour and minute are padded to two digits; the year is printed by
  glibc as a plain decimal number, so a year below 1000 has fewer than four digits
  (\<open>'999-01-15'\<close>).
\<close>

fun dec :: "nat \<Rightarrow> string" where
  "dec n = (if n < 10 then [digit_char n] else dec (n div 10) @ [digit_char (n mod 10)])"

declare dec.simps [simp del]

definition strftime_date :: "date \<Rightarrow> string" where
  "strftime_date d = (case d of (y, m, dd) \<Rightarrow> dec y @ ''-'' @ pad2 m @ ''-'' @ pad2 dd)"

definition strftime_time :: "time \<Rightarrow> string" where
  "strftime_time t = (case t of (h, m) \<Rightarrow> pad2 h @ '':'' @ pad2 m)"

section \<open>The schedule index (\<open>core.py\<close>, classes \<open>Day\<close>, \<open>TimeSlot\<close>, \<open>ScheduleManager\<close>)\<close>

record Day =
  d_id :: int
  d_date :: date
  d_start :: time
  d_end :: time

record TimeSlot =
  ts_id :: int
  ts_day_id :: int
  ts_start :: time
  ts_end :: time

text \<open>
  The two lists given to \<open>set_data\<close> come from JSON and are not checked by the caller
  beyond being lists. An element is a dictionary (\<open>Obj\<close>) or another value (\<open>NotObj\<close>);
  a field that is \<open>None\<close> here is a key the dictionary lacks; the value under \<open>date\<close>,
  \<open>start\<close> or \<open>end\<close> is a string (\<open>Str\<close>) or a value of another type (\<open>NotStr\<close>: \<open>null\<close>, a
  number, a list). The values under \<open>id\<close> and \<open>day_id\<close> are integers, as the annotations of
  the dataclasses say; identifiers of other types are outside this model.
\<close>

datatype pyval = Str string | NotStr

datatype 'a pyrec = Obj 'a | NotObj

record day_dict =
  dd_id :: "int option"
  dd_date :: "pyval option"
  dd_start :: "pyval option"
  dd_end :: "pyval option"

record slot_dict =
  sd_id :: "int option"
  sd_day_id :: "int option"
  sd_start :: "pyval option"
  sd_end :: "pyval option"

text \<open>\<open>data[key]\<close>: a missing key raises \<open>KeyError\<close>.\<close>

definition field :: "'a option \<Rightarrow> error + 'a" where
  "field v = (case v of None \<Rightarrow> Inl KeyError | Some x \<Rightarrow> Inr x)"

text \<open>\<open>datetime.datetime.strptime(value, format)\<close>: a value that is not a string raises
  \<open>TypeError\<close>, a string that does not match raises \<open>ValueError\<close>.\<close>

definition parsed :: "(string \<Rightarrow> 'a option) \<Rightarrow> pyval \<Rightarrow> error + 'a" where
  "parsed p v =
     (case v of NotStr \<Rightarrow> Inl TypeError
      | Str s \<Rightarrow> (case p s of None \<Rightarrow> Inl ValueError | Some x \<Rightarrow> Inr x))"

definition pbind :: "error + 'a \<Rightarrow> ('a \<Rightarrow> error + 'b) \<Rightarrow> error + 'b" where
  "pbind m f = (case m of Inl e \<Rightarrow> Inl e | Inr x \<Rightarrow> f x)"

text \<open>\<open>Day.from_dict\<close> and \<open>TimeSlot.from_dict\<close>: the arguments are evaluated in order;
  subscripting a value that is not a dictionary raises \<open>TypeError\<close>.\<close>

definition day_from_dict :: "day_dict pyrec \<Rightarrow> error + Day" where
  "day_from_dict r =
     (case r of NotObj \<Rightarrow> Inl TypeError
      | Obj data \<Rightarrow>
        pbind (field (dd_id data)) (\<lambda>i.
        pbind (field (dd_date data)) (\<lambda>ds. pbind (parsed strptime_date ds) (\<lambda>d.
        pbind (field (dd_start data)) (\<lambda>ss. pbind (parsed strptime_time ss) (\<lambda>s.
        pbind (field (dd_end data)) (\<lambda>es. pbind (parsed strptime_time es) (\<lambda>e.
        Inr \<lparr>d_id = i, d_date = d, d_start = s, d_end = e\<rparr>))))))))"

definition slot_from_dict :: "slot_dict pyrec \<Rightarrow> error + TimeSlot" where
  "slot_from_dict r =
     (case r of NotObj \<Rightarrow> Inl TypeError
      | Obj data \<Rightarrow>
        pbind (field (sd_id data)) (\<lambda>i.
        pbind (field (sd_day_id data)) (\<lambda>di.
        pbind (field (sd_start data)) (\<lambda>ss. pbind (parsed strptime_time ss) (\<lambda>s.
        pbind (field (sd_end data)) (\<lambda>es. pbind (parsed strptime_time es) (\<lambda>e.
        Inr \<lparr>ts_id = i, ts_day_id = di, ts_start = s, ts_end = e\<rparr>)))))))"

text \<open>A list comprehension over \<open>from_dict\<close>: the first exception ends it.\<close>

fun parse_all :: "('a \<Rightarrow> error + 'b) \<Rightarrow> 'a list \<Rightarrow> error + 'b list" where
  "parse_all f [] = Inr []"
| "parse_all f (x # xs) = pbind (f x) (\<lambda>y. pbind (parse_all f xs) (\<lambda>ys. Inr (y # ys)))"

record ScheduleManager =
  days :: "Day list"
  timeslots :: "TimeSlot list"
  day_by_date :: "string \<rightharpoonup> Day"
  day_by_id :: "int \<rightharpoonup> Day"
  interval_trees :: "string \<rightharpoonup> IntervalTree"

text \<open>\<open>__init__\<close>.\<close>

definition new_manager :: ScheduleManager where
  "new_manager = \<lparr>days = [], timeslots = [], day_by_date = Map.empty,
                  day_by_id = Map.empty, interval_trees = Map.empty\<rparr>"

definition time_to_minutes :: "time \<Rightarrow> int" where
  "time_to_minutes t = (case t of (h, m) \<Rightarrow> int h * 60 + int m)"

text \<open>\<open>datetime.time(hour=minutes // 60, minute=minutes % 60)\<close> raises \<open>ValueError\<close> unless
  the hour is in \<open>0..23\<close>.\<close>

definition minutes_to_time :: "int \<Rightarrow> error + time" where
  "minutes_to_time minutes =
     (if 0 \<le> minutes div 60 \<and> minutes div 60 \<le> 23
      then Inr (nat (minutes div 60), nat (minutes mod 60))
      else Inl TimeRangeError)"

text \<open>The first loop of \<open>_build_indexes\<close>.\<close>

fun index_days :: "ScheduleManager \<Rightarrow> Day list \<Rightarrow> ScheduleManager" where
  "index_days m [] = m"
| "index_days m (day # ds) =
     index_days (m\<lparr>day_by_date := (day_by_date m)(strftime_date (d_date day) \<mapsto> day),
                   day_by_id := (day_by_id m)(d_id day \<mapsto> day)\<rparr>) ds"

text \<open>The second loop of \<open>_build_indexes\<close>.\<close>

fun index_slots :: "ScheduleManager \<Rightarrow> TimeSlot list \<Rightarrow> (error + ScheduleManager) option" where
  "index_slots m [] = Some (Inr m)"
| "index_slots m (slot # ss) =
     (case day_by_id m (ts_day_id slot) of None \<Rightarrow> index_slots m ss
      | Some day \<Rightarrow>
        let date_str = strftime_date (d_date day);
            m1 = (if date_str \<notin> dom (interval_trees m)
                  then m\<lparr>interval_trees := (interval_trees m)(date_str \<mapsto> new_tree)\<rparr>
                  else m);
            start_minutes = time_to_minutes (ts_start slot);
            end_minutes = time_to_minutes (ts_end slot) in
        (case interval_trees m1 date_str of None \<Rightarrow> None
         | Some tree \<Rightarrow>
           obind (insert' tree start_minutes end_minutes (ts_id slot)) (\<lambda>tree1.
             index_slots (m1\<lparr>interval_trees := (interval_trees m1)(date_str \<mapsto> tree1)\<rparr>) ss)))"

definition build_indexes :: "ScheduleManager \<Rightarrow> (error + ScheduleManager) option" where
  "build_indexes m =
     index_slots
       (index_days (m\<lparr>day_by_date := Map.empty, day_by_id := Map.empty,
                      interval_trees := Map.empty\<rparr>) (days m))
       (timeslots m)"

text \<open>
  \<open>except (KeyError, ValueError) as e: raise ValueError(...)\<close>: these two exceptions are
  replaced by the format error, every other exception passes through.
\<close>

definition caught :: "error \<Rightarrow> error" where
  "caught e = (if e = KeyError \<or> e = ValueError then FormatError else e)"

text \<open>
  \<open>set_data\<close> mutates the manager statement by statement, so an exception leaves the
  assignments made before it. The result is \<open>Inr m\<close> for a normal return with the
  manager \<open>m\<close>, and \<open>Inl (e, Some m)\<close> for the exception \<open>e\<close> with the manager left as \<open>m\<close>.
  An exception that comes out of \<open>_build_indexes\<close> leaves a manager that holds a tree
  stopped in the middle of an insertion, which this model does not describe: \<open>Inl (e, None)\<close>.
\<close>

definition set_data ::
  "ScheduleManager \<Rightarrow> day_dict pyrec list \<Rightarrow> slot_dict pyrec list \<Rightarrow>
     (error \<times> ScheduleManager option + ScheduleManager) option" where
  "set_data m ds ss =
     (case parse_all day_from_dict ds of Inl e \<Rightarrow> Some (Inl (caught e, Some m))
      | Inr parsed_days \<Rightarrow>
        let m1 = m\<lparr>days := parsed_days\<rparr> in
        (case parse_all slot_from_dict ss of Inl e \<Rightarrow> Some (Inl (caught e, Some m1))
         | Inr parsed_slots \<Rightarrow>
           let m2 = m1\<lparr>timeslots := parsed_slots\<rparr> in
           (case build_indexes m2 of None \<Rightarrow> None
            | Some (Inl e) \<Rightarrow> Some (Inl (caught e, None))
            | Some (Inr m3) \<Rightarrow> Some (Inr m3))))"

subsection \<open>Queries\<close>

definition get_day_by_date :: "ScheduleManager \<Rightarrow> date \<Rightarrow> Day option" where
  "get_day_by_date m d = day_by_date m (strftime_date d)"

definition parse_date :: "string \<Rightarrow> error + date" where
  "parse_date date_str = (case strptime_date date_str of None \<Rightarrow> Inl BadDate | Some d \<Rightarrow> Inr d)"

definition parse_time :: "string \<Rightarrow> error + time" where
  "parse_time time_str = (case strptime_time time_str of None \<Rightarrow> Inl BadTime | Some t \<Rightarrow> Inr t)"

text \<open>The checks shared by the queries: data loaded, date parsed, day known.\<close>

definition find_day :: "ScheduleManager \<Rightarrow> string \<Rightarrow> error + Day" where
  "find_day m date_str =
     (if days m = [] then Inl NotLoaded
      else bind (parse_date date_str) (\<lambda>d.
        case get_day_by_date m d of None \<Rightarrow> Inl DayNotFound | Some day \<Rightarrow> Inr day))"

text \<open>\<open>not tree or tree.is_empty()\<close>.\<close>

definition no_tree :: "IntervalTree option \<Rightarrow> error + bool" where
  "no_tree tr = (case tr of None \<Rightarrow> Inr True | Some tree \<Rightarrow> is_empty tree)"

fun format_pairs :: "(int \<times> int) list \<Rightarrow> error + (string \<times> string) list" where
  "format_pairs [] = Inr []"
| "format_pairs ((s, e) # xs) =
     bind (minutes_to_time s) (\<lambda>st. bind (minutes_to_time e) (\<lambda>et.
     bind (format_pairs xs) (\<lambda>r. Inr ((strftime_time st, strftime_time et) # r))))"

definition get_busy_intervals ::
  "ScheduleManager \<Rightarrow> string \<Rightarrow> (error + (string \<times> string) list) option" where
  "get_busy_intervals m date_str =
     obind (Some (find_day m date_str)) (\<lambda>day.
     let tr = interval_trees m date_str in
     obind (Some (no_tree tr)) (\<lambda>empty.
       if empty then Some (Inr [])
       else (case tr of None \<Rightarrow> Some (Inl AttributeError)
             | Some tree \<Rightarrow>
               obind (get_all_intervals tree) (\<lambda>intervals.
                 Some (format_pairs (map (\<lambda>(s, e, i). (s, e)) intervals))))))"

text \<open>The loop of \<open>get_free_time\<close> over the sorted intervals; it returns the gaps and the
  final \<open>current_time\<close>.\<close>

fun scan_gaps :: "int \<Rightarrow> (int \<times> int \<times> int) list \<Rightarrow> (int \<times> int) list \<times> int" where
  "scan_gaps current_time [] = ([], current_time)"
| "scan_gaps current_time ((s, e, i) # xs) =
     (let (gaps, final) = scan_gaps (max current_time e) xs in
      (if current_time < s then (current_time, s) # gaps else gaps, final))"

definition free_gaps :: "int \<Rightarrow> int \<Rightarrow> (int \<times> int \<times> int) list \<Rightarrow> (int \<times> int) list" where
  "free_gaps day_start day_end intervals =
     (let (gaps, current_time) = scan_gaps day_start intervals in
      if current_time < day_end then gaps @ [(current_time, day_end)] else gaps)"

definition get_free_time ::
  "ScheduleManager \<Rightarrow> string \<Rightarrow> (error + (string \<times> string) list) option" where
  "get_free_time m date_str =
     obind (Some (find_day m date_str)) (\<lambda>day.
     let tr = interval_trees m date_str;
         day_start = time_to_minutes (d_start day);
         day_end = time_to_minutes (d_end day) in
     obind (Some (no_tree tr)) (\<lambda>empty.
       if empty then Some (Inr [(strftime_time (d_start day), strftime_time (d_end day))])
       else (case tr of None \<Rightarrow> Some (Inl AttributeError)
             | Some tree \<Rightarrow>
               obind (get_all_intervals tree) (\<lambda>intervals.
                 Some (format_pairs (free_gaps day_start day_end intervals))))))"

definition is_time_available ::
  "ScheduleManager \<Rightarrow> string \<Rightarrow> string \<Rightarrow> string \<Rightarrow> (error + bool) option" where
  "is_time_available m date_str start_time_str end_time_str =
     (if days m = [] then Some (Inl NotLoaded)
      else
        obind (Some (parse_date date_str)) (\<lambda>d.
        obind (Some (parse_time start_time_str)) (\<lambda>start_time.
        obind (Some (parse_time end_time_str)) (\<lambda>end_time.
          if start_time \<ge> end_time then Some (Inl InvalidRange)
          else (case get_day_by_date m d of None \<Rightarrow> Some (Inl DayNotFound)
                | Some day \<Rightarrow>
                  if start_time < d_start day \<or> end_time > d_end day then Some (Inr False)
                  else
                    let tr = interval_trees m date_str in
                    obind (Some (no_tree tr)) (\<lambda>empty.
                      if empty then Some (Inr True)
                      else (case tr of None \<Rightarrow> Some (Inl AttributeError)
                            | Some tree \<Rightarrow>
                              obind (find_overlapping tree (time_to_minutes start_time)
                                       (time_to_minutes end_time)) (\<lambda>overlapping.
                                Some (Inr (length overlapping = 0))))))))))"



section \<open>Example data\<close>

text \<open>The fixture \<open>sample_data\<close> of the unit and integration tests.\<close>

definition sample_days :: "day_dict pyrec list" where
  "sample_days =
     [Obj \<lparr>dd_id = Some 1, dd_date = Some (Str ''2024-01-15''), dd_start = Some (Str ''09:00''), dd_end = Some (Str ''17:00'')\<rparr>,
      Obj \<lparr>dd_id = Some 2, dd_date = Some (Str ''2024-01-16''), dd_start = Some (Str ''10:00''), dd_end = Some (Str ''18:00'')\<rparr>]"

definition sample_slots :: "slot_dict pyrec list" where
  "sample_slots =
     [Obj \<lparr>sd_id = Some 1, sd_day_id = Some 1, sd_start = Some (Str ''09:00''), sd_end = Some (Str ''10:30'')\<rparr>,
      Obj \<lparr>sd_id = Some 2, sd_day_id = Some 1, sd_start = Some (Str ''14:00''), sd_end = Some (Str ''15:30'')\<rparr>,
      Obj \<lparr>sd_id = Some 3, sd_day_id = Some 2, sd_start = Some (Str ''11:00''), sd_end = Some (Str ''12:00'')\<rparr>]"

text \<open>A slot record whose \<open>end\<close> is not a time.\<close>

definition bad_slot :: "slot_dict pyrec" where
  "bad_slot = Obj \<lparr>sd_id = Some 4, sd_day_id = Some 1, sd_start = Some (Str ''11:00''), sd_end = Some (Str ''25:00'')\<rparr>"

text \<open>A day record without the key \<open>date\<close>.\<close>

definition bad_day :: "day_dict pyrec" where
  "bad_day = Obj \<lparr>dd_id = Some 3, dd_date = None, dd_start = Some (Str ''09:00''), dd_end = Some (Str ''17:00'')\<rparr>"

text \<open>A day record whose \<open>date\<close> is \<open>null\<close>, and a slot record whose \<open>start\<close> is a number.\<close>

definition null_date_day :: "day_dict pyrec" where
  "null_date_day = Obj \<lparr>dd_id = Some 3, dd_date = Some NotStr, dd_start = Some (Str ''09:00''), dd_end = Some (Str ''17:00'')\<rparr>"

definition number_start_slot :: "slot_dict pyrec" where
  "number_start_slot = Obj \<lparr>sd_id = Some 4, sd_day_id = Some 1, sd_start = Some NotStr, sd_end = Some (Str ''12:00'')\<rparr>"

text \<open>The manager after \<open>set_data\<close> on the fixture, if that returns.\<close>

definition sample_manager :: "ScheduleManager option" where
  "sample_manager =
     (case set_data new_manager sample_days sample_slots of
        Some (Inr m) \<Rightarrow> Some m | _ \<Rightarrow> None)"


section \<open>The shape of a store\<close>

text \<open>
  The store of a tree is related to a binary tree of addresses, its shape: the node at
  address \<open>a\<close> has the roots of the two subtrees as \<open>left\<close> and \<open>right\<close> (the sentinel for
  an empty subtree) and the address above it as \<open>parent\<close>. The colours, the cached
  \<open>max_end\<close> and the stored intervals are read from the store.
\<close>

type_synonym shape = "nat tree"

fun ref_of :: "shape \<Rightarrow> ref" where
  "ref_of Leaf = Some 0"
| "ref_of (Node l a r) = Some a"

fun raddr :: "shape \<Rightarrow> nat" where
  "raddr Leaf = 0"
| "raddr (Node l a r) = a"

fun sub_ok :: "heap \<Rightarrow> ref \<Rightarrow> shape \<Rightarrow> bool" where
  "sub_ok h p Leaf = True"
| "sub_ok h p (Node l a r) =
     (0 < a \<and> a < length h \<and> parent (h ! a) = p \<and> left (h ! a) = ref_of l
      \<and> right (h ! a) = ref_of r \<and> sub_ok h (Some a) l \<and> sub_ok h (Some a) r)"

text \<open>The sentinel is as \<open>__init__\<close> made it, and no node has \<open>None\<close> for a left child.\<close>

definition heap_ok :: "heap \<Rightarrow> bool" where
  "heap_ok h = (0 < length h \<and> h ! 0 = nil_node \<and> (\<forall>a. 0 < a \<and> a < length h \<longrightarrow> left (h ! a) \<noteq> None))"

text \<open>
  A position in a shape: the path from a subtree up to the root, each step with the
  address above, the side the path comes from and the subtree on the other side.
\<close>

datatype dir = Lft | Rgt

type_synonym frame = "dir \<times> nat \<times> shape"

fun plug :: "frame list \<Rightarrow> shape \<Rightarrow> shape" where
  "plug [] t = t"
| "plug ((Lft, g, s) # c) t = plug c (Node t g s)"
| "plug ((Rgt, g, s) # c) t = plug c (Node s g t)"

fun before :: "frame list \<Rightarrow> nat list" where
  "before [] = []"
| "before ((Lft, g, s) # c) = before c"
| "before ((Rgt, g, s) # c) = before c @ inorder s @ [g]"

fun after :: "frame list \<Rightarrow> nat list" where
  "after [] = []"
| "after ((Lft, g, s) # c) = g # inorder s @ after c"
| "after ((Rgt, g, s) # c) = after c"

fun par :: "frame list \<Rightarrow> ref" where
  "par [] = Some 0"
| "par ((d, g, s) # c) = Some g"

fun paddr :: "frame list \<Rightarrow> nat" where
  "paddr [] = 0"
| "paddr ((d, g, s) # c) = g"

fun ctx_ok :: "heap \<Rightarrow> frame list \<Rightarrow> ref \<Rightarrow> bool" where
  "ctx_ok h [] r = True"
| "ctx_ok h ((Lft, g, s) # c) r =
     (0 < g \<and> g < length h \<and> parent (h ! g) = par c \<and> left (h ! g) = r
      \<and> right (h ! g) = ref_of s \<and> sub_ok h (Some g) s \<and> ctx_ok h c (Some g))"
| "ctx_ok h ((Rgt, g, s) # c) r =
     (0 < g \<and> g < length h \<and> parent (h ! g) = par c \<and> right (h ! g) = r
      \<and> left (h ! g) = ref_of s \<and> sub_ok h (Some g) s \<and> ctx_ok h c (Some g))"

text \<open>The root reference of the tree object for a position.\<close>

fun top :: "frame list \<Rightarrow> ref \<Rightarrow> ref" where
  "top [] r = r"
| "top ((d, g, s) # c) r = top c (Some g)"

subsection \<open>Fields of the store\<close>

definition colf :: "heap \<Rightarrow> nat \<Rightarrow> Color" where
  "colf h a = color (h ! a)"

definition mef :: "heap \<Rightarrow> nat \<Rightarrow> int" where
  "mef h a = max_end (h ! a)"

definition enf :: "heap \<Rightarrow> nat \<Rightarrow> int" where
  "enf h a = end' (h ! a)"

definition stf :: "heap \<Rightarrow> nat \<Rightarrow> int" where
  "stf h a = start (h ! a)"

definition pay :: "heap \<Rightarrow> nat \<Rightarrow> int \<times> int \<times> int" where
  "pay h a = (start (h ! a), end' (h ! a), slot_id (h ! a))"

subsection \<open>Red-black invariants of a shape\<close>

fun rcol :: "(nat \<Rightarrow> Color) \<Rightarrow> shape \<Rightarrow> Color" where
  "rcol col Leaf = BLACK"
| "rcol col (Node l a r) = col a"

fun invc :: "(nat \<Rightarrow> Color) \<Rightarrow> shape \<Rightarrow> bool" where
  "invc col Leaf = True"
| "invc col (Node l a r) =
     ((col a = BLACK \<or> (rcol col l = BLACK \<and> rcol col r = BLACK)) \<and> invc col l \<and> invc col r)"

fun bh :: "(nat \<Rightarrow> Color) \<Rightarrow> shape \<Rightarrow> nat" where
  "bh col Leaf = 0"
| "bh col (Node l a r) = bh col l + (if col a = BLACK then 1 else 0)"

fun invh :: "(nat \<Rightarrow> Color) \<Rightarrow> shape \<Rightarrow> bool" where
  "invh col Leaf = True"
| "invh col (Node l a r) = (bh col l = bh col r \<and> invh col l \<and> invh col r)"

text \<open>
  The invariant of a path: \<open>cinv col c rc b\<close> says that the path \<open>c\<close> takes a subtree with
  root colour \<open>rc\<close> and black height \<open>b\<close> to a red-black tree with a black root.
\<close>

fun cinv :: "(nat \<Rightarrow> Color) \<Rightarrow> frame list \<Rightarrow> Color \<Rightarrow> nat \<Rightarrow> bool" where
  "cinv col [] rc b = (rc = BLACK)"
| "cinv col ((d, g, s) # c) rc b =
     (invc col s \<and> invh col s \<and> bh col s = b
      \<and> (col g = BLACK \<or> (rc = BLACK \<and> rcol col s = BLACK))
      \<and> cinv col c (col g) (b + (if col g = BLACK then 1 else 0)))"

subsection \<open>The \<open>max_end\<close> invariant of a shape\<close>

fun rme :: "(nat \<Rightarrow> int) \<Rightarrow> shape \<Rightarrow> int option" where
  "rme me Leaf = None"
| "rme me (Node l a r) = Some (me a)"

text \<open>What \<open>_update_max_end\<close> computes from \<open>end\<close> and the \<open>max_end\<close> of the children
  that exist.\<close>

definition max3 :: "int \<Rightarrow> int option \<Rightarrow> int option \<Rightarrow> int" where
  "max3 e l r =
     (let m1 = (case l of None \<Rightarrow> e | Some x \<Rightarrow> max e x)
      in case r of None \<Rightarrow> m1 | Some y \<Rightarrow> max m1 y)"

fun maxinv :: "(nat \<Rightarrow> int) \<Rightarrow> (nat \<Rightarrow> int) \<Rightarrow> shape \<Rightarrow> bool" where
  "maxinv me en Leaf = True"
| "maxinv me en (Node l a r) =
     (me a = max3 (en a) (rme me l) (rme me r) \<and> maxinv me en l \<and> maxinv me en r)"

fun cmaxinv :: "(nat \<Rightarrow> int) \<Rightarrow> (nat \<Rightarrow> int) \<Rightarrow> frame list \<Rightarrow> int option \<Rightarrow> bool" where
  "cmaxinv me en [] m = True"
| "cmaxinv me en ((Lft, g, s) # c) m =
     (me g = max3 (en g) m (rme me s) \<and> maxinv me en s \<and> cmaxinv me en c (Some (me g)))"
| "cmaxinv me en ((Rgt, g, s) # c) m =
     (me g = max3 (en g) (rme me s) m \<and> maxinv me en s \<and> cmaxinv me en c (Some (me g)))"

text \<open>The siblings along a path satisfy the invariant (the nodes on the path need not).\<close>

fun smaxinv :: "(nat \<Rightarrow> int) \<Rightarrow> (nat \<Rightarrow> int) \<Rightarrow> frame list \<Rightarrow> bool" where
  "smaxinv me en [] = True"
| "smaxinv me en ((d, g, s) # c) = (maxinv me en s \<and> smaxinv me en c)"

subsection \<open>The invariant of a tree object\<close>

text \<open>
  \<open>tree_inv t T\<close>: the store of \<open>t\<close> has the shape \<open>T\<close>, which holds every node of the store
  once, is a red-black tree ordered by \<open>start\<close>, and caches the right \<open>max_end\<close>s.
\<close>

definition tree_inv :: "IntervalTree \<Rightarrow> shape \<Rightarrow> bool" where
  "tree_inv t T =
     (let h = nodes t in
      heap_ok h \<and> root t = (if T = Leaf then None else ref_of T)
      \<and> sub_ok h (Some 0) T \<and> distinct (inorder T) \<and> set_tree T = {1..<length h}
      \<and> invc (colf h) T \<and> invh (colf h) T \<and> rcol (colf h) T = BLACK
      \<and> maxinv (mef h) (enf h) T
      \<and> sorted (map (stf h) (inorder T))
      \<and> tsize t = int (length (inorder T)))"

text \<open>The path to the place where \<open>insert\<close> puts a node with the given \<open>start\<close>.\<close>

fun descend :: "(nat \<Rightarrow> int) \<Rightarrow> int \<Rightarrow> frame list \<Rightarrow> shape \<Rightarrow> frame list" where
  "descend st s c Leaf = c"
| "descend st s c (Node l a r) =
     (if s \<le> st a then descend st s ((Lft, a, r) # c) l
      else descend st s ((Rgt, a, l) # c) r)"

text \<open>The intervals that overlap a query range, by exhaustive scan.\<close>

definition overlapping :: "int \<Rightarrow> int \<Rightarrow> (int \<times> int \<times> int) list \<Rightarrow> (int \<times> int \<times> int) list" where
  "overlapping s e xs = filter (\<lambda>(st, en, i). \<not> (en \<le> s \<or> st \<ge> e)) xs"

text \<open>Two nodes of a set store the same interval with the same identifier.\<close>

definition dup :: "heap \<Rightarrow> nat set \<Rightarrow> bool" where
  "dup h A = (\<exists>a \<in> A. \<exists>b \<in> A. a \<noteq> b \<and> pay h a = pay h b)"

text \<open>One step of \<open>plug\<close>.\<close>

fun up :: "frame \<Rightarrow> shape \<Rightarrow> shape" where
  "up (Lft, g, s) t = Node t g s"
| "up (Rgt, g, s) t = Node s g t"

text \<open>The store of a tree object has the shape \<open>plug c sub\<close>.\<close>

definition zip_ok :: "IntervalTree \<Rightarrow> frame list \<Rightarrow> shape \<Rightarrow> bool" where
  "zip_ok t c sub =
     (heap_ok (nodes t) \<and> sub_ok (nodes t) (par c) sub \<and> ctx_ok (nodes t) c (ref_of sub)
      \<and> distinct (before c @ inorder sub @ after c) \<and> root t = top c (ref_of sub))"

text \<open>
  The colour invariant inside \<open>_insert_fixup\<close>: the subtree at \<open>node\<close> is a red-black tree with
  a red root, and the rest is one but for the colour of the parent of \<open>node\<close>.
\<close>

definition cfix :: "(nat \<Rightarrow> Color) \<Rightarrow> frame list \<Rightarrow> shape \<Rightarrow> bool" where
  "cfix col c sub =
     (invc col sub \<and> invh col sub \<and> rcol col sub = RED \<and> cinv col c BLACK (bh col sub))"

text \<open>The invariant of the loop of \<open>_insert_fixup\<close>.\<close>

definition fix_inv :: "IntervalTree \<Rightarrow> frame list \<Rightarrow> shape \<Rightarrow> bool" where
  "fix_inv t c sub =
     (zip_ok t c sub \<and> cfix (colf (nodes t)) c sub
      \<and> maxinv (mef (nodes t)) (enf (nodes t)) (plug c sub))"

text \<open>Two tree objects store the same intervals at the same addresses.\<close>

definition same_content :: "IntervalTree \<Rightarrow> IntervalTree \<Rightarrow> bool" where
  "same_content t t' =
     (pay (nodes t') = pay (nodes t) \<and> length (nodes t') = length (nodes t) \<and> tsize t' = tsize t)"

section \<open>Properties of a tree, as the specification words them\<close>

text \<open>The identifier of a stored triple \<open>(start, end, slot_id)\<close>.\<close>

definition idf :: "int \<times> int \<times> int \<Rightarrow> int" where
  "idf x = (case x of (st, en, i) \<Rightarrow> i)"

text \<open>
  The nodes reachable from the node at address \<open>r\<close> through \<open>left\<close> and \<open>right\<close> fields that
  are not the sentinel.
\<close>

inductive reach :: "heap \<Rightarrow> nat \<Rightarrow> nat \<Rightarrow> bool" for h :: heap and r :: nat where
  reach_root: "reach h r r"
| reach_left: "reach h r a \<Longrightarrow> left (h ! a) = Some b \<Longrightarrow> b \<noteq> 0 \<Longrightarrow> reach h r b"
| reach_right: "reach h r a \<Longrightarrow> right (h ! a) = Some b \<Longrightarrow> b \<noteq> 0 \<Longrightarrow> reach h r b"

text \<open>
  \<open>maxEnd(node) = max(end(node), maxEnd(left), maxEnd(right))\<close>, where a child that is
  absent (the sentinel, or \<open>None\<close>) contributes nothing.
\<close>

definition child_max :: "heap \<Rightarrow> ref \<Rightarrow> int option" where
  "child_max h c = (case c of None \<Rightarrow> None | Some b \<Rightarrow> if b = 0 then None else Some (max_end (h ! b)))"

definition node_max_ok :: "heap \<Rightarrow> nat \<Rightarrow> bool" where
  "node_max_ok h a =
     (max_end (h ! a) = max3 (end' (h ! a)) (child_max h (left (h ! a))) (child_max h (right (h ! a))))"

section \<open>Properties of the schedule index, as the specification words them\<close>








text \<open>The minutes covered by a list of pairs of minutes, and by the intervals of a tree.\<close>

definition ispan :: "(int \<times> int) list \<Rightarrow> int set" where
  "ispan ps = (\<Union>(a, b) \<in> set ps. {a ..< b})"

definition bspan :: "(int \<times> int \<times> int) list \<Rightarrow> int set" where
  "bspan xs = (\<Union>(s, e, i) \<in> set xs. {s ..< e})"

section \<open>Basic facts\<close>

lemma bind_simps [simp]:
  "bind (Inl e) f = Inl e"
  "bind (Inr x) f = f x"
  by (simp_all add: bind_def)

lemma obind_simps [simp]:
  "obind None g = None"
  "obind (Some (Inl e)) g = Some (Inl e)"
  "obind (Some (Inr x)) g = g x"
  by (simp_all add: obind_def)

lemma pbind_simps [simp]:
  "pbind (Inl e) f = Inl e"
  "pbind (Inr x) f = f x"
  by (simp_all add: pbind_def)

lemma obind_eq_Some_Inr:
  "obind m g = Some (Inr y) \<longleftrightarrow> (\<exists>x. m = Some (Inr x) \<and> g x = Some (Inr y))"
  by (auto simp: obind_def split: option.splits sum.splits)


lemma recursion_limit_Suc: "recursion_limit = Suc 999"
  by (simp add: recursion_limit_def)

lemma py_eq_same: "py_eq (Suc n) h (Some a) (Some a) = Inr True"
  by simp

lemma eq_same [simp]: "eq h (Some a) (Some a) = Inr True"
  unfolding eq_def recursion_limit_Suc by (rule py_eq_same)

lemma py_eq_error: "py_eq n h a b = Inl e \<Longrightarrow> e = RecursionError"
proof (induction n h a b rule: py_eq.induct)
  case (5 n h p q)
  then show ?case
    by (auto simp: Let_def bind_def split: if_splits sum.splits)
qed simp_all

lemma py_eq_Suc_True:
  "py_eq (Suc n) h (Some a) (Some b) = Inr True \<longleftrightarrow>
     start (h ! a) = start (h ! b) \<and> end' (h ! a) = end' (h ! b)
   \<and> slot_id (h ! a) = slot_id (h ! b) \<and> max_end (h ! a) = max_end (h ! b)
   \<and> (left (h ! a) = left (h ! b) \<or> py_eq n h (left (h ! a)) (left (h ! b)) = Inr True)
   \<and> (right (h ! a) = right (h ! b) \<or> py_eq n h (right (h ! a)) (right (h ! b)) = Inr True)
   \<and> (parent (h ! a) = parent (h ! b) \<or> py_eq n h (parent (h ! a)) (parent (h ! b)) = Inr True)
   \<and> color (h ! a) = color (h ! b)"
  by (auto simp: Let_def bind_def split: sum.splits if_splits)

lemma py_eq_pay_diff:
  "pay h a \<noteq> pay h b \<Longrightarrow> py_eq (Suc n) h (Some a) (Some b) = Inr False"
  by (auto simp: pay_def Let_def)

lemma py_eq_nil_right:
  assumes "h ! 0 = nil_node" "left (h ! a) \<noteq> None"
  shows "py_eq (Suc n) h (Some a) (Some 0) = Inr False"
proof -
  from assms(2) obtain l where l: "left (h ! a) = Some l" by auto
  have "left (h ! 0) = None" using assms(1) by (simp add: nil_node_def)
  with l show ?thesis by (simp add: Let_def)
qed

lemma py_eq_nil_left:
  assumes "h ! 0 = nil_node" "left (h ! a) \<noteq> None"
  shows "py_eq (Suc n) h (Some 0) (Some a) = Inr False"
proof -
  from assms(2) obtain l where l: "left (h ! a) = Some l" by auto
  have "left (h ! 0) = None" using assms(1) by (simp add: nil_node_def)
  with l show ?thesis by (simp add: Let_def)
qed

lemma eq_nil:
  assumes "heap_ok h" "a < length h"
  shows "eq h (Some a) nil = Inr (a = 0)"
proof (cases "a = 0")
  case True
  then show ?thesis by (simp add: nil_def)
next
  case False
  with assms have "left (h ! a) \<noteq> None" "h ! 0 = nil_node"
    by (auto simp: heap_ok_def)
  then have "py_eq (Suc 999) h (Some a) (Some 0) = Inr False"
    by (intro py_eq_nil_right)
  with False show ?thesis
    unfolding eq_def nil_def recursion_limit_Suc by simp
qed

lemma ne_nil:
  assumes "heap_ok h" "a < length h"
  shows "ne h (Some a) nil = Inr (a \<noteq> 0)"
  by (simp add: ne_def eq_nil [OF assms])

lemma eq_None_right [simp]: "eq h (Some a) None = Inr False"
  by (simp add: eq_def)

text \<open>
  When \<open>==\<close> on two different nodes of a well-linked region returns \<open>True\<close>, the two are
  leaves under the same parent: a nested comparison of different children or different
  parents comes back to the pair it started from.
\<close>

lemma py_eq_True_twin:
  assumes nil0: "h ! 0 = nil_node" and N0: "0 \<notin> N"
    and L: "\<And>a. a \<in> N \<Longrightarrow> \<exists>l. left (h ! a) = Some l \<and> (l = 0 \<or> (l \<in> N \<and> parent (h ! l) = Some a))"
    and R: "\<And>a. a \<in> N \<Longrightarrow> \<exists>r. right (h ! a) = Some r \<and> (r = 0 \<or> (r \<in> N \<and> parent (h ! r) = Some a))"
    and P: "\<And>a. a \<in> N \<Longrightarrow> \<exists>p. parent (h ! a) = Some p
              \<and> (p = 0 \<or> (p \<in> N \<and> (left (h ! p) = Some a \<or> right (h ! p) = Some a)))"
  shows "a \<in> N \<Longrightarrow> b \<in> N \<Longrightarrow> a \<noteq> b \<Longrightarrow> py_eq n h (Some a) (Some b) = Inr True \<Longrightarrow>
           left (h ! a) = left (h ! b) \<and> right (h ! a) = right (h ! b)
         \<and> parent (h ! a) = parent (h ! b) \<and> color (h ! a) = color (h ! b)"
proof (induction n arbitrary: a b)
  case 0
  then show ?case by simp
next
  case (Suc n)
  have nil_l: "py_eq n h (Some 0) (Some d) \<noteq> Inr True" if "d \<in> N" for d
  proof (cases n)
    case 0
    then show ?thesis by simp
  next
    case (Suc m)
    from L [OF that] have "left (h ! d) \<noteq> None" by auto
    then show ?thesis using py_eq_nil_left [OF nil0] Suc by simp
  qed
  have nil_r: "py_eq n h (Some d) (Some 0) \<noteq> Inr True" if "d \<in> N" for d
  proof (cases n)
    case 0
    then show ?thesis by simp
  next
    case (Suc m)
    from L [OF that] have "left (h ! d) \<noteq> None" by auto
    then show ?thesis using py_eq_nil_right [OF nil0] Suc by simp
  qed
  from Suc.prems(4) have T:
    "left (h ! a) = left (h ! b) \<or> py_eq n h (left (h ! a)) (left (h ! b)) = Inr True"
    "right (h ! a) = right (h ! b) \<or> py_eq n h (right (h ! a)) (right (h ! b)) = Inr True"
    "parent (h ! a) = parent (h ! b) \<or> py_eq n h (parent (h ! a)) (parent (h ! b)) = Inr True"
    "color (h ! a) = color (h ! b)"
    unfolding py_eq_Suc_True by blast+
  have l: "left (h ! a) = left (h ! b)"
  proof (rule ccontr)
    assume ne: "left (h ! a) \<noteq> left (h ! b)"
    from L [OF Suc.prems(1)] obtain la where la:
      "left (h ! a) = Some la" "la = 0 \<or> (la \<in> N \<and> parent (h ! la) = Some a)" by blast
    from L [OF Suc.prems(2)] obtain lb where lb:
      "left (h ! b) = Some lb" "lb = 0 \<or> (lb \<in> N \<and> parent (h ! lb) = Some b)" by blast
    from ne T(1) la lb have t: "py_eq n h (Some la) (Some lb) = Inr True" "la \<noteq> lb" by auto
    show False
    proof (cases "la = 0 \<or> lb = 0")
      case True
      with t la lb nil_l nil_r show False by auto
    next
      case False
      with la lb have "la \<in> N" "lb \<in> N" "parent (h ! la) = Some a" "parent (h ! lb) = Some b"
        by auto
      with Suc.IH [OF _ _ t(2) t(1)] Suc.prems(3) show False by auto
    qed
  qed
  have r: "right (h ! a) = right (h ! b)"
  proof (rule ccontr)
    assume ne: "right (h ! a) \<noteq> right (h ! b)"
    from R [OF Suc.prems(1)] obtain ra where ra:
      "right (h ! a) = Some ra" "ra = 0 \<or> (ra \<in> N \<and> parent (h ! ra) = Some a)" by blast
    from R [OF Suc.prems(2)] obtain rb where rb:
      "right (h ! b) = Some rb" "rb = 0 \<or> (rb \<in> N \<and> parent (h ! rb) = Some b)" by blast
    from ne T(2) ra rb have t: "py_eq n h (Some ra) (Some rb) = Inr True" "ra \<noteq> rb" by auto
    show False
    proof (cases "ra = 0 \<or> rb = 0")
      case True
      with t ra rb nil_l nil_r show False by auto
    next
      case False
      with ra rb have "ra \<in> N" "rb \<in> N" "parent (h ! ra) = Some a" "parent (h ! rb) = Some b"
        by auto
      with Suc.IH [OF _ _ t(2) t(1)] Suc.prems(3) show False by auto
    qed
  qed
  have p: "parent (h ! a) = parent (h ! b)"
  proof (rule ccontr)
    assume ne: "parent (h ! a) \<noteq> parent (h ! b)"
    from P [OF Suc.prems(1)] obtain pa where pa: "parent (h ! a) = Some pa"
      "pa = 0 \<or> (pa \<in> N \<and> (left (h ! pa) = Some a \<or> right (h ! pa) = Some a))" by blast
    from P [OF Suc.prems(2)] obtain pb where pb: "parent (h ! b) = Some pb"
      "pb = 0 \<or> (pb \<in> N \<and> (left (h ! pb) = Some b \<or> right (h ! pb) = Some b))" by blast
    from ne T(3) pa pb have t: "py_eq n h (Some pa) (Some pb) = Inr True" "pa \<noteq> pb" by auto
    show False
    proof (cases "pa = 0 \<or> pb = 0")
      case True
      with t pa pb nil_l nil_r show False by auto
    next
      case False
      with pa pb have in_N: "pa \<in> N" "pb \<in> N"
        and ch: "left (h ! pa) = Some a \<or> right (h ! pa) = Some a" by auto
      from Suc.IH [OF in_N t(2) t(1)]
      have same: "left (h ! pa) = left (h ! pb)" "right (h ! pa) = right (h ! pb)" by auto
      have "a \<noteq> 0"
      proof
        assume "a = 0"
        with Suc.prems(1) N0 show False by simp
      qed
      from ch show False
      proof
        assume "left (h ! pa) = Some a"
        with same have "left (h ! pb) = Some a" by simp
        with L [OF in_N(2)] \<open>a \<noteq> 0\<close> have "parent (h ! a) = Some pb" by auto
        with pa t(2) show False by simp
      next
        assume "right (h ! pa) = Some a"
        with same have "right (h ! pb) = Some a" by simp
        with R [OF in_N(2)] \<open>a \<noteq> 0\<close> have "parent (h ! a) = Some pb" by auto
        with pa t(2) show False by simp
      qed
    qed
  qed
  from l r p T(4) show ?case by blast
qed

section \<open>The rotations on the store\<close>

lemma heap_ok_update:
  "heap_ok h \<Longrightarrow> 0 < a \<Longrightarrow> left v \<noteq> None \<Longrightarrow> heap_ok (h[a := v])"
  by (cases "a < length h") (auto simp: heap_ok_def nth_list_update)

lemma heap_okD:
  "heap_ok h \<Longrightarrow> 0 < length h"
  "heap_ok h \<Longrightarrow> h ! 0 = nil_node"
  "heap_ok h \<Longrightarrow> 0 < a \<Longrightarrow> a < length h \<Longrightarrow> left (h ! a) \<noteq> None"
  by (auto simp: heap_ok_def)

lemma heap_ok_nil_fields:
  assumes "heap_ok h"
  shows "color (h ! 0) = BLACK" "left (h ! 0) = None" "right (h ! 0) = None" "parent (h ! 0) = None"
  using assms by (simp_all add: heap_ok_def nil_node_def)

lemma update_max_end_node:
  assumes H: "heap_ok h" and a: "0 < a" "a < length h"
    and l: "left (h ! a) = Some l" "l < length h" "l \<noteq> a"
    and r: "right (h ! a) = Some r" "r < length h" "r \<noteq> a"
  shows "update_max_end h (Some a) =
           Inr (h[a := (h ! a)\<lparr>max_end :=
                  max3 (end' (h ! a)) (if l = 0 then None else Some (max_end (h ! l)))
                                     (if r = 0 then None else Some (max_end (h ! r)))\<rparr>])"
proof -
  let ?h1 = "h[a := (h ! a)\<lparr>max_end := end' (h ! a)\<rparr>]"
  have H1: "heap_ok ?h1"
    using H a l by (intro heap_ok_update) auto
  have e0: "eq h (Some a) nil = Inr False"
    using eq_nil [OF H a(2)] a(1) by simp
  have n1: "ne ?h1 (Some l) nil = Inr (l \<noteq> 0)"
    using ne_nil [OF H1, of l] l by simp
  let ?h2 = "if l \<noteq> 0 then ?h1[a := (?h1 ! a)\<lparr>max_end := max (max_end (?h1 ! a)) (max_end (?h1 ! l))\<rparr>] else ?h1"
  have H2: "heap_ok ?h2"
    using H1 H a l by (auto intro!: heap_ok_update)
  have n2: "ne ?h2 (Some r) nil = Inr (r \<noteq> 0)"
    using ne_nil [OF H2, of r] r by simp
  show ?thesis
    unfolding update_max_end_def
    using a l r e0 n1 n2
    by (auto simp: Let_def max3_def)
qed


lemma upd_keep:
  assumes "\<And>i. f (h ! i) = f0 i" "a < length h \<Longrightarrow> f v = f0 a"
  shows "f (h[a := v] ! i) = f0 i"
  using assms by (cases "a < length h"; cases "i = a") (auto simp: list_update_beyond)

lemma left_rotate_heap:
  fixes t :: IntervalTree
  assumes H: "heap_ok h" and nt: "nodes t = h"
    and x: "0 < x" "x < length h" and y: "0 < y" "y < length h" "x \<noteq> y"
    and xr: "right (h ! x) = Some y"
    and xl: "left (h ! x) = Some a" "a < length h" "a \<noteq> x" "a \<noteq> y"
    and yl: "left (h ! y) = Some b" "b < length h" "b \<noteq> x" "b \<noteq> y"
    and yr: "right (h ! y) = Some c" "c < length h" "c \<noteq> x" "c \<noteq> y"
    and xp: "parent (h ! x) = Some g" "g < length h" "g \<noteq> x" "g \<noteq> y" "0 < g \<Longrightarrow> g \<noteq> b"
  defines "mx \<equiv> max3 (end' (h ! x)) (if a = 0 then None else Some (max_end (h ! a)))
                       (if b = 0 then None else Some (max_end (h ! b)))"
  defines "my \<equiv> max3 (end' (h ! y)) (Some mx) (if c = 0 then None else Some (max_end (h ! c)))"
  shows "\<exists>h3. length h3 = length h
           \<and> h3 ! x = (h ! x)\<lparr>right := Some b\<rparr>
           \<and> h3 ! y = (h ! y)\<lparr>parent := Some g\<rparr>
           \<and> (0 < b \<longrightarrow> h3 ! b = (h ! b)\<lparr>parent := Some x\<rparr>)
           \<and> (\<forall>i. i \<noteq> x \<and> i \<noteq> y \<and> (i \<noteq> b \<or> b = 0) \<longrightarrow> h3 ! i = h ! i)
           \<and> (case (if g = 0 then Inr True else eq h3 (Some x) (left (h ! g))) of
                 Inl e \<Rightarrow> left_rotate t (Some x) = Inl e
               | Inr il \<Rightarrow>
                 (\<exists>h'. left_rotate t (Some x) = Inr (t\<lparr>nodes := h', root := (if g = 0 then Some y else root t)\<rparr>)
                   \<and> length h' = length h \<and> heap_ok h'
                   \<and> h' ! x = (h ! x)\<lparr>right := Some b, parent := Some y, max_end := mx\<rparr>
                   \<and> h' ! y = (h ! y)\<lparr>parent := Some g, left := Some x, max_end := my\<rparr>
                   \<and> (0 < b \<longrightarrow> h' ! b = (h ! b)\<lparr>parent := Some x\<rparr>)
                   \<and> (0 < g \<longrightarrow> h' ! g = (if il then (h ! g)\<lparr>left := Some y\<rparr> else (h ! g)\<lparr>right := Some y\<rparr>))
                   \<and> (\<forall>i. i \<noteq> x \<and> i \<noteq> y \<and> (i \<noteq> b \<or> b = 0) \<and> (i \<noteq> g \<or> g = 0) \<longrightarrow> h' ! i = h ! i)))"
proof -
  define h1 where "h1 = h[x := (h ! x)\<lparr>right := Some b\<rparr>]"
  define h2 where "h2 = (if b \<noteq> 0 then h1[b := (h1 ! b)\<lparr>parent := Some x\<rparr>] else h1)"
  define h3 where "h3 = h2[y := (h2 ! y)\<lparr>parent := parent (h2 ! x)\<rparr>]"
  have H1: "heap_ok h1" unfolding h1_def using H x xl by (intro heap_ok_update) auto
  have l1: "length h1 = length h" by (simp add: h1_def)
  have y1: "h1 ! y = h ! y" and b1: "h1 ! b = h ! b" and x1: "h1 ! x = (h ! x)\<lparr>right := Some b\<rparr>"
    using x y yl by (simp_all add: h1_def)
  have nb: "ne h1 (Some b) nil = Inr (b \<noteq> 0)"
    using ne_nil [OF H1, of b] yl l1 by simp
  have H2: "heap_ok h2"
    unfolding h2_def using H1 heap_okD(3) [OF H, of b] yl b1 by (auto intro!: heap_ok_update)
  have l2: "length h2 = length h" by (simp add: h2_def l1)
  have x2: "h2 ! x = (h ! x)\<lparr>right := Some b\<rparr>" and y2: "h2 ! y = h ! y"
    using yl x1 y1 by (simp_all add: h2_def)
  have H3: "heap_ok h3"
    unfolding h3_def using H2 heap_okD(3) [OF H, of y] y y2 by (auto intro!: heap_ok_update)
  have l3: "length h3 = length h" by (simp add: h3_def l2)
  have x3: "h3 ! x = (h ! x)\<lparr>right := Some b\<rparr>"
    and y3: "h3 ! y = (h ! y)\<lparr>parent := Some g\<rparr>"
    using x y x2 y2 xp l2 by (simp_all add: h3_def)
  have b3: "h3 ! b = (h ! b)\<lparr>parent := Some x\<rparr>" if "0 < b"
    using that yl l1 b1 by (simp add: h3_def h2_def)
  have o3: "h3 ! i = h ! i" if "i \<noteq> x" "i \<noteq> y" "i \<noteq> b \<or> b = 0" for i
    using that by (auto simp: h3_def h2_def h1_def)
  have g3: "h3 ! g = h ! g" using o3 [of g] xp by auto
  have rt: "eq h3 (Some g) nil = Inr (g = 0)"
    using eq_nil [OF H3, of g] xp l3 by simp
  have r1: "ne h1 (left (h1 ! y)) nil = Inr (b \<noteq> 0)"
    using nb y1 yl by simp
  have r2: "(if b \<noteq> 0 then (case left (h1 ! y) of None \<Rightarrow> Inl AttributeError
                           | Some la \<Rightarrow> Inr (h1[la := (h1 ! la)\<lparr>parent := Some x\<rparr>]))
             else Inr h1) = Inr h2"
    using y1 yl by (simp add: h2_def)
  have r3: "(case parent (h3 ! x) of None \<Rightarrow> Inr True | Some pa \<Rightarrow> eq h3 (parent (h3 ! x)) nil) = Inr (g = 0)"
    using x3 xp rt by simp
  have d3: "length h3 = length h
           \<and> h3 ! x = (h ! x)\<lparr>right := Some b\<rparr>
           \<and> h3 ! y = (h ! y)\<lparr>parent := Some g\<rparr>
           \<and> (0 < b \<longrightarrow> h3 ! b = (h ! b)\<lparr>parent := Some x\<rparr>)
           \<and> (\<forall>i. i \<noteq> x \<and> i \<noteq> y \<and> (i \<noteq> b \<or> b = 0) \<longrightarrow> h3 ! i = h ! i)"
    using l3 x3 y3 b3 o3 by blast
  show ?thesis
  proof (cases "if g = 0 then Inr True else eq h3 (Some x) (left (h ! g))")
    case (Inl e)
    then have g0: "0 < g" and ce: "eq h3 (Some x) (left (h ! g)) = Inl e"
      by (auto split: if_splits)
    have r4: "(if g = 0 then Inr (t\<lparr>nodes := h3, root := Some y\<rparr>)
             else (case parent (h3 ! x) of None \<Rightarrow> Inl AttributeError
                   | Some pa \<Rightarrow>
                     bind (eq h3 (Some x) (left (h3 ! pa))) (\<lambda>is_left.
                       if is_left
                       then Inr (t\<lparr>nodes := h3[pa := (h3 ! pa)\<lparr>left := Some y\<rparr>]\<rparr>)
                       else Inr (t\<lparr>nodes := h3[pa := (h3 ! pa)\<lparr>right := Some y\<rparr>]\<rparr>))))
            = Inl e"
      using x3 xp g3 g0 ce by simp
    have run: "left_rotate t (Some x) = Inl e"
      unfolding left_rotate_def
      apply (simp only: option.case nt xr Let_def)
      apply (simp only: yl(1))
      apply (simp only: h1_def [symmetric])
      apply (simp only: r1 bind_simps r2)
      apply (simp only: h3_def [symmetric])
      apply (simp only: r3 bind_simps r4)
      done
    from d3 run Inl show ?thesis
      by (intro exI [of _ h3]) simp
  next
    case (Inr il)
    then have c3: "eq h3 (Some x) (left (h ! g)) = Inr il" if "0 < g"
      using that by simp
    define h4 where "h4 = (if g = 0 then h3 else if il then h3[g := (h3 ! g)\<lparr>left := Some y\<rparr>]
                           else h3[g := (h3 ! g)\<lparr>right := Some y\<rparr>])"
    define h5 where "h5 = h4[y := (h4 ! y)\<lparr>left := Some x\<rparr>]"
    define h6 where "h6 = h5[x := (h5 ! x)\<lparr>parent := Some y\<rparr>]"
    have l6: "length h6 = length h" by (simp add: h6_def h5_def h4_def l3)
    have H4: "heap_ok h4"
      unfolding h4_def using H3 heap_okD(3) [OF H, of g] xp g3 by (auto intro!: heap_ok_update)
    have x4: "h4 ! x = (h ! x)\<lparr>right := Some b\<rparr>" and y4: "h4 ! y = (h ! y)\<lparr>parent := Some g\<rparr>"
      using xp x3 y3 by (auto simp: h4_def)
    have H5: "heap_ok h5" unfolding h5_def using H4 y y4 heap_okD(3) [OF H, of y]
      by (intro heap_ok_update) auto
    have x5: "h5 ! x = (h ! x)\<lparr>right := Some b\<rparr>" using x4 y by (simp add: h5_def)
    have H6: "heap_ok h6" unfolding h6_def using H5 x x5 xl by (intro heap_ok_update) auto
    have x6: "h6 ! x = (h ! x)\<lparr>right := Some b, parent := Some y\<rparr>"
      using x x5 l3 by (simp add: h6_def h5_def h4_def)
    have y6: "h6 ! y = (h ! y)\<lparr>parent := Some g, left := Some x\<rparr>"
      using y y4 l3 by (simp add: h6_def h5_def h4_def)
    have o6: "h6 ! i = h4 ! i" if "i \<noteq> x" "i \<noteq> y" for i
      using that by (simp add: h6_def h5_def)
    have m1: "max_end (h1 ! i) = max_end (h ! i)" for i
      unfolding h1_def by (rule upd_keep [where f = max_end]) auto
    have m2: "max_end (h2 ! i) = max_end (h ! i)" for i
    proof (cases "b \<noteq> 0")
      case True
      have "max_end (h1[b := (h1 ! b)\<lparr>parent := Some x\<rparr>] ! i) = max_end (h ! i)"
        by (rule upd_keep [where f = max_end]) (auto simp: m1)
      with True show ?thesis by (simp add: h2_def)
    next
      case False
      then show ?thesis by (simp add: h2_def m1)
    qed
    have m3: "max_end (h3 ! i) = max_end (h ! i)" for i
      unfolding h3_def by (rule upd_keep [where f = max_end]) (auto simp: m2)
    have m4: "max_end (h4 ! i) = max_end (h ! i)" for i
    proof -
      have "max_end (h3[g := (h3 ! g)\<lparr>left := Some y\<rparr>] ! i) = max_end (h ! i)"
        by (rule upd_keep [where f = max_end]) (auto simp: m3)
      moreover have "max_end (h3[g := (h3 ! g)\<lparr>right := Some y\<rparr>] ! i) = max_end (h ! i)"
        by (rule upd_keep [where f = max_end]) (auto simp: m3)
      ultimately show ?thesis by (simp add: h4_def m3)
    qed
    have m5: "max_end (h5 ! i) = max_end (h ! i)" for i
      unfolding h5_def by (rule upd_keep [where f = max_end]) (auto simp: m4)
    have m6: "max_end (h6 ! i) = max_end (h ! i)" for i
      unfolding h6_def by (rule upd_keep [where f = max_end]) (auto simp: m5)
    define h7 where "h7 = h6[x := (h6 ! x)\<lparr>max_end := mx\<rparr>]"
    have u7: "update_max_end h6 (Some x) = Inr h7"
      using update_max_end_node [OF H6 x(1), of a b] x xl yl l6 x6 m6
      by (auto simp: h7_def mx_def)
    have H7: "heap_ok h7" unfolding h7_def using H6 x x6 xl by (intro heap_ok_update) auto
    have y7: "h7 ! y = (h ! y)\<lparr>parent := Some g, left := Some x\<rparr>"
      and x7: "h7 ! x = (h ! x)\<lparr>right := Some b, parent := Some y, max_end := mx\<rparr>"
      using y y6 x x6 l6 by (simp_all add: h7_def)
    have c7: "max_end (h7 ! c) = max_end (h ! c)"
      using m6 yr by (simp add: h7_def)
    define h8 where "h8 = h7[y := (h7 ! y)\<lparr>max_end := my\<rparr>]"
    have l7: "length h7 = length h" by (simp add: h7_def l6)
    have u8: "update_max_end h7 (Some y) = Inr h8"
      using update_max_end_node [OF H7 y(1), of x c] x y yr l7 y7 x7 c7
      by (auto simp: h8_def my_def)
    have H8: "heap_ok h8" unfolding h8_def using H7 y y7 heap_okD(3) [OF H, of y]
      by (intro heap_ok_update) auto
    have r4: "(if g = 0 then Inr (t\<lparr>nodes := h3, root := Some y\<rparr>)
               else (case parent (h3 ! x) of None \<Rightarrow> Inl AttributeError
                     | Some pa \<Rightarrow>
                       bind (eq h3 (Some x) (left (h3 ! pa))) (\<lambda>is_left.
                         if is_left
                         then Inr (t\<lparr>nodes := h3[pa := (h3 ! pa)\<lparr>left := Some y\<rparr>]\<rparr>)
                         else Inr (t\<lparr>nodes := h3[pa := (h3 ! pa)\<lparr>right := Some y\<rparr>]\<rparr>))))
              = Inr (t\<lparr>nodes := h4, root := (if g = 0 then Some y else root t)\<rparr>)"
      using x3 xp g3 c3 by (auto simp: h4_def)
    have run: "left_rotate t (Some x) = Inr (t\<lparr>nodes := h8, root := (if g = 0 then Some y else root t)\<rparr>)"
      unfolding left_rotate_def
      apply (simp only: option.case nt xr Let_def)
      apply (simp only: yl(1))
      apply (simp only: h1_def [symmetric])
      apply (simp only: r1 bind_simps r2)
      apply (simp only: h3_def [symmetric])
      apply (simp only: r3 bind_simps r4)
      apply (simp add: h5_def [symmetric] h6_def [symmetric] u7 u8)
      done
    have o8: "h8 ! i = h4 ! i" if "i \<noteq> x" "i \<noteq> y" for i
      using that o6 [of i] by (simp add: h8_def h7_def)
    have x8: "h8 ! x = (h ! x)\<lparr>right := Some b, parent := Some y, max_end := mx\<rparr>"
      using x7 y by (simp add: h8_def)
    have y8: "h8 ! y = (h ! y)\<lparr>parent := Some g, left := Some x, max_end := my\<rparr>"
      using y7 y l7 by (simp add: h8_def)
    have b8: "h8 ! b = (h ! b)\<lparr>parent := Some x\<rparr>" if "0 < b"
      using that o8 [of b] yl xp b3 by (auto simp: h4_def)
    have g8: "h8 ! g = (if il then (h ! g)\<lparr>left := Some y\<rparr> else (h ! g)\<lparr>right := Some y\<rparr>)" if "0 < g"
      using that o8 [of g] xp g3 l3 by (auto simp: h4_def)
    have r8: "h8 ! i = h ! i" if "i \<noteq> x" "i \<noteq> y" "i \<noteq> b \<or> b = 0" "i \<noteq> g \<or> g = 0" for i
      using that o8 [of i] o3 [of i] by (auto simp: h4_def)
    have l8: "length h8 = length h" by (simp add: h8_def l7)
    from run l8 H8 x8 y8 b8 g8 r8
    have "\<exists>h'. left_rotate t (Some x) = Inr (t\<lparr>nodes := h', root := (if g = 0 then Some y else root t)\<rparr>)
           \<and> length h' = length h \<and> heap_ok h'
           \<and> h' ! x = (h ! x)\<lparr>right := Some b, parent := Some y, max_end := mx\<rparr>
           \<and> h' ! y = (h ! y)\<lparr>parent := Some g, left := Some x, max_end := my\<rparr>
           \<and> (0 < b \<longrightarrow> h' ! b = (h ! b)\<lparr>parent := Some x\<rparr>)
           \<and> (0 < g \<longrightarrow> h' ! g = (if il then (h ! g)\<lparr>left := Some y\<rparr> else (h ! g)\<lparr>right := Some y\<rparr>))
           \<and> (\<forall>i. i \<noteq> x \<and> i \<noteq> y \<and> (i \<noteq> b \<or> b = 0) \<and> (i \<noteq> g \<or> g = 0) \<longrightarrow> h' ! i = h ! i)"
      by blast
    with d3 Inr show ?thesis
      by (intro exI [of _ h3]) simp
  qed
qed

lemma right_rotate_heap:
  fixes t :: IntervalTree
  assumes H: "heap_ok h" and nt: "nodes t = h"
    and y: "0 < y" "y < length h" and x: "0 < x" "x < length h" "y \<noteq> x"
    and yr: "left (h ! y) = Some x"
    and yl: "right (h ! y) = Some c" "c < length h" "c \<noteq> y" "c \<noteq> x"
    and xl: "right (h ! x) = Some b" "b < length h" "b \<noteq> y" "b \<noteq> x"
    and xr: "left (h ! x) = Some a" "a < length h" "a \<noteq> y" "a \<noteq> x"
    and yp: "parent (h ! y) = Some g" "g < length h" "g \<noteq> y" "g \<noteq> x" "0 < g \<Longrightarrow> g \<noteq> b"
  defines "my \<equiv> max3 (end' (h ! y)) (if b = 0 then None else Some (max_end (h ! b)))
                       (if c = 0 then None else Some (max_end (h ! c)))"
  defines "mx \<equiv> max3 (end' (h ! x)) (if a = 0 then None else Some (max_end (h ! a))) (Some my)"
  shows "\<exists>h3. length h3 = length h
           \<and> h3 ! y = (h ! y)\<lparr>left := Some b\<rparr>
           \<and> h3 ! x = (h ! x)\<lparr>parent := Some g\<rparr>
           \<and> (0 < b \<longrightarrow> h3 ! b = (h ! b)\<lparr>parent := Some y\<rparr>)
           \<and> (\<forall>i. i \<noteq> y \<and> i \<noteq> x \<and> (i \<noteq> b \<or> b = 0) \<longrightarrow> h3 ! i = h ! i)
           \<and> (case (if g = 0 then Inr True else eq h3 (Some y) (right (h ! g))) of
                 Inl e \<Rightarrow> right_rotate t (Some y) = Inl e
               | Inr ir \<Rightarrow>
                 (\<exists>h'. right_rotate t (Some y) = Inr (t\<lparr>nodes := h', root := (if g = 0 then Some x else root t)\<rparr>)
                   \<and> length h' = length h \<and> heap_ok h'
                   \<and> h' ! y = (h ! y)\<lparr>left := Some b, parent := Some x, max_end := my\<rparr>
                   \<and> h' ! x = (h ! x)\<lparr>parent := Some g, right := Some y, max_end := mx\<rparr>
                   \<and> (0 < b \<longrightarrow> h' ! b = (h ! b)\<lparr>parent := Some y\<rparr>)
                   \<and> (0 < g \<longrightarrow> h' ! g = (if ir then (h ! g)\<lparr>right := Some x\<rparr> else (h ! g)\<lparr>left := Some x\<rparr>))
                   \<and> (\<forall>i. i \<noteq> y \<and> i \<noteq> x \<and> (i \<noteq> b \<or> b = 0) \<and> (i \<noteq> g \<or> g = 0) \<longrightarrow> h' ! i = h ! i)))"
proof -
  define h1 where "h1 = h[y := (h ! y)\<lparr>left := Some b\<rparr>]"
  define h2 where "h2 = (if b \<noteq> 0 then h1[b := (h1 ! b)\<lparr>parent := Some y\<rparr>] else h1)"
  define h3 where "h3 = h2[x := (h2 ! x)\<lparr>parent := parent (h2 ! y)\<rparr>]"
  have H1: "heap_ok h1" unfolding h1_def using H y yl by (intro heap_ok_update) auto
  have l1: "length h1 = length h" by (simp add: h1_def)
  have y1: "h1 ! x = h ! x" and b1: "h1 ! b = h ! b" and x1: "h1 ! y = (h ! y)\<lparr>left := Some b\<rparr>"
    using y x xl by (simp_all add: h1_def)
  have nb: "ne h1 (Some b) nil = Inr (b \<noteq> 0)"
    using ne_nil [OF H1, of b] xl l1 by simp
  have H2: "heap_ok h2"
    unfolding h2_def using H1 heap_okD(3) [OF H, of b] xl b1 by (auto intro!: heap_ok_update)
  have l2: "length h2 = length h" by (simp add: h2_def l1)
  have x2: "h2 ! y = (h ! y)\<lparr>left := Some b\<rparr>" and y2: "h2 ! x = h ! x"
    using xl x1 y1 by (simp_all add: h2_def)
  have H3: "heap_ok h3"
    unfolding h3_def using H2 heap_okD(3) [OF H, of x] x y2 by (auto intro!: heap_ok_update)
  have l3: "length h3 = length h" by (simp add: h3_def l2)
  have x3: "h3 ! y = (h ! y)\<lparr>left := Some b\<rparr>"
    and y3: "h3 ! x = (h ! x)\<lparr>parent := Some g\<rparr>"
    using y x x2 y2 yp l2 by (simp_all add: h3_def)
  have b3: "h3 ! b = (h ! b)\<lparr>parent := Some y\<rparr>" if "0 < b"
    using that xl l1 b1 by (simp add: h3_def h2_def)
  have o3: "h3 ! i = h ! i" if "i \<noteq> y" "i \<noteq> x" "i \<noteq> b \<or> b = 0" for i
    using that by (auto simp: h3_def h2_def h1_def)
  have g3: "h3 ! g = h ! g" using o3 [of g] yp by auto
  have rt: "eq h3 (Some g) nil = Inr (g = 0)"
    using eq_nil [OF H3, of g] yp l3 by simp
  have r1: "ne h1 (right (h1 ! x)) nil = Inr (b \<noteq> 0)"
    using nb y1 xl by simp
  have r2: "(if b \<noteq> 0 then (case right (h1 ! x) of None \<Rightarrow> Inl AttributeError
                           | Some la \<Rightarrow> Inr (h1[la := (h1 ! la)\<lparr>parent := Some y\<rparr>]))
             else Inr h1) = Inr h2"
    using y1 xl by (simp add: h2_def)
  have r3: "(case parent (h3 ! y) of None \<Rightarrow> Inr True | Some pa \<Rightarrow> eq h3 (parent (h3 ! y)) nil) = Inr (g = 0)"
    using x3 yp rt by simp
  have d3: "length h3 = length h
           \<and> h3 ! y = (h ! y)\<lparr>left := Some b\<rparr>
           \<and> h3 ! x = (h ! x)\<lparr>parent := Some g\<rparr>
           \<and> (0 < b \<longrightarrow> h3 ! b = (h ! b)\<lparr>parent := Some y\<rparr>)
           \<and> (\<forall>i. i \<noteq> y \<and> i \<noteq> x \<and> (i \<noteq> b \<or> b = 0) \<longrightarrow> h3 ! i = h ! i)"
    using l3 x3 y3 b3 o3 by blast
  show ?thesis
  proof (cases "if g = 0 then Inr True else eq h3 (Some y) (right (h ! g))")
    case (Inl e)
    then have g0: "0 < g" and ce: "eq h3 (Some y) (right (h ! g)) = Inl e"
      by (auto split: if_splits)
    have r4: "(if g = 0 then Inr (t\<lparr>nodes := h3, root := Some x\<rparr>)
             else (case parent (h3 ! y) of None \<Rightarrow> Inl AttributeError
                   | Some pa \<Rightarrow>
                     bind (eq h3 (Some y) (right (h3 ! pa))) (\<lambda>is_right.
                       if is_right
                       then Inr (t\<lparr>nodes := h3[pa := (h3 ! pa)\<lparr>right := Some x\<rparr>]\<rparr>)
                       else Inr (t\<lparr>nodes := h3[pa := (h3 ! pa)\<lparr>left := Some x\<rparr>]\<rparr>))))
            = Inl e"
      using x3 yp g3 g0 ce by simp
    have run: "right_rotate t (Some y) = Inl e"
      unfolding right_rotate_def
      apply (simp only: option.case nt yr Let_def)
      apply (simp only: xl(1))
      apply (simp only: h1_def [symmetric])
      apply (simp only: r1 bind_simps r2)
      apply (simp only: h3_def [symmetric])
      apply (simp only: r3 bind_simps r4)
      done
    from d3 run Inl show ?thesis
      by (intro exI [of _ h3]) simp
  next
    case (Inr ir)
    then have c3: "eq h3 (Some y) (right (h ! g)) = Inr ir" if "0 < g"
      using that by simp
    define h4 where "h4 = (if g = 0 then h3 else if ir then h3[g := (h3 ! g)\<lparr>right := Some x\<rparr>]
                           else h3[g := (h3 ! g)\<lparr>left := Some x\<rparr>])"
    define h5 where "h5 = h4[x := (h4 ! x)\<lparr>right := Some y\<rparr>]"
    define h6 where "h6 = h5[y := (h5 ! y)\<lparr>parent := Some x\<rparr>]"
    have l6: "length h6 = length h" by (simp add: h6_def h5_def h4_def l3)
    have H4: "heap_ok h4"
      unfolding h4_def using H3 heap_okD(3) [OF H, of g] yp g3 by (auto intro!: heap_ok_update)
    have x4: "h4 ! y = (h ! y)\<lparr>left := Some b\<rparr>" and y4: "h4 ! x = (h ! x)\<lparr>parent := Some g\<rparr>"
      using yp x3 y3 by (auto simp: h4_def)
    have H5: "heap_ok h5" unfolding h5_def using H4 x y4 heap_okD(3) [OF H, of x]
      by (intro heap_ok_update) auto
    have x5: "h5 ! y = (h ! y)\<lparr>left := Some b\<rparr>" using x4 x by (simp add: h5_def)
    have H6: "heap_ok h6" unfolding h6_def using H5 y x5 yl by (intro heap_ok_update) auto
    have x6: "h6 ! y = (h ! y)\<lparr>left := Some b, parent := Some x\<rparr>"
      using y x5 l3 by (simp add: h6_def h5_def h4_def)
    have y6: "h6 ! x = (h ! x)\<lparr>parent := Some g, right := Some y\<rparr>"
      using x y4 l3 by (simp add: h6_def h5_def h4_def)
    have o6: "h6 ! i = h4 ! i" if "i \<noteq> y" "i \<noteq> x" for i
      using that by (simp add: h6_def h5_def)
    have m1: "max_end (h1 ! i) = max_end (h ! i)" for i
      unfolding h1_def by (rule upd_keep [where f = max_end]) auto
    have m2: "max_end (h2 ! i) = max_end (h ! i)" for i
    proof (cases "b \<noteq> 0")
      case True
      have "max_end (h1[b := (h1 ! b)\<lparr>parent := Some y\<rparr>] ! i) = max_end (h ! i)"
        by (rule upd_keep [where f = max_end]) (auto simp: m1)
      with True show ?thesis by (simp add: h2_def)
    next
      case False
      then show ?thesis by (simp add: h2_def m1)
    qed
    have m3: "max_end (h3 ! i) = max_end (h ! i)" for i
      unfolding h3_def by (rule upd_keep [where f = max_end]) (auto simp: m2)
    have m4: "max_end (h4 ! i) = max_end (h ! i)" for i
    proof -
      have "max_end (h3[g := (h3 ! g)\<lparr>right := Some x\<rparr>] ! i) = max_end (h ! i)"
        by (rule upd_keep [where f = max_end]) (auto simp: m3)
      moreover have "max_end (h3[g := (h3 ! g)\<lparr>left := Some x\<rparr>] ! i) = max_end (h ! i)"
        by (rule upd_keep [where f = max_end]) (auto simp: m3)
      ultimately show ?thesis by (simp add: h4_def m3)
    qed
    have m5: "max_end (h5 ! i) = max_end (h ! i)" for i
      unfolding h5_def by (rule upd_keep [where f = max_end]) (auto simp: m4)
    have m6: "max_end (h6 ! i) = max_end (h ! i)" for i
      unfolding h6_def by (rule upd_keep [where f = max_end]) (auto simp: m5)
    define h7 where "h7 = h6[y := (h6 ! y)\<lparr>max_end := my\<rparr>]"
    have u7: "update_max_end h6 (Some y) = Inr h7"
      using update_max_end_node [OF H6 y(1), of b c] y yl xl l6 x6 m6
      by (auto simp: h7_def my_def)
    have H7: "heap_ok h7" unfolding h7_def using H6 y x6 yl by (intro heap_ok_update) auto
    have y7: "h7 ! x = (h ! x)\<lparr>parent := Some g, right := Some y\<rparr>"
      and x7: "h7 ! y = (h ! y)\<lparr>left := Some b, parent := Some x, max_end := my\<rparr>"
      using x y6 y x6 l6 by (simp_all add: h7_def)
    have c7: "max_end (h7 ! a) = max_end (h ! a)"
      using m6 xr by (simp add: h7_def)
    define h8 where "h8 = h7[x := (h7 ! x)\<lparr>max_end := mx\<rparr>]"
    have l7: "length h7 = length h" by (simp add: h7_def l6)
    have u8: "update_max_end h7 (Some x) = Inr h8"
      using update_max_end_node [OF H7 x(1), of a y] y x xr l7 y7 x7 c7
      by (auto simp: h8_def mx_def)
    have H8: "heap_ok h8" unfolding h8_def using H7 x y7 heap_okD(3) [OF H, of x]
      by (intro heap_ok_update) auto
    have r4: "(if g = 0 then Inr (t\<lparr>nodes := h3, root := Some x\<rparr>)
               else (case parent (h3 ! y) of None \<Rightarrow> Inl AttributeError
                     | Some pa \<Rightarrow>
                       bind (eq h3 (Some y) (right (h3 ! pa))) (\<lambda>is_right.
                         if is_right
                         then Inr (t\<lparr>nodes := h3[pa := (h3 ! pa)\<lparr>right := Some x\<rparr>]\<rparr>)
                         else Inr (t\<lparr>nodes := h3[pa := (h3 ! pa)\<lparr>left := Some x\<rparr>]\<rparr>))))
              = Inr (t\<lparr>nodes := h4, root := (if g = 0 then Some x else root t)\<rparr>)"
      using x3 yp g3 c3 by (auto simp: h4_def)
    have run: "right_rotate t (Some y) = Inr (t\<lparr>nodes := h8, root := (if g = 0 then Some x else root t)\<rparr>)"
      unfolding right_rotate_def
      apply (simp only: option.case nt yr Let_def)
      apply (simp only: xl(1))
      apply (simp only: h1_def [symmetric])
      apply (simp only: r1 bind_simps r2)
      apply (simp only: h3_def [symmetric])
      apply (simp only: r3 bind_simps r4)
      apply (simp add: h5_def [symmetric] h6_def [symmetric] u7 u8)
      done
    have o8: "h8 ! i = h4 ! i" if "i \<noteq> y" "i \<noteq> x" for i
      using that o6 [of i] by (simp add: h8_def h7_def)
    have x8: "h8 ! y = (h ! y)\<lparr>left := Some b, parent := Some x, max_end := my\<rparr>"
      using x7 x by (simp add: h8_def)
    have y8: "h8 ! x = (h ! x)\<lparr>parent := Some g, right := Some y, max_end := mx\<rparr>"
      using y7 x l7 by (simp add: h8_def)
    have b8: "h8 ! b = (h ! b)\<lparr>parent := Some y\<rparr>" if "0 < b"
      using that o8 [of b] xl yp b3 by (auto simp: h4_def)
    have g8: "h8 ! g = (if ir then (h ! g)\<lparr>right := Some x\<rparr> else (h ! g)\<lparr>left := Some x\<rparr>)" if "0 < g"
      using that o8 [of g] yp g3 l3 by (auto simp: h4_def)
    have r8: "h8 ! i = h ! i" if "i \<noteq> y" "i \<noteq> x" "i \<noteq> b \<or> b = 0" "i \<noteq> g \<or> g = 0" for i
      using that o8 [of i] o3 [of i] by (auto simp: h4_def)
    have l8: "length h8 = length h" by (simp add: h8_def l7)
    from run l8 H8 x8 y8 b8 g8 r8
    have "\<exists>h'. right_rotate t (Some y) = Inr (t\<lparr>nodes := h', root := (if g = 0 then Some x else root t)\<rparr>)
           \<and> length h' = length h \<and> heap_ok h'
           \<and> h' ! y = (h ! y)\<lparr>left := Some b, parent := Some x, max_end := my\<rparr>
           \<and> h' ! x = (h ! x)\<lparr>parent := Some g, right := Some y, max_end := mx\<rparr>
           \<and> (0 < b \<longrightarrow> h' ! b = (h ! b)\<lparr>parent := Some y\<rparr>)
           \<and> (0 < g \<longrightarrow> h' ! g = (if ir then (h ! g)\<lparr>right := Some x\<rparr> else (h ! g)\<lparr>left := Some x\<rparr>))
           \<and> (\<forall>i. i \<noteq> y \<and> i \<noteq> x \<and> (i \<noteq> b \<or> b = 0) \<and> (i \<noteq> g \<or> g = 0) \<longrightarrow> h' ! i = h ! i)"
      by blast
    with d3 Inr show ?thesis
      by (intro exI [of _ h3]) simp
  qed
qed


section \<open>Shapes and positions\<close>

lemma ref_of_raddr: "ref_of t = Some (raddr t)"
  by (cases t) simp_all

lemma par_paddr: "par c = Some (paddr c)"
  by (cases c) auto

lemma inorder_plug: "inorder (plug c t) = before c @ inorder t @ after c"
  by (induction c t rule: plug.induct) simp_all

lemma set_tree_plug: "set_tree (plug c t) = set (before c) \<union> set_tree t \<union> set (after c)"
  by (induction c t rule: plug.induct) auto

lemma ref_of_plug: "ref_of (plug c t) = top c (ref_of t)"
  by (induction c t rule: plug.induct) simp_all

lemma top_nonempty: "c \<noteq> [] \<Longrightarrow> top c r = top c r'"
  by (cases c) auto

lemma sub_ok_plug:
  "sub_ok h (Some 0) (plug c t) \<longleftrightarrow> sub_ok h (par c) t \<and> ctx_ok h c (ref_of t)"
  by (induction c t rule: plug.induct) auto

lemma sub_ok_cong:
  assumes "length h' = length h"
    and "\<And>a. a \<in> set_tree t \<Longrightarrow>
           left (h' ! a) = left (h ! a) \<and> right (h' ! a) = right (h ! a) \<and> parent (h' ! a) = parent (h ! a)"
  shows "sub_ok h' p t = sub_ok h p t"
  using assms(2)
proof (induction t arbitrary: p)
  case Leaf
  then show ?case by simp
next
  case (Node l a r)
  have 1: "sub_ok h' (Some a) l = sub_ok h (Some a) l"
    by (rule Node.IH(1)) (use Node.prems in auto)
  have 2: "sub_ok h' (Some a) r = sub_ok h (Some a) r"
    by (rule Node.IH(2)) (use Node.prems in auto)
  from Node.prems [of a] have 3:
    "left (h' ! a) = left (h ! a)" "right (h' ! a) = right (h ! a)" "parent (h' ! a) = parent (h ! a)"
    by auto
  show ?case by (simp add: 1 2 3 assms(1))
qed

lemma ctx_ok_cong:
  assumes "length h' = length h"
    and "\<And>a. a \<in> set (before c) \<union> set (after c) \<Longrightarrow>
           left (h' ! a) = left (h ! a) \<and> right (h' ! a) = right (h ! a) \<and> parent (h' ! a) = parent (h ! a)"
  shows "ctx_ok h' c r = ctx_ok h c r"
  using assms(2)
proof (induction c arbitrary: r)
  case Nil
  then show ?case by simp
next
  case (Cons f c)
  obtain d g s where f: "f = (d, g, s)" by (cases f)
  have s: "sub_ok h' (Some g) s = sub_ok h (Some g) s"
    by (rule sub_ok_cong [OF assms(1)]) (use Cons.prems f in \<open>cases d; auto\<close>)
  have c: "ctx_ok h' c (Some g) = ctx_ok h c (Some g)"
    by (rule Cons.IH) (use Cons.prems f in \<open>cases d; auto\<close>)
  have g: "left (h' ! g) = left (h ! g) \<and> right (h' ! g) = right (h ! g) \<and> parent (h' ! g) = parent (h ! g)"
    using Cons.prems [of g] f by (cases d) auto
  show ?case using s c g f by (cases d) (auto simp: assms(1))
qed

lemma sub_ok_raddr:
  "sub_ok h p t \<Longrightarrow> t \<noteq> Leaf \<Longrightarrow> 0 < raddr t \<and> raddr t < length h \<and> raddr t \<in> set_tree t \<and> parent (h ! raddr t) = p"
  by (cases t) auto

lemma raddr_0: "sub_ok h p t \<Longrightarrow> (raddr t = 0) = (t = Leaf)"
  by (cases t) auto

lemma raddr_in: "t \<noteq> Leaf \<Longrightarrow> raddr t \<in> set_tree t"
  by (cases t) auto

lemma raddr_less: "sub_ok h p t \<Longrightarrow> 0 < length h \<Longrightarrow> raddr t < length h"
  by (cases t) auto

lemma sub_ok_pos: "sub_ok h p t \<Longrightarrow> a \<in> set_tree t \<Longrightarrow> 0 < a \<and> a < length h"
  by (induction t arbitrary: p) auto

lemma rme_raddr:
  "sub_ok h p t \<Longrightarrow> (if raddr t = 0 then None else Some (max_end (h ! raddr t))) = rme (mef h) t"
  by (cases t) (auto simp: mef_def)

text \<open>The links of a well-formed shape, as the lemma on \<open>==\<close> needs them.\<close>

lemma sub_ok_left:
  "sub_ok h p t \<Longrightarrow> a \<in> set_tree t \<Longrightarrow>
     \<exists>l. left (h ! a) = Some l \<and> (l = 0 \<or> (l \<in> set_tree t \<and> parent (h ! l) = Some a))"
proof (induction t arbitrary: p)
  case Leaf
  then show ?case by simp
next
  case (Node l b r)
  show ?case
  proof (cases "a = b")
    case True
    with Node.prems show ?thesis by (cases l) auto
  next
    case False
    with Node show ?thesis by fastforce
  qed
qed

lemma sub_ok_right:
  "sub_ok h p t \<Longrightarrow> a \<in> set_tree t \<Longrightarrow>
     \<exists>r. right (h ! a) = Some r \<and> (r = 0 \<or> (r \<in> set_tree t \<and> parent (h ! r) = Some a))"
proof (induction t arbitrary: p)
  case Leaf
  then show ?case by simp
next
  case (Node l b r)
  show ?case
  proof (cases "a = b")
    case True
    with Node.prems show ?thesis by (cases r) auto
  next
    case False
    with Node show ?thesis by fastforce
  qed
qed

lemma sub_ok_parent:
  "sub_ok h p t \<Longrightarrow> distinct (inorder t) \<Longrightarrow> a \<in> set_tree t \<Longrightarrow>
     (a = raddr t \<and> parent (h ! a) = p)
   \<or> (\<exists>q \<in> set_tree t. parent (h ! a) = Some q \<and> (left (h ! q) = Some a \<or> right (h ! q) = Some a))"
proof (induction t arbitrary: p)
  case Leaf
  then show ?case by simp
next
  case (Node l b r)
  show ?case
  proof (cases "a = b")
    case True
    with Node.prems show ?thesis by auto
  next
    case False
    with Node.prems have "a \<in> set_tree l \<or> a \<in> set_tree r" by auto
    then show ?thesis
    proof
      assume a: "a \<in> set_tree l"
      from Node.IH(1) [of "Some b"] Node.prems a
      have "(a = raddr l \<and> parent (h ! a) = Some b)
          \<or> (\<exists>q \<in> set_tree l. parent (h ! a) = Some q \<and> (left (h ! q) = Some a \<or> right (h ! q) = Some a))"
        by auto
      then show ?thesis
      proof
        assume "a = raddr l \<and> parent (h ! a) = Some b"
        moreover from a have "l \<noteq> Leaf" by auto
        then have "ref_of l = Some (raddr l)" by (simp add: ref_of_raddr)
        ultimately show ?thesis using Node.prems by auto
      next
        assume "\<exists>q \<in> set_tree l. parent (h ! a) = Some q \<and> (left (h ! q) = Some a \<or> right (h ! q) = Some a)"
        then show ?thesis by auto
      qed
    next
      assume a: "a \<in> set_tree r"
      from Node.IH(2) [of "Some b"] Node.prems a
      have "(a = raddr r \<and> parent (h ! a) = Some b)
          \<or> (\<exists>q \<in> set_tree r. parent (h ! a) = Some q \<and> (left (h ! q) = Some a \<or> right (h ! q) = Some a))"
        by auto
      then show ?thesis
      proof
        assume "a = raddr r \<and> parent (h ! a) = Some b"
        moreover from a have "r \<noteq> Leaf" by auto
        then have "ref_of r = Some (raddr r)" by (simp add: ref_of_raddr)
        ultimately show ?thesis using Node.prems by auto
      next
        assume "\<exists>q \<in> set_tree r. parent (h ! a) = Some q \<and> (left (h ! q) = Some a \<or> right (h ! q) = Some a)"
        then show ?thesis by auto
      qed
    qed
  qed
qed

text \<open>In a well-formed tree, \<open>==\<close> on two different nodes that returns \<open>True\<close> has
  compared two nodes with the same children, parent and colour.\<close>

lemma eq_True_twin:
  assumes H: "heap_ok h" and S: "sub_ok h (Some 0) T" and D: "distinct (inorder T)"
    and a: "a \<in> set_tree T" and b: "b \<in> set_tree T" and ab: "a \<noteq> b"
    and e: "py_eq n h (Some a) (Some b) = Inr True"
  shows "left (h ! a) = left (h ! b) \<and> right (h ! a) = right (h ! b)
       \<and> parent (h ! a) = parent (h ! b) \<and> color (h ! a) = color (h ! b)"
proof (rule py_eq_True_twin [where N = "set_tree T", OF _ _ _ _ _ a b ab e])
  show "h ! 0 = nil_node" using H by (simp add: heap_ok_def)
  show "0 \<notin> set_tree T" using sub_ok_pos [OF S, of 0] by auto
  show "\<exists>l. left (h ! a) = Some l \<and> (l = 0 \<or> l \<in> set_tree T \<and> parent (h ! l) = Some a)"
    if "a \<in> set_tree T" for a using sub_ok_left [OF S that] .
  show "\<exists>r. right (h ! a) = Some r \<and> (r = 0 \<or> r \<in> set_tree T \<and> parent (h ! r) = Some a)"
    if "a \<in> set_tree T" for a using sub_ok_right [OF S that] .
  show "\<exists>p. parent (h ! a) = Some p
          \<and> (p = 0 \<or> p \<in> set_tree T \<and> (left (h ! p) = Some a \<or> right (h ! p) = Some a))"
    if "a \<in> set_tree T" for a using sub_ok_parent [OF S D that] by auto
qed

section \<open>Comparing a node with a child of its parent\<close>


lemma heap_ok_same_left:
  assumes "heap_ok h" "length h' = length h" "h' ! 0 = h ! 0"
    and "\<And>i. left (h' ! i) = left (h ! i)"
  shows "heap_ok h'"
  using assms by (simp add: heap_ok_def)

lemma heap_ok_left_Some:
  assumes "heap_ok h" "length h' = length h" "h' ! 0 = h ! 0"
    and "\<And>i. 0 < i \<Longrightarrow> i < length h \<Longrightarrow> IntervalNode.left (h' ! i) \<noteq> None"
  shows "heap_ok h'"
  using assms by (simp add: heap_ok_def)

lemma eq_cases:
  "eq h a b = Inr True \<or> eq h a b = Inr False \<or> eq h a b = Inl RecursionError"
proof (cases "eq h a b")
  case (Inl e)
  then show ?thesis using py_eq_error [of recursion_limit h a b e] by (simp add: eq_def)
next
  case (Inr v)
  then show ?thesis by (cases v) auto
qed

lemma eq_pay_diff: "pay h a \<noteq> pay h b \<Longrightarrow> eq h (Some a) (Some b) = Inr False"
  unfolding eq_def recursion_limit_Suc by (rule py_eq_pay_diff)

lemma ref_of_eq_disjoint:
  assumes "ref_of t = ref_of s" "set_tree t \<inter> set_tree s = {}" "sub_ok h p t" "sub_ok h q s"
  shows "t = Leaf \<and> s = Leaf"
proof (cases t)
  case Leaf
  with assms show ?thesis by (cases s) auto
next
  case (Node l a r)
  with assms show ?thesis by (cases s) auto
qed

text \<open>The comparison of a node with the left child of its parent.\<close>

lemma cmp_left_child:
  assumes H: "heap_ok h"
    and S: "sub_ok h (Some g) (Node ul x ur)"
    and C: "ctx_ok h ((d, g, s) # c) (Some x)"
    and D: "distinct (before ((d, g, s) # c) @ inorder (Node ul x ur) @ after ((d, g, s) # c))"
  shows "eq h (Some x) (left (h ! g)) = Inr (d = Lft)
       \<or> (eq h (Some x) (left (h ! g)) = Inl RecursionError \<and> d = Rgt \<and> s \<noteq> Leaf
            \<and> pay h (raddr s) = pay h x)
       \<or> (eq h (Some x) (left (h ! g)) = Inr True \<and> d = Rgt \<and> ul = Leaf \<and> ur = Leaf
            \<and> (\<exists>w. s = Node Leaf w Leaf \<and> colf h w = colf h x))"
proof (cases d)
  case Lft
  with C have "left (h ! g) = Some x" by simp
  with Lft show ?thesis by simp
next
  case Rgt
  with C have lg: "left (h ! g) = ref_of s" and Ss: "sub_ok h (Some g) s" by simp_all
  show ?thesis
  proof (cases s)
    case Leaf
    from S have "x < length h" by simp
    from eq_nil [OF H this] S have "eq h (Some x) nil = Inr False" by simp
    with lg Leaf Rgt show ?thesis by (simp add: nil_def)
  next
    case (Node sl w sr)
    let ?T = "plug ((d, g, s) # c) (Node ul x ur)"
    have ST: "sub_ok h (Some 0) ?T"
      using S C by (simp add: sub_ok_plug del: plug.simps ctx_ok.simps)
    have DT: "distinct (inorder ?T)"
      using D by (simp add: inorder_plug del: plug.simps before.simps after.simps)
    have xT: "x \<in> set_tree ?T" and wT: "w \<in> set_tree ?T"
      using Node Rgt by (simp_all add: set_tree_plug)
    have xw: "x \<noteq> w" and dj: "set_tree (Node ul x ur) \<inter> set_tree s = {}"
      using D Node Rgt by auto
    have lw: "left (h ! g) = Some w" using lg Node by simp
    from eq_cases [of h "Some x" "Some w"] show ?thesis
    proof (elim disjE)
      assume e: "eq h (Some x) (Some w) = Inr True"
      then have "py_eq recursion_limit h (Some x) (Some w) = Inr True" by (simp add: eq_def)
      from eq_True_twin [OF H ST DT xT wT xw this]
      have tw: "left (h ! x) = left (h ! w)" "right (h ! x) = right (h ! w)"
        "color (h ! x) = color (h ! w)" by auto
      from Ss Node have w: "left (h ! w) = ref_of sl" "right (h ! w) = ref_of sr"
        "sub_ok h (Some w) sl" "sub_ok h (Some w) sr" by simp_all
      from S have x: "left (h ! x) = ref_of ul" "right (h ! x) = ref_of ur"
        "sub_ok h (Some x) ul" "sub_ok h (Some x) ur" by simp_all
      have "ul = Leaf \<and> sl = Leaf"
        by (rule ref_of_eq_disjoint [OF _ _ x(3) w(3)]) (use tw w x dj Node in auto)
      moreover have "ur = Leaf \<and> sr = Leaf"
        by (rule ref_of_eq_disjoint [OF _ _ x(4) w(4)]) (use tw w x dj Node in auto)
      ultimately show ?thesis using e lw Rgt Node tw by (simp add: colf_def)
    next
      assume "eq h (Some x) (Some w) = Inr False"
      with lw Rgt show ?thesis by simp
    next
      assume e: "eq h (Some x) (Some w) = Inl RecursionError"
      have "pay h w = pay h x"
      proof (rule ccontr)
        assume "pay h w \<noteq> pay h x"
        then have "pay h x \<noteq> pay h w" by simp
        from eq_pay_diff [OF this] e show False by simp
      qed
      with e lw Rgt Node show ?thesis by simp
    qed
  qed
qed

text \<open>The comparison of a node with the right child of its parent.\<close>

lemma cmp_right_child:
  assumes H: "heap_ok h"
    and S: "sub_ok h (Some g) (Node ul x ur)"
    and C: "ctx_ok h ((d, g, s) # c) (Some x)"
    and D: "distinct (before ((d, g, s) # c) @ inorder (Node ul x ur) @ after ((d, g, s) # c))"
  shows "eq h (Some x) (right (h ! g)) = Inr (d = Rgt)
       \<or> (eq h (Some x) (right (h ! g)) = Inl RecursionError \<and> d = Lft \<and> s \<noteq> Leaf
            \<and> pay h (raddr s) = pay h x)
       \<or> (eq h (Some x) (right (h ! g)) = Inr True \<and> d = Lft \<and> ul = Leaf \<and> ur = Leaf
            \<and> (\<exists>w. s = Node Leaf w Leaf \<and> colf h w = colf h x))"
proof (cases d)
  case Rgt
  with C have "right (h ! g) = Some x" by simp
  with Rgt show ?thesis by simp
next
  case Lft
  with C have lg: "right (h ! g) = ref_of s" and Ss: "sub_ok h (Some g) s" by simp_all
  show ?thesis
  proof (cases s)
    case Leaf
    from S have "x < length h" by simp
    from eq_nil [OF H this] S have "eq h (Some x) nil = Inr False" by simp
    with lg Leaf Lft show ?thesis by (simp add: nil_def)
  next
    case (Node sl w sr)
    let ?T = "plug ((d, g, s) # c) (Node ul x ur)"
    have ST: "sub_ok h (Some 0) ?T"
      using S C by (simp add: sub_ok_plug del: plug.simps ctx_ok.simps)
    have DT: "distinct (inorder ?T)"
      using D by (simp add: inorder_plug del: plug.simps before.simps after.simps)
    have xT: "x \<in> set_tree ?T" and wT: "w \<in> set_tree ?T"
      using Node Lft by (simp_all add: set_tree_plug)
    have xw: "x \<noteq> w" and dj: "set_tree (Node ul x ur) \<inter> set_tree s = {}"
      using D Node Lft by auto
    have lw: "right (h ! g) = Some w" using lg Node by simp
    from eq_cases [of h "Some x" "Some w"] show ?thesis
    proof (elim disjE)
      assume e: "eq h (Some x) (Some w) = Inr True"
      then have "py_eq recursion_limit h (Some x) (Some w) = Inr True" by (simp add: eq_def)
      from eq_True_twin [OF H ST DT xT wT xw this]
      have tw: "left (h ! x) = left (h ! w)" "right (h ! x) = right (h ! w)"
        "color (h ! x) = color (h ! w)" by auto
      from Ss Node have w: "left (h ! w) = ref_of sl" "right (h ! w) = ref_of sr"
        "sub_ok h (Some w) sl" "sub_ok h (Some w) sr" by simp_all
      from S have x: "left (h ! x) = ref_of ul" "right (h ! x) = ref_of ur"
        "sub_ok h (Some x) ul" "sub_ok h (Some x) ur" by simp_all
      have "ul = Leaf \<and> sl = Leaf"
        by (rule ref_of_eq_disjoint [OF _ _ x(3) w(3)]) (use tw w x dj Node in auto)
      moreover have "ur = Leaf \<and> sr = Leaf"
        by (rule ref_of_eq_disjoint [OF _ _ x(4) w(4)]) (use tw w x dj Node in auto)
      ultimately show ?thesis using e lw Lft Node tw by (simp add: colf_def)
    next
      assume "eq h (Some x) (Some w) = Inr False"
      with lw Lft show ?thesis by simp
    next
      assume e: "eq h (Some x) (Some w) = Inl RecursionError"
      have "pay h w = pay h x"
      proof (rule ccontr)
        assume "pay h w \<noteq> pay h x"
        then have "pay h x \<noteq> pay h w" by simp
        from eq_pay_diff [OF this] e show False by simp
      qed
      with e lw Lft Node show ?thesis by simp
    qed
  qed
qed



lemma sub_ok_same:
  assumes "length h' = length h" "\<And>a. a \<in> set_tree t \<Longrightarrow> h' ! a = h ! a"
  shows "sub_ok h' p t = sub_ok h p t"
  by (rule sub_ok_cong [OF assms(1)]) (simp add: assms(2))

lemma ctx_ok_same:
  assumes "length h' = length h" "\<And>a. a \<in> set (before c) \<union> set (after c) \<Longrightarrow> h' ! a = h ! a"
  shows "ctx_ok h' c r = ctx_ok h c r"
  by (rule ctx_ok_cong [OF assms(1)]) (simp add: assms(2))

lemma sub_ok_reparent:
  assumes "sub_ok h q t" "length h' = length h" "distinct (inorder t)"
    and "t \<noteq> Leaf \<Longrightarrow> h' ! raddr t = (h ! raddr t)\<lparr>parent := p\<rparr>"
    and "\<And>a. a \<in> set_tree t \<Longrightarrow> a \<noteq> raddr t \<Longrightarrow> h' ! a = h ! a"
  shows "sub_ok h' p t"
proof (cases t)
  case Leaf
  then show ?thesis by simp
next
  case (Node l a r)
  have l: "sub_ok h' (Some a) l = sub_ok h (Some a) l"
    by (rule sub_ok_same [OF assms(2)]) (use assms(3,5) Node in auto)
  have r: "sub_ok h' (Some a) r = sub_ok h (Some a) r"
    by (rule sub_ok_same [OF assms(2)]) (use assms(3,5) Node in auto)
  from assms(1,4) Node l r show ?thesis by (simp add: assms(2))
qed

lemma ctx_ok_paddr:
  "ctx_ok h c r \<Longrightarrow> c \<noteq> [] \<Longrightarrow>
     0 < paddr c \<and> paddr c < length h \<and> paddr c \<in> set (before c) \<union> set (after c)"
  by (induction h c r rule: ctx_ok.induct) auto

lemma ctx_ok_set_child:
  assumes "ctx_ok h c r" "length h' = length h" "distinct (before c @ after c)"
    and "\<And>d g s c'. c = (d, g, s) # c' \<Longrightarrow>
           h' ! g = (if d = Lft then (h ! g)\<lparr>left := r'\<rparr> else (h ! g)\<lparr>right := r'\<rparr>)"
    and "\<And>a. a \<in> set (before c) \<union> set (after c) \<Longrightarrow> a \<noteq> paddr c \<Longrightarrow> h' ! a = h ! a"
  shows "ctx_ok h' c r'"
proof (cases c)
  case Nil
  then show ?thesis by simp
next
  case (Cons f c')
  obtain d g s where f: "f = (d, g, s)" by (cases f)
  have s: "sub_ok h' (Some g) s = sub_ok h (Some g) s"
    by (rule sub_ok_same [OF assms(2)]) (use assms(3,5) Cons f in \<open>cases d; auto\<close>)
  have c: "ctx_ok h' c' (Some g) = ctx_ok h c' (Some g)"
    by (rule ctx_ok_same [OF assms(2)]) (use assms(3,5) Cons f in \<open>cases d; auto\<close>)
  from assms(4) [of d g s c'] Cons f
  have g: "h' ! g = (if d = Lft then (h ! g)\<lparr>left := r'\<rparr> else (h ! g)\<lparr>right := r'\<rparr>)" by simp
  from assms(1) Cons f s c g show ?thesis by (cases d) (auto simp: assms(2))
qed

section \<open>Rotations on a shape\<close>

lemma left_rotate_zip:
  fixes t :: IntervalTree
  assumes H: "heap_ok h" and nt: "nodes t = h"
    and S: "sub_ok h (par c) (Node al x (Node be y ga))"
    and C: "ctx_ok h c (Some x)"
    and D: "distinct (before c @ inorder (Node al x (Node be y ga)) @ after c)"
    and rt: "root t = top c (Some x)"
    and notwin: "\<And>d g w c'. c = (d, g, Node Leaf w Leaf) # c' \<Longrightarrow> al = Leaf \<Longrightarrow> be = Leaf
                   \<Longrightarrow> colf h w \<noteq> colf h x"
  shows "(left_rotate t (Some x) = Inl RecursionError
            \<and> dup h (set (before c @ inorder (Node al x (Node be y ga)) @ after c)))
       \<or> (\<exists>h'. left_rotate t (Some x) = Inr (t\<lparr>nodes := h', root := top c (Some y)\<rparr>)
            \<and> heap_ok h' \<and> length h' = length h
            \<and> sub_ok h' (par c) (Node (Node al x be) y ga) \<and> ctx_ok h' c (Some y)
            \<and> colf h' = colf h \<and> pay h' = pay h \<and> enf h' = enf h \<and> stf h' = stf h
            \<and> mef h' = (mef h)(x := max3 (enf h x) (rme (mef h) al) (rme (mef h) be),
                               y := max3 (enf h y)
                                      (Some (max3 (enf h x) (rme (mef h) al) (rme (mef h) be)))
                                      (rme (mef h) ga)))"
proof -
  define a where "a = raddr al"
  define b where "b = raddr be"
  define cc where "cc = raddr ga"
  define g where "g = paddr c"
  let ?A = "set (before c) \<union> set (after c)"
  from H have len: "0 < length h" by (simp add: heap_ok_def)
  from S have Sal: "sub_ok h (Some x) al" and Sbe: "sub_ok h (Some y) be"
    and Sga: "sub_ok h (Some y) ga" by simp_all
  from S have x: "0 < x" "x < length h" and y: "0 < y" "y < length h" by simp_all
  from D have xy: "x \<noteq> y" by auto
  from S have xr: "right (h ! x) = Some y" by simp
  from S have xl1: "left (h ! x) = Some a" and yl1: "left (h ! y) = Some b"
    and yr1: "right (h ! y) = Some cc"
    by (simp_all add: a_def b_def cc_def ref_of_raddr)
  from S have xp1: "parent (h ! x) = Some g" by (simp add: g_def par_paddr)
  have al: "a < length h" "a \<noteq> x" "a \<noteq> y" "al \<noteq> Leaf \<Longrightarrow> a \<in> set_tree al"
    using raddr_less [OF Sal len] raddr_in [of al] raddr_0 [OF Sal] D x y
    by (auto simp: a_def)
  have bl: "b < length h" "b \<noteq> x" "b \<noteq> y" "be \<noteq> Leaf \<Longrightarrow> b \<in> set_tree be"
    using raddr_less [OF Sbe len] raddr_in [of be] raddr_0 [OF Sbe] D x y
    by (auto simp: b_def)
  have cl: "cc < length h" "cc \<noteq> x" "cc \<noteq> y"
    using raddr_less [OF Sga len] raddr_in [of ga] raddr_0 [OF Sga] D x y
    by (auto simp: cc_def)
  have b0: "(b = 0) = (be = Leaf)" using raddr_0 [OF Sbe] by (simp add: b_def)
  have gl: "g < length h" "g \<noteq> x" "g \<noteq> y" "0 < g \<Longrightarrow> g \<noteq> b" "(g = 0) = (c = [])"
    "c \<noteq> [] \<Longrightarrow> g \<in> ?A"
    and g4: "0 < g \<longrightarrow> g \<noteq> b"
  proof -
    show "0 < g \<longrightarrow> g \<noteq> b" using ctx_ok_paddr [OF C] D bl(4) b0 by (cases c) (auto simp: g_def)
    show "(g = 0) = (c = [])" using ctx_ok_paddr [OF C] by (cases c) (auto simp: g_def)
    show "c \<noteq> [] \<Longrightarrow> g \<in> ?A" using ctx_ok_paddr [OF C] by (auto simp: g_def)
    show "g < length h" using ctx_ok_paddr [OF C] len by (cases c) (auto simp: g_def)
    show "g \<noteq> x" using ctx_ok_paddr [OF C] D x by (cases c) (auto simp: g_def)
    show "g \<noteq> y" using ctx_ok_paddr [OF C] D y by (cases c) (auto simp: g_def)
    show "0 < g \<Longrightarrow> g \<noteq> b" using ctx_ok_paddr [OF C] D bl(4) b0 by (cases c) (auto simp: g_def)
  qed
  have mx: "max3 (enf h x) (if a = 0 then None else Some (max_end (h ! a)))
              (if b = 0 then None else Some (max_end (h ! b)))
            = max3 (enf h x) (rme (mef h) al) (rme (mef h) be)"
    unfolding a_def b_def rme_raddr [OF Sal] rme_raddr [OF Sbe] ..
  have my: "(if cc = 0 then None else Some (max_end (h ! cc))) = rme (mef h) ga"
    unfolding cc_def rme_raddr [OF Sga] ..
  note L = left_rotate_heap [OF H nt x y xy xr xl1 al(1,2,3) yl1 bl(1,2,3) yr1 cl xp1 gl(1,2,3)]
  from L [unfolded atomize_imp, THEN mp, OF g4]
  obtain h3 where l3: "length h3 = length h"
    and x3: "h3 ! x = (h ! x)\<lparr>right := Some b\<rparr>"
    and y3: "h3 ! y = (h ! y)\<lparr>parent := Some g\<rparr>"
    and b3: "0 < b \<longrightarrow> h3 ! b = (h ! b)\<lparr>parent := Some x\<rparr>"
    and o3: "\<forall>i. i \<noteq> x \<and> i \<noteq> y \<and> (i \<noteq> b \<or> b = 0) \<longrightarrow> h3 ! i = h ! i"
    and R: "(case (if g = 0 then Inr True else eq h3 (Some x) (left (h ! g))) of
                 Inl e \<Rightarrow> left_rotate t (Some x) = Inl e
               | Inr il \<Rightarrow>
                 (\<exists>h'. left_rotate t (Some x) = Inr (t\<lparr>nodes := h', root := (if g = 0 then Some y else root t)\<rparr>)
                   \<and> length h' = length h \<and> heap_ok h'
                   \<and> h' ! x = (h ! x)\<lparr>right := Some b, parent := Some y,
                         max_end := max3 (enf h x) (rme (mef h) al) (rme (mef h) be)\<rparr>
                   \<and> h' ! y = (h ! y)\<lparr>parent := Some g, left := Some x,
                         max_end := max3 (enf h y) (Some (max3 (enf h x) (rme (mef h) al) (rme (mef h) be))) (rme (mef h) ga)\<rparr>
                   \<and> (0 < b \<longrightarrow> h' ! b = (h ! b)\<lparr>parent := Some x\<rparr>)
                   \<and> (0 < g \<longrightarrow> h' ! g = (if il then (h ! g)\<lparr>left := Some y\<rparr> else (h ! g)\<lparr>right := Some y\<rparr>))
                   \<and> (\<forall>i. i \<noteq> x \<and> i \<noteq> y \<and> (i \<noteq> b \<or> b = 0) \<and> (i \<noteq> g \<or> g = 0) \<longrightarrow> h' ! i = h ! i)))"
    unfolding mx my enf_def [symmetric] by blast
  have D1: "distinct (inorder al)" "distinct (inorder be)" "distinct (inorder ga)"
    "distinct (before c @ after c)"
    and D2: "x \<notin> set_tree al" "y \<notin> set_tree al" "x \<notin> set_tree be" "y \<notin> set_tree be"
      "x \<notin> set_tree ga" "y \<notin> set_tree ga" "x \<notin> ?A" "y \<notin> ?A"
      "set_tree al \<inter> set_tree be = {}" "set_tree ga \<inter> set_tree be = {}" "?A \<inter> set_tree be = {}"
      "set_tree al \<inter> ?A = {}" "set_tree ga \<inter> ?A = {}"
    using D by auto
  have bnot: "\<And>i. i \<in> set_tree al \<union> set_tree ga \<union> ?A \<Longrightarrow> i \<noteq> b \<or> b = 0"
    using bl(4) b0 D2 by blast
  have gnot: "\<And>i. i \<in> set_tree al \<union> set_tree be \<union> set_tree ga \<Longrightarrow> i \<noteq> g \<or> g = 0"
    using gl(5,6) D2 by blast
  have pos: "\<And>i. i \<in> set_tree al \<union> set_tree be \<union> set_tree ga \<Longrightarrow> 0 < i"
    using sub_ok_pos [OF Sal] sub_ok_pos [OF Sbe] sub_ok_pos [OF Sga] by blast
  have nxy: "\<And>i. i \<in> set_tree al \<union> set_tree be \<union> set_tree ga \<union> ?A \<Longrightarrow> i \<noteq> x \<and> i \<noteq> y"
    using D2 by blast
  have keep3: "h3 ! i = h ! i" if "i \<in> set_tree al \<union> set_tree ga \<union> ?A" for i
  proof -
    have "i \<noteq> x \<and> i \<noteq> y" using that nxy [of i] by blast
    moreover have "i \<noteq> b \<or> b = 0" using bnot [OF that] .
    ultimately show ?thesis using o3 by blast
  qed
  have z3: "h3 ! 0 = h ! 0" using o3 x y by auto
  have H3: "heap_ok h3"
  proof (rule heap_ok_left_Some [OF H l3 z3])
    fix i assume "0 < i" "i < length h"
    thus "IntervalNode.left (h3 ! i) \<noteq> None"
      using x3 y3 b3 o3 heap_okD(3) [OF H, of i]
      by (cases "i = x \<or> i = y \<or> (i = b \<and> 0 < b)") auto
  qed
  have pay3: "pay h3 = pay h"
  proof
    fix i show "pay h3 i = pay h i"
      using x3 y3 b3 o3 by (cases "i = x \<or> i = y \<or> (i = b \<and> 0 < b)") (auto simp: pay_def)
  qed
  have col3: "colf h3 = colf h"
  proof
    fix i show "colf h3 i = colf h i"
      using x3 y3 b3 o3 by (cases "i = x \<or> i = y \<or> (i = b \<and> 0 < b)") (auto simp: colf_def)
  qed
  have be3: "sub_ok h3 (Some x) be"
  proof (rule sub_ok_reparent [OF Sbe l3 D1(2)])
    assume "be \<noteq> Leaf" thus "h3 ! raddr be = (h ! raddr be)\<lparr>parent := Some x\<rparr>"
      using b3 b0 by (simp add: b_def)
  next
    fix i assume "i \<in> set_tree be" "i \<noteq> raddr be"
    thus "h3 ! i = h ! i" using o3 D2 by (auto simp: b_def)
  qed
  have al3: "sub_ok h3 (Some x) al"
    using Sal keep3 by (subst sub_ok_same [OF l3, where t = al]) auto
  have S3: "sub_ok h3 (Some g) (Node al x be)"
    using x al3 be3 x3 l3 xp1 xl1 S by (simp add: ref_of_raddr b_def a_def)
  have C3: "ctx_ok h3 c (Some x)"
    using C keep3 by (subst ctx_ok_same [OF l3, where c = c]) auto
  have D3: "distinct (before c @ inorder (Node al x be) @ after c)"
    using D by auto
  have lg3: "left (h3 ! g) = left (h ! g)"
    using x3 y3 b3 o3 gl by (cases "g = b \<and> 0 < b") auto
  have post: "?thesis"
    if R': "left_rotate t (Some x) = Inr (t\<lparr>nodes := h', root := top c (Some y)\<rparr>)"
      and l': "length h' = length h" and H': "heap_ok h'"
      and x': "h' ! x = (h ! x)\<lparr>right := Some b, parent := Some y,
                         max_end := max3 (enf h x) (rme (mef h) al) (rme (mef h) be)\<rparr>"
      and y': "h' ! y = (h ! y)\<lparr>parent := Some g, left := Some x,
                         max_end := max3 (enf h y) (Some (max3 (enf h x) (rme (mef h) al) (rme (mef h) be))) (rme (mef h) ga)\<rparr>"
      and b': "0 < b \<longrightarrow> h' ! b = (h ! b)\<lparr>parent := Some x\<rparr>"
      and g': "\<And>d g2 s c'. c = (d, g2, s) # c' \<Longrightarrow>
                 h' ! g = (if d = Lft then (h ! g)\<lparr>left := Some y\<rparr> else (h ! g)\<lparr>right := Some y\<rparr>)"
      and o': "\<forall>i. i \<noteq> x \<and> i \<noteq> y \<and> (i \<noteq> b \<or> b = 0) \<and> (i \<noteq> g \<or> g = 0) \<longrightarrow> h' ! i = h ! i"
    for h'
  proof -
    have gg: "0 < g \<Longrightarrow> h' ! g = (h ! g)\<lparr>left := Some y\<rparr> \<or> h' ! g = (h ! g)\<lparr>right := Some y\<rparr>"
      using g' gl(5) by (cases c) auto
    have cs: "\<And>i. i = x \<or> i = y \<or> (i = b \<and> 0 < b) \<or> (i = g \<and> 0 < g) \<or> h' ! i = h ! i"
      using o' by auto
    have keep: "h' ! i = h ! i" if "i \<in> set_tree al \<union> set_tree ga" for i
    proof -
      have "i \<noteq> x \<and> i \<noteq> y" using that nxy [of i] by blast
      moreover have "i \<noteq> b \<or> b = 0" using bnot [of i] that by blast
      moreover have "i \<noteq> g \<or> g = 0" using gnot [of i] that by blast
      ultimately show ?thesis using o' by blast
    qed
    have colf: "colf h' = colf h"
    proof
      fix i show "colf h' i = colf h i"
        using cs [of i] x' y' b' gg by (auto simp: colf_def)
    qed
    have payf: "pay h' = pay h"
    proof
      fix i show "pay h' i = pay h i"
        using cs [of i] x' y' b' gg by (auto simp: pay_def)
    qed
    have enff: "enf h' = enf h"
    proof
      fix i show "enf h' i = enf h i"
        using cs [of i] x' y' b' gg by (auto simp: enf_def)
    qed
    have stff: "stf h' = stf h"
    proof
      fix i show "stf h' i = stf h i"
        using cs [of i] x' y' b' gg by (auto simp: stf_def)
    qed
    have meff: "mef h' = (mef h)(x := max3 (enf h x) (rme (mef h) al) (rme (mef h) be),
                               y := max3 (enf h y)
                                      (Some (max3 (enf h x) (rme (mef h) al) (rme (mef h) be)))
                                      (rme (mef h) ga))"
    proof
      fix i show "mef h' i = ((mef h)(x := max3 (enf h x) (rme (mef h) al) (rme (mef h) be),
                               y := max3 (enf h y)
                                      (Some (max3 (enf h x) (rme (mef h) al) (rme (mef h) be)))
                                      (rme (mef h) ga))) i"
        using cs [of i] x' y' b' gg xy gl(2,3) bl(2,3) by (auto simp: mef_def)
    qed
    have be': "sub_ok h' (Some x) be"
    proof (rule sub_ok_reparent [OF Sbe l' D1(2)])
      assume "be \<noteq> Leaf" thus "h' ! raddr be = (h ! raddr be)\<lparr>parent := Some x\<rparr>"
        using b' b0 by (simp add: b_def)
    next
      fix i assume "i \<in> set_tree be" "i \<noteq> raddr be"
      thus "h' ! i = h ! i" using o' nxy [of i] gnot [of i] by (auto simp: b_def)
    qed
    have al': "sub_ok h' (Some x) al"
      using Sal keep by (subst sub_ok_same [OF l', where t = al]) auto
    have ga': "sub_ok h' (Some y) ga"
      using Sga keep by (subst sub_ok_same [OF l', where t = ga]) auto
    have S': "sub_ok h' (par c) (Node (Node al x be) y ga)"
      using x y al' be' ga' x' y' l' xl1 yr1 S by (simp add: ref_of_raddr b_def a_def g_def par_paddr)
    have C': "ctx_ok h' c (Some y)"
    proof (rule ctx_ok_set_child [OF C l' D1(4)], goal_cases)
      case (1 d g2 s c')
      thus ?case using g' [of d g2 s c'] by (cases d) (simp_all add: g_def)
    next
      case (2 i)
      thus ?case using o' nxy [of i] bnot [of i] by (auto simp: g_def)
    qed
    show ?thesis using R' H' l' S' C' colf payf enff stff meff by blast
  qed
  show ?thesis
  proof (cases c)
    case Nil
    hence g0: "g = 0" by (simp add: g_def)
    from R g0 Nil obtain h' where
      "left_rotate t (Some x) = Inr (t\<lparr>nodes := h', root := top c (Some y)\<rparr>)"
      "length h' = length h" "heap_ok h'"
      "h' ! x = (h ! x)\<lparr>right := Some b, parent := Some y,
                         max_end := max3 (enf h x) (rme (mef h) al) (rme (mef h) be)\<rparr>"
      "h' ! y = (h ! y)\<lparr>parent := Some g, left := Some x,
                         max_end := max3 (enf h y) (Some (max3 (enf h x) (rme (mef h) al) (rme (mef h) be))) (rme (mef h) ga)\<rparr>"
      "0 < b \<longrightarrow> h' ! b = (h ! b)\<lparr>parent := Some x\<rparr>"
      "\<forall>i. i \<noteq> x \<and> i \<noteq> y \<and> (i \<noteq> b \<or> b = 0) \<and> (i \<noteq> g \<or> g = 0) \<longrightarrow> h' ! i = h ! i"
      by auto
    thus ?thesis using Nil by (intro post [of h']) auto
  next
    case (Cons f c')
    obtain d g2 s where f: "f = (d, g2, s)" by (cases f)
    have cc: "c = (d, g, s) # c'" using Cons f by (simp add: g_def)
    have gpos: "0 < g" using gl(5) cc by auto
    have rt': "root t = top c (Some y)" using rt cc by simp
    from cmp_left_child [OF H3 S3 C3 [unfolded cc] D3 [unfolded cc]]
    consider (ok) "eq h3 (Some x) (left (h ! g)) = Inr (d = Lft)"
      | (rec) "eq h3 (Some x) (left (h ! g)) = Inl RecursionError" "d = Rgt" "s \<noteq> Leaf"
          "pay h3 (raddr s) = pay h3 x"
      | (twin) "d = Rgt" "al = Leaf" "be = Leaf" "\<exists>w. s = Node Leaf w Leaf \<and> colf h3 w = colf h3 x"
      unfolding lg3 by blast
    thus ?thesis
    proof cases
      case ok
      from R gpos ok rt' obtain h' where
        "left_rotate t (Some x) = Inr (t\<lparr>nodes := h', root := top c (Some y)\<rparr>)"
        "length h' = length h" "heap_ok h'"
        "h' ! x = (h ! x)\<lparr>right := Some b, parent := Some y,
                           max_end := max3 (enf h x) (rme (mef h) al) (rme (mef h) be)\<rparr>"
        "h' ! y = (h ! y)\<lparr>parent := Some g, left := Some x,
                           max_end := max3 (enf h y) (Some (max3 (enf h x) (rme (mef h) al) (rme (mef h) be))) (rme (mef h) ga)\<rparr>"
        "0 < b \<longrightarrow> h' ! b = (h ! b)\<lparr>parent := Some x\<rparr>"
        "h' ! g = (if d = Lft then (h ! g)\<lparr>left := Some y\<rparr> else (h ! g)\<lparr>right := Some y\<rparr>)"
        "\<forall>i. i \<noteq> x \<and> i \<noteq> y \<and> (i \<noteq> b \<or> b = 0) \<and> (i \<noteq> g \<or> g = 0) \<longrightarrow> h' ! i = h ! i"
        by auto
      thus ?thesis using cc by (intro post [of h']) auto
    next
      case rec
      from R gpos rec(1) have "left_rotate t (Some x) = Inl RecursionError" by simp
      moreover have "raddr s \<in> set (before c)" using raddr_in [OF rec(3)] cc rec(2) by simp
      moreover have "raddr s \<noteq> x" using calculation(2) D by auto
      ultimately show ?thesis using rec(4) unfolding pay3 dup_def
        by (intro disjI1 conjI) auto
    next
      case twin
      then obtain w where "s = Node Leaf w Leaf" "colf h w = colf h x" unfolding col3 by blast
      with notwin [of d g w c'] cc twin show ?thesis by simp
    qed
  qed
qed

lemma right_rotate_zip:
  fixes t :: IntervalTree
  assumes H: "heap_ok h" and nt: "nodes t = h"
    and S: "sub_ok h (par c) (Node (Node al x be) y ga)"
    and C: "ctx_ok h c (Some y)"
    and D: "distinct (before c @ inorder (Node (Node al x be) y ga) @ after c)"
    and rt: "root t = top c (Some y)"
    and notwin: "\<And>d g w c'. c = (d, g, Node Leaf w Leaf) # c' \<Longrightarrow> ga = Leaf \<Longrightarrow> be = Leaf
                   \<Longrightarrow> colf h w \<noteq> colf h y"
  shows "(right_rotate t (Some y) = Inl RecursionError
            \<and> dup h (set (before c @ inorder (Node (Node al x be) y ga) @ after c)))
       \<or> (\<exists>h'. right_rotate t (Some y) = Inr (t\<lparr>nodes := h', root := top c (Some x)\<rparr>)
            \<and> heap_ok h' \<and> length h' = length h
            \<and> sub_ok h' (par c) (Node al x (Node be y ga)) \<and> ctx_ok h' c (Some x)
            \<and> colf h' = colf h \<and> pay h' = pay h \<and> enf h' = enf h \<and> stf h' = stf h
            \<and> mef h' = (mef h)(y := max3 (enf h y) (rme (mef h) be) (rme (mef h) ga),
                               x := max3 (enf h x)
                                      (rme (mef h) al)
                                      (Some (max3 (enf h y) (rme (mef h) be) (rme (mef h) ga)))))"
proof -
  define cc where "cc = raddr ga"
  define b where "b = raddr be"
  define a where "a = raddr al"
  define g where "g = paddr c"
  let ?A = "set (after c) \<union> set (before c)"
  from H have len: "0 < length h" by (simp add: heap_ok_def)
  from S have Sal: "sub_ok h (Some y) ga" and Sbe: "sub_ok h (Some x) be"
    and Sga: "sub_ok h (Some x) al" by simp_all
  from S have y: "0 < y" "y < length h" and x: "0 < x" "x < length h" by simp_all
  from D have xy: "y \<noteq> x" by auto
  from S have xr: "left (h ! y) = Some x" by simp
  from S have xl1: "right (h ! y) = Some cc" and yl1: "right (h ! x) = Some b"
    and yr1: "left (h ! x) = Some a"
    by (simp_all add: cc_def b_def a_def ref_of_raddr)
  from S have xp1: "parent (h ! y) = Some g" by (simp add: g_def par_paddr)
  have ga: "cc < length h" "cc \<noteq> y" "cc \<noteq> x" "ga \<noteq> Leaf \<Longrightarrow> cc \<in> set_tree ga"
    using raddr_less [OF Sal len] raddr_in [of ga] raddr_0 [OF Sal] D y x
    by (auto simp: cc_def)
  have bl: "b < length h" "b \<noteq> y" "b \<noteq> x" "be \<noteq> Leaf \<Longrightarrow> b \<in> set_tree be"
    using raddr_less [OF Sbe len] raddr_in [of be] raddr_0 [OF Sbe] D y x
    by (auto simp: b_def)
  have cl: "a < length h" "a \<noteq> y" "a \<noteq> x"
    using raddr_less [OF Sga len] raddr_in [of al] raddr_0 [OF Sga] D y x
    by (auto simp: a_def)
  have b0: "(b = 0) = (be = Leaf)" using raddr_0 [OF Sbe] by (simp add: b_def)
  have gl: "g < length h" "g \<noteq> y" "g \<noteq> x" "0 < g \<Longrightarrow> g \<noteq> b" "(g = 0) = (c = [])"
    "c \<noteq> [] \<Longrightarrow> g \<in> ?A"
    and g4: "0 < g \<longrightarrow> g \<noteq> b"
  proof -
    show "0 < g \<longrightarrow> g \<noteq> b" using ctx_ok_paddr [OF C] D bl(4) b0 by (cases c) (auto simp: g_def)
    show "(g = 0) = (c = [])" using ctx_ok_paddr [OF C] by (cases c) (auto simp: g_def)
    show "c \<noteq> [] \<Longrightarrow> g \<in> ?A" using ctx_ok_paddr [OF C] by (auto simp: g_def)
    show "g < length h" using ctx_ok_paddr [OF C] len by (cases c) (auto simp: g_def)
    show "g \<noteq> y" using ctx_ok_paddr [OF C] D y by (cases c) (auto simp: g_def)
    show "g \<noteq> x" using ctx_ok_paddr [OF C] D x by (cases c) (auto simp: g_def)
    show "0 < g \<Longrightarrow> g \<noteq> b" using ctx_ok_paddr [OF C] D bl(4) b0 by (cases c) (auto simp: g_def)
  qed
  have mx: "max3 (enf h y) (if b = 0 then None else Some (max_end (h ! b)))
              (if cc = 0 then None else Some (max_end (h ! cc)))
            = max3 (enf h y) (rme (mef h) be) (rme (mef h) ga)"
    unfolding cc_def b_def rme_raddr [OF Sal] rme_raddr [OF Sbe] ..
  have my: "(if a = 0 then None else Some (max_end (h ! a))) = rme (mef h) al"
    unfolding a_def rme_raddr [OF Sga] ..
  note L = right_rotate_heap [OF H nt y x xy xr xl1 ga(1,2,3) yl1 bl(1,2,3) yr1 cl xp1 gl(1,2,3)]
  from L [unfolded atomize_imp, THEN mp, OF g4]
  obtain h3 where l3: "length h3 = length h"
    and x3: "h3 ! y = (h ! y)\<lparr>left := Some b\<rparr>"
    and y3: "h3 ! x = (h ! x)\<lparr>parent := Some g\<rparr>"
    and b3: "0 < b \<longrightarrow> h3 ! b = (h ! b)\<lparr>parent := Some y\<rparr>"
    and o3: "\<forall>i. i \<noteq> y \<and> i \<noteq> x \<and> (i \<noteq> b \<or> b = 0) \<longrightarrow> h3 ! i = h ! i"
    and R: "(case (if g = 0 then Inr True else eq h3 (Some y) (right (h ! g))) of
                 Inl e \<Rightarrow> right_rotate t (Some y) = Inl e
               | Inr il \<Rightarrow>
                 (\<exists>h'. right_rotate t (Some y) = Inr (t\<lparr>nodes := h', root := (if g = 0 then Some x else root t)\<rparr>)
                   \<and> length h' = length h \<and> heap_ok h'
                   \<and> h' ! y = (h ! y)\<lparr>left := Some b, parent := Some x,
                         max_end := max3 (enf h y) (rme (mef h) be) (rme (mef h) ga)\<rparr>
                   \<and> h' ! x = (h ! x)\<lparr>parent := Some g, right := Some y,
                         max_end := max3 (enf h x) (rme (mef h) al) (Some (max3 (enf h y) (rme (mef h) be) (rme (mef h) ga)))\<rparr>
                   \<and> (0 < b \<longrightarrow> h' ! b = (h ! b)\<lparr>parent := Some y\<rparr>)
                   \<and> (0 < g \<longrightarrow> h' ! g = (if il then (h ! g)\<lparr>right := Some x\<rparr> else (h ! g)\<lparr>left := Some x\<rparr>))
                   \<and> (\<forall>i. i \<noteq> y \<and> i \<noteq> x \<and> (i \<noteq> b \<or> b = 0) \<and> (i \<noteq> g \<or> g = 0) \<longrightarrow> h' ! i = h ! i)))"
    unfolding mx my enf_def [symmetric] by blast
  have D1: "distinct (inorder ga)" "distinct (inorder be)" "distinct (inorder al)"
    "distinct (before c @ after c)"
    and D2: "y \<notin> set_tree ga" "x \<notin> set_tree ga" "y \<notin> set_tree be" "x \<notin> set_tree be"
      "y \<notin> set_tree al" "x \<notin> set_tree al" "y \<notin> ?A" "x \<notin> ?A"
      "set_tree ga \<inter> set_tree be = {}" "set_tree al \<inter> set_tree be = {}" "?A \<inter> set_tree be = {}"
      "set_tree ga \<inter> ?A = {}" "set_tree al \<inter> ?A = {}"
    using D by auto
  have bnot: "\<And>i. i \<in> set_tree ga \<union> set_tree al \<union> ?A \<Longrightarrow> i \<noteq> b \<or> b = 0"
    using bl(4) b0 D2 by blast
  have gnot: "\<And>i. i \<in> set_tree ga \<union> set_tree be \<union> set_tree al \<Longrightarrow> i \<noteq> g \<or> g = 0"
    using gl(5,6) D2 by blast
  have pos: "\<And>i. i \<in> set_tree ga \<union> set_tree be \<union> set_tree al \<Longrightarrow> 0 < i"
    using sub_ok_pos [OF Sal] sub_ok_pos [OF Sbe] sub_ok_pos [OF Sga] by blast
  have nxy: "\<And>i. i \<in> set_tree ga \<union> set_tree be \<union> set_tree al \<union> ?A \<Longrightarrow> i \<noteq> y \<and> i \<noteq> x"
    using D2 by blast
  have keep3: "h3 ! i = h ! i" if "i \<in> set_tree ga \<union> set_tree al \<union> ?A" for i
  proof -
    have "i \<noteq> y \<and> i \<noteq> x" using that nxy [of i] by blast
    moreover have "i \<noteq> b \<or> b = 0" using bnot [OF that] .
    ultimately show ?thesis using o3 by blast
  qed
  have z3: "h3 ! 0 = h ! 0" using o3 y x by auto
  have H3: "heap_ok h3"
  proof (rule heap_ok_left_Some [OF H l3 z3])
    fix i assume "0 < i" "i < length h"
    thus "IntervalNode.left (h3 ! i) \<noteq> None"
      using x3 y3 b3 o3 heap_okD(3) [OF H, of i]
      by (cases "i = y \<or> i = x \<or> (i = b \<and> 0 < b)") auto
  qed
  have pay3: "pay h3 = pay h"
  proof
    fix i show "pay h3 i = pay h i"
      using x3 y3 b3 o3 by (cases "i = y \<or> i = x \<or> (i = b \<and> 0 < b)") (auto simp: pay_def)
  qed
  have col3: "colf h3 = colf h"
  proof
    fix i show "colf h3 i = colf h i"
      using x3 y3 b3 o3 by (cases "i = y \<or> i = x \<or> (i = b \<and> 0 < b)") (auto simp: colf_def)
  qed
  have be3: "sub_ok h3 (Some y) be"
  proof (rule sub_ok_reparent [OF Sbe l3 D1(2)])
    assume "be \<noteq> Leaf" thus "h3 ! raddr be = (h ! raddr be)\<lparr>parent := Some y\<rparr>"
      using b3 b0 by (simp add: b_def)
  next
    fix i assume "i \<in> set_tree be" "i \<noteq> raddr be"
    thus "h3 ! i = h ! i" using o3 D2 by (auto simp: b_def)
  qed
  have al3: "sub_ok h3 (Some y) ga"
    using Sal keep3 by (subst sub_ok_same [OF l3, where t = ga]) auto
  have S3: "sub_ok h3 (Some g) (Node be y ga)"
    using y al3 be3 x3 l3 xp1 xl1 S by (simp add: ref_of_raddr b_def cc_def)
  have C3: "ctx_ok h3 c (Some y)"
    using C keep3 by (subst ctx_ok_same [OF l3, where c = c]) auto
  have D3: "distinct (before c @ inorder (Node be y ga) @ after c)"
    using D by auto
  have lg3: "right (h3 ! g) = right (h ! g)"
    using x3 y3 b3 o3 gl by (cases "g = b \<and> 0 < b") auto
  have post: "?thesis"
    if R': "right_rotate t (Some y) = Inr (t\<lparr>nodes := h', root := top c (Some x)\<rparr>)"
      and l': "length h' = length h" and H': "heap_ok h'"
      and x': "h' ! y = (h ! y)\<lparr>left := Some b, parent := Some x,
                         max_end := max3 (enf h y) (rme (mef h) be) (rme (mef h) ga)\<rparr>"
      and y': "h' ! x = (h ! x)\<lparr>parent := Some g, right := Some y,
                         max_end := max3 (enf h x) (rme (mef h) al) (Some (max3 (enf h y) (rme (mef h) be) (rme (mef h) ga)))\<rparr>"
      and b': "0 < b \<longrightarrow> h' ! b = (h ! b)\<lparr>parent := Some y\<rparr>"
      and g': "\<And>d g2 s c'. c = (d, g2, s) # c' \<Longrightarrow>
                 h' ! g = (if d = Rgt then (h ! g)\<lparr>right := Some x\<rparr> else (h ! g)\<lparr>left := Some x\<rparr>)"
      and o': "\<forall>i. i \<noteq> y \<and> i \<noteq> x \<and> (i \<noteq> b \<or> b = 0) \<and> (i \<noteq> g \<or> g = 0) \<longrightarrow> h' ! i = h ! i"
    for h'
  proof -
    have gg: "0 < g \<Longrightarrow> h' ! g = (h ! g)\<lparr>right := Some x\<rparr> \<or> h' ! g = (h ! g)\<lparr>left := Some x\<rparr>"
      using g' gl(5) by (cases c) auto
    have cs: "\<And>i. i = y \<or> i = x \<or> (i = b \<and> 0 < b) \<or> (i = g \<and> 0 < g) \<or> h' ! i = h ! i"
      using o' by auto
    have keep: "h' ! i = h ! i" if "i \<in> set_tree ga \<union> set_tree al" for i
    proof -
      have "i \<noteq> y \<and> i \<noteq> x" using that nxy [of i] by blast
      moreover have "i \<noteq> b \<or> b = 0" using bnot [of i] that by blast
      moreover have "i \<noteq> g \<or> g = 0" using gnot [of i] that by blast
      ultimately show ?thesis using o' by blast
    qed
    have colf: "colf h' = colf h"
    proof
      fix i show "colf h' i = colf h i"
        using cs [of i] x' y' b' gg by (auto simp: colf_def)
    qed
    have payf: "pay h' = pay h"
    proof
      fix i show "pay h' i = pay h i"
        using cs [of i] x' y' b' gg by (auto simp: pay_def)
    qed
    have enff: "enf h' = enf h"
    proof
      fix i show "enf h' i = enf h i"
        using cs [of i] x' y' b' gg by (auto simp: enf_def)
    qed
    have stff: "stf h' = stf h"
    proof
      fix i show "stf h' i = stf h i"
        using cs [of i] x' y' b' gg by (auto simp: stf_def)
    qed
    have meff: "mef h' = (mef h)(y := max3 (enf h y) (rme (mef h) be) (rme (mef h) ga),
                               x := max3 (enf h x)
                                      (rme (mef h) al)
                                      (Some (max3 (enf h y) (rme (mef h) be) (rme (mef h) ga))))"
    proof
      fix i show "mef h' i = ((mef h)(y := max3 (enf h y) (rme (mef h) be) (rme (mef h) ga),
                               x := max3 (enf h x)
                                      (rme (mef h) al)
                                      (Some (max3 (enf h y) (rme (mef h) be) (rme (mef h) ga))))) i"
        using cs [of i] x' y' b' gg xy gl(2,3) bl(2,3) by (auto simp: mef_def)
    qed
    have be': "sub_ok h' (Some y) be"
    proof (rule sub_ok_reparent [OF Sbe l' D1(2)])
      assume "be \<noteq> Leaf" thus "h' ! raddr be = (h ! raddr be)\<lparr>parent := Some y\<rparr>"
        using b' b0 by (simp add: b_def)
    next
      fix i assume "i \<in> set_tree be" "i \<noteq> raddr be"
      thus "h' ! i = h ! i" using o' nxy [of i] gnot [of i] by (auto simp: b_def)
    qed
    have al': "sub_ok h' (Some y) ga"
      using Sal keep by (subst sub_ok_same [OF l', where t = ga]) auto
    have ga': "sub_ok h' (Some x) al"
      using Sga keep by (subst sub_ok_same [OF l', where t = al]) auto
    have S': "sub_ok h' (par c) (Node al x (Node be y ga))"
      using y x al' be' ga' x' y' l' xl1 yr1 S by (simp add: ref_of_raddr b_def cc_def g_def par_paddr)
    have C': "ctx_ok h' c (Some x)"
    proof (rule ctx_ok_set_child [OF C l' D1(4)], goal_cases)
      case (1 d g2 s c')
      thus ?case using g' [of d g2 s c'] by (cases d) (simp_all add: g_def)
    next
      case (2 i)
      thus ?case using o' nxy [of i] bnot [of i] by (auto simp: g_def)
    qed
    show ?thesis using R' H' l' S' C' colf payf enff stff meff by blast
  qed
  show ?thesis
  proof (cases c)
    case Nil
    hence g0: "g = 0" by (simp add: g_def)
    from R g0 Nil obtain h' where
      "right_rotate t (Some y) = Inr (t\<lparr>nodes := h', root := top c (Some x)\<rparr>)"
      "length h' = length h" "heap_ok h'"
      "h' ! y = (h ! y)\<lparr>left := Some b, parent := Some x,
                         max_end := max3 (enf h y) (rme (mef h) be) (rme (mef h) ga)\<rparr>"
      "h' ! x = (h ! x)\<lparr>parent := Some g, right := Some y,
                         max_end := max3 (enf h x) (rme (mef h) al) (Some (max3 (enf h y) (rme (mef h) be) (rme (mef h) ga)))\<rparr>"
      "0 < b \<longrightarrow> h' ! b = (h ! b)\<lparr>parent := Some y\<rparr>"
      "\<forall>i. i \<noteq> y \<and> i \<noteq> x \<and> (i \<noteq> b \<or> b = 0) \<and> (i \<noteq> g \<or> g = 0) \<longrightarrow> h' ! i = h ! i"
      by auto
    thus ?thesis using Nil by (intro post [of h']) auto
  next
    case (Cons f c')
    obtain d g2 s where f: "f = (d, g2, s)" by (cases f)
    have a: "c = (d, g, s) # c'" using Cons f by (simp add: g_def)
    have gpos: "0 < g" using gl(5) a by auto
    have rt': "root t = top c (Some x)" using rt a by simp
    from cmp_right_child [OF H3 S3 C3 [unfolded a] D3 [unfolded a]]
    consider (ok) "eq h3 (Some y) (right (h ! g)) = Inr (d = Rgt)"
      | (rec) "eq h3 (Some y) (right (h ! g)) = Inl RecursionError" "d = Lft" "s \<noteq> Leaf"
          "pay h3 (raddr s) = pay h3 y"
      | (twin) "d = Lft" "ga = Leaf" "be = Leaf" "\<exists>w. s = Node Leaf w Leaf \<and> colf h3 w = colf h3 y"
      unfolding lg3 by blast
    thus ?thesis
    proof cases
      case ok
      from R gpos ok rt' obtain h' where
        "right_rotate t (Some y) = Inr (t\<lparr>nodes := h', root := top c (Some x)\<rparr>)"
        "length h' = length h" "heap_ok h'"
        "h' ! y = (h ! y)\<lparr>left := Some b, parent := Some x,
                           max_end := max3 (enf h y) (rme (mef h) be) (rme (mef h) ga)\<rparr>"
        "h' ! x = (h ! x)\<lparr>parent := Some g, right := Some y,
                           max_end := max3 (enf h x) (rme (mef h) al) (Some (max3 (enf h y) (rme (mef h) be) (rme (mef h) ga)))\<rparr>"
        "0 < b \<longrightarrow> h' ! b = (h ! b)\<lparr>parent := Some y\<rparr>"
        "h' ! g = (if d = Rgt then (h ! g)\<lparr>right := Some x\<rparr> else (h ! g)\<lparr>left := Some x\<rparr>)"
        "\<forall>i. i \<noteq> y \<and> i \<noteq> x \<and> (i \<noteq> b \<or> b = 0) \<and> (i \<noteq> g \<or> g = 0) \<longrightarrow> h' ! i = h ! i"
        by auto
      thus ?thesis using a by (intro post [of h']) auto
    next
      case rec
      from R gpos rec(1) have "right_rotate t (Some y) = Inl RecursionError" by simp
      moreover have "raddr s \<in> set (after c)" using raddr_in [OF rec(3)] a rec(2) by simp
      moreover have "raddr s \<noteq> y" using calculation(2) D by auto
      ultimately show ?thesis using rec(4) unfolding pay3 dup_def
        by (intro disjI1 conjI) auto
    next
      case twin
      then obtain w where "s = Node Leaf w Leaf" "colf h w = colf h y" unfolding col3 by blast
      with notwin [of d g w c'] a twin show ?thesis by simp
    qed
  qed
qed

section \<open>Invariants along a path\<close>

lemma plug_Cons: "plug (f # c) t = plug c (up f t)"
proof -
  obtain d g s where "f = (d, g, s)" by (cases f)
  thus ?thesis by (cases d) auto
qed

lemma invc_cong: "(\<And>a. a \<in> set_tree t \<Longrightarrow> col' a = col a) \<Longrightarrow> invc col' t = invc col t"
proof (induction t)
  case Leaf
  show ?case by simp
next
  case (Node l a r)
  have "rcol col' l = rcol col l" "rcol col' r = rcol col r"
    using Node.prems by (cases l; cases r; simp)+
  thus ?case using Node by simp
qed

lemma rcol_cong: "(\<And>a. a \<in> set_tree t \<Longrightarrow> col' a = col a) \<Longrightarrow> rcol col' t = rcol col t"
  by (cases t) auto

lemma bh_cong: "(\<And>a. a \<in> set_tree t \<Longrightarrow> col' a = col a) \<Longrightarrow> bh col' t = bh col t"
  by (induction t) auto

lemma invh_cong: "(\<And>a. a \<in> set_tree t \<Longrightarrow> col' a = col a) \<Longrightarrow> invh col' t = invh col t"
proof (induction t)
  case Leaf
  show ?case by simp
next
  case (Node l a r)
  have "bh col' l = bh col l" "bh col' r = bh col r"
    using Node.prems by (auto intro: bh_cong)
  thus ?case using Node by simp
qed

lemma cinv_cong:
  "(\<And>a. a \<in> set (before c) \<union> set (after c) \<Longrightarrow> col' a = col a) \<Longrightarrow> cinv col' c rc b = cinv col c rc b"
proof (induction c arbitrary: rc b)
  case Nil
  show ?case by simp
next
  case (Cons f c)
  obtain d g s where f: "f = (d, g, s)" by (cases f)
  have s: "\<And>a. a \<in> set_tree s \<Longrightarrow> col' a = col a" and g: "col' g = col g"
    and c: "\<And>a. a \<in> set (before c) \<union> set (after c) \<Longrightarrow> col' a = col a"
    using Cons.prems by (cases d; auto simp: f)+
  show ?case
    using invc_cong [of s col' col, OF s] invh_cong [of s col' col, OF s] bh_cong [of s col' col, OF s]
      rcol_cong [of s col' col, OF s] g Cons.IH [OF c]
    by (simp add: f)
qed

lemma rme_cong: "(\<And>a. a \<in> set_tree t \<Longrightarrow> me' a = me a) \<Longrightarrow> rme me' t = rme me t"
  by (cases t) auto

lemma maxinv_cong:
  "(\<And>a. a \<in> set_tree t \<Longrightarrow> me' a = me a \<and> en' a = en a) \<Longrightarrow> maxinv me' en' t = maxinv me en t"
proof (induction t)
  case Leaf
  show ?case by simp
next
  case (Node l a r)
  have "rme me' l = rme me l" "rme me' r = rme me r"
    using Node.prems by (cases l; cases r; simp)+
  thus ?case using Node by simp
qed

lemma cmaxinv_cong:
  "(\<And>a. a \<in> set (before c) \<union> set (after c) \<Longrightarrow> me' a = me a \<and> en' a = en a)
     \<Longrightarrow> cmaxinv me' en' c m = cmaxinv me en c m"
proof (induction c arbitrary: m)
  case Nil
  show ?case by simp
next
  case (Cons f c)
  obtain d g s where f: "f = (d, g, s)" by (cases f)
  have s: "\<And>a. a \<in> set_tree s \<Longrightarrow> me' a = me a \<and> en' a = en a" and g: "me' g = me g" "en' g = en g"
    and c: "\<And>a. a \<in> set (before c) \<union> set (after c) \<Longrightarrow> me' a = me a \<and> en' a = en a"
    using Cons.prems by (cases d; auto simp: f)+
  have r: "rme me' s = rme me s" using s by (cases s) auto
  show ?case
    using maxinv_cong [of s me' me en' en, OF s] r g Cons.IH [OF c]
    by (cases d) (simp_all add: f)
qed

lemma rb_plug:
  "(invc col (plug c t) \<and> invh col (plug c t) \<and> rcol col (plug c t) = BLACK)
     = (invc col t \<and> invh col t \<and> cinv col c (rcol col t) (bh col t))"
proof (induction c arbitrary: t)
  case Nil
  show ?case by auto
next
  case (Cons f c)
  obtain d g s where f: "f = (d, g, s)" by (cases f)
  show ?case unfolding plug_Cons Cons.IH by (cases d) (auto simp: f)
qed

lemma maxinv_plug:
  "maxinv me en (plug c t) = (maxinv me en t \<and> cmaxinv me en c (rme me t))"
proof (induction c arbitrary: t)
  case Nil
  show ?case by auto
next
  case (Cons f c)
  obtain d g s where f: "f = (d, g, s)" by (cases f)
  show ?case unfolding plug_Cons Cons.IH by (cases d) (auto simp: f)
qed

lemma zip_ok_up: "zip_ok t (f # c) sub = zip_ok t c (up f sub)"
proof -
  obtain d g s where f: "f = (d, g, s)" by (cases f)
  show ?thesis unfolding zip_ok_def f by (cases d) auto
qed

lemma zip_ok_plug: "zip_ok t c sub = zip_ok t [] (plug c sub)"
proof (induction c arbitrary: sub)
  case Nil
  show ?case by simp
next
  case (Cons f c)
  show ?case unfolding zip_ok_up plug_Cons by (rule Cons.IH)
qed

lemma pay_fields: "pay h' = pay h \<Longrightarrow> stf h' = stf h \<and> enf h' = enf h"
proof -
  assume p: "pay h' = pay h"
  have "stf h' a = stf h a \<and> enf h' a = enf h a" for a
    using fun_cong [OF p, of a] by (simp add: pay_def stf_def enf_def)
  thus ?thesis by auto
qed

lemma same_content_refl: "same_content t t"
  by (simp add: same_content_def)

lemma same_content_trans: "same_content t t1 \<Longrightarrow> same_content t1 t2 \<Longrightarrow> same_content t t2"
  by (simp add: same_content_def)

lemma set_color_ok:
  fixes k :: Color
  assumes Z: "zip_ok t c sub" and p: "0 < p"
  defines "t' \<equiv> t\<lparr>nodes := (nodes t)[p := (nodes t ! p)\<lparr>color := k\<rparr>]\<rparr>"
  shows "zip_ok t' c sub" "same_content t t'"
    "mef (nodes t') = mef (nodes t)" "enf (nodes t') = enf (nodes t)"
    "p < length (nodes t) \<Longrightarrow> colf (nodes t') = (colf (nodes t))(p := k)"
proof -
  let ?h = "nodes t" and ?h' = "(nodes t)[p := (nodes t ! p)\<lparr>color := k\<rparr>]"
  have n: "nodes t' = ?h'" "root t' = root t" "tsize t' = tsize t" by (simp_all add: t'_def)
  have l: "length ?h' = length ?h" by simp
  have f: "left (?h' ! i) = left (?h ! i) \<and> right (?h' ! i) = right (?h ! i)
         \<and> parent (?h' ! i) = parent (?h ! i) \<and> pay ?h' i = pay ?h i
         \<and> max_end (?h' ! i) = max_end (?h ! i) \<and> end' (?h' ! i) = end' (?h ! i)" for i
    by (cases "i = p"; cases "p < length ?h") (simp_all add: pay_def list_update_beyond)
  have z: "?h' ! 0 = ?h ! 0" using p by simp
  have H: "heap_ok ?h'"
    using Z heap_ok_same_left [of ?h ?h'] l z f by (simp add: zip_ok_def)
  show "zip_ok t' c sub"
    using Z H sub_ok_cong [OF l, of sub "par c"] ctx_ok_cong [OF l, of c "ref_of sub"] f
    by (simp add: zip_ok_def n)
  show "same_content t t'" using f by (auto simp: same_content_def n)
  show "mef (nodes t') = mef (nodes t)" using f by (auto simp: mef_def n)
  show "enf (nodes t') = enf (nodes t)" using f by (auto simp: enf_def n)
  show "p < length (nodes t) \<Longrightarrow> colf (nodes t') = (colf (nodes t))(p := k)"
    by (auto simp: colf_def n fun_eq_iff)
qed

lemma max3_rot:
  "max3 ey (Some (max3 ex A B)) C = max3 ex A (Some (max3 ey B C))"
  by (auto simp: max3_def split: option.splits)

lemma maxinv_rot_left:
  assumes M: "maxinv me en (plug c (Node al x (Node be y ga)))"
    and D: "distinct (before c @ inorder (Node al x (Node be y ga)) @ after c)"
  defines "mx \<equiv> max3 (en x) (rme me al) (rme me be)"
  defines "me' \<equiv> me(x := mx, y := max3 (en y) (Some mx) (rme me ga))"
  shows "maxinv me' en (plug c (Node (Node al x be) y ga))"
proof -
  have xy: "x \<noteq> y" using D by auto
  have k: "\<And>a. a \<in> set_tree al \<union> set_tree be \<union> set_tree ga \<union> set (before c) \<union> set (after c)
             \<Longrightarrow> me' a = me a"
    using D by (auto simp: me'_def)
  have r: "rme me' al = rme me al" "rme me' be = rme me be" "rme me' ga = rme me ga"
    using k by (auto intro!: rme_cong)
  have m: "maxinv me' en al = maxinv me en al" "maxinv me' en be = maxinv me en be"
    "maxinv me' en ga = maxinv me en ga"
    using k by (auto intro!: maxinv_cong)
  have c: "cmaxinv me' en c m = cmaxinv me en c m" for m
    using k by (auto intro!: cmaxinv_cong)
  have x': "me' x = mx" and y': "me' y = max3 (en y) (Some mx) (rme me ga)"
    using xy by (simp_all add: me'_def)
  have M1: "maxinv me en (Node al x (Node be y ga))" and 4: "cmaxinv me en c (Some (me x))"
    using M by (simp_all only: maxinv_plug rme.simps)
  from M1 have 1: "me x = max3 (en x) (rme me al) (Some (me y))"
    and 2: "me y = max3 (en y) (rme me be) (rme me ga)"
    and 3: "maxinv me en al" "maxinv me en be" "maxinv me en ga"
    by simp_all
  have yx: "me' y = me x" unfolding y' 1 2 mx_def by (rule max3_rot max3_rot [symmetric])
  have "maxinv me' en (Node (Node al x be) y ga)"
    using 3 by (simp add: r m x' y' mx_def)
  moreover have "cmaxinv me' en c (rme me' (Node (Node al x be) y ga))"
    using 4 by (simp add: c yx)
  ultimately show ?thesis by (simp only: maxinv_plug)
qed

lemma left_rotate_ok:
  assumes Z: "zip_ok t c (Node al x (Node be y ga))"
    and M: "maxinv (mef (nodes t)) (enf (nodes t)) (plug c (Node al x (Node be y ga)))"
    and notwin: "\<forall>d g w c'. c = (d, g, Node Leaf w Leaf) # c' \<longrightarrow> al = Leaf \<longrightarrow> be = Leaf
                   \<longrightarrow> colf (nodes t) w \<noteq> colf (nodes t) x"
  shows "(left_rotate t (Some x) = Inl RecursionError
            \<and> dup (nodes t) (set_tree (plug c (Node al x (Node be y ga)))))
       \<or> (\<exists>t'. left_rotate t (Some x) = Inr t' \<and> zip_ok t' c (Node (Node al x be) y ga)
            \<and> same_content t t' \<and> colf (nodes t') = colf (nodes t)
            \<and> maxinv (mef (nodes t')) (enf (nodes t')) (plug c (Node (Node al x be) y ga)))"
proof -
  let ?h = "nodes t"
  from Z have H: "heap_ok ?h" and S: "sub_ok ?h (par c) (Node al x (Node be y ga))"
    and C: "ctx_ok ?h c (Some x)"
    and D: "distinct (before c @ inorder (Node al x (Node be y ga)) @ after c)"
    and rt: "root t = top c (Some x)"
    by (simp_all add: zip_ok_def)
  have st: "set_tree (plug c (Node al x (Node be y ga)))
       = set (before c @ inorder (Node al x (Node be y ga)) @ after c)"
    by (simp only: set_inorder [symmetric] inorder_plug)
  note L = left_rotate_zip [OF H refl S C D rt]
  have nw: "\<forall>d g w c'. c = (d, g, Node Leaf w Leaf) # c' \<longrightarrow> al = Leaf \<longrightarrow> be = Leaf
              \<longrightarrow> colf ?h w \<noteq> colf ?h x"
    using notwin by blast
  from L [unfolded atomize_imp atomize_all, THEN mp, OF nw]
  consider (err) "left_rotate t (Some x) = Inl RecursionError"
      "dup ?h (set (before c @ inorder (Node al x (Node be y ga)) @ after c))"
    | (ok) h' where "left_rotate t (Some x) = Inr (t\<lparr>nodes := h', root := top c (Some y)\<rparr>)"
      "heap_ok h'" "length h' = length ?h"
      "sub_ok h' (par c) (Node (Node al x be) y ga)" "ctx_ok h' c (Some y)"
      "colf h' = colf ?h" "pay h' = pay ?h" "enf h' = enf ?h"
      "mef h' = (mef ?h)(x := max3 (enf ?h x) (rme (mef ?h) al) (rme (mef ?h) be),
                        y := max3 (enf ?h y)
                              (Some (max3 (enf ?h x) (rme (mef ?h) al) (rme (mef ?h) be)))
                              (rme (mef ?h) ga))"
    by blast
  thus ?thesis
  proof cases
    case err
    thus ?thesis unfolding st by blast
  next
    case ok
    let ?t' = "t\<lparr>nodes := h', root := top c (Some y)\<rparr>"
    have "zip_ok ?t' c (Node (Node al x be) y ga)"
      using ok D by (simp add: zip_ok_def)
    moreover have "same_content t ?t'" using ok by (simp add: same_content_def)
    moreover have "maxinv (mef h') (enf h') (plug c (Node (Node al x be) y ga))"
      unfolding ok(8,9) by (rule maxinv_rot_left [OF M D])
    ultimately show ?thesis using ok(1,6) by auto
  qed
qed

lemma maxinv_rot_right:
  assumes M: "maxinv me en (plug c (Node (Node al x be) y ga))"
    and D: "distinct (before c @ inorder (Node (Node al x be) y ga) @ after c)"
  defines "mx \<equiv> max3 (en y) (rme me be) (rme me ga)"
  defines "me' \<equiv> me(y := mx, x := max3 (en x) (rme me al) (Some mx))"
  shows "maxinv me' en (plug c (Node al x (Node be y ga)))"
proof -
  have xy: "y \<noteq> x" using D by auto
  have k: "\<And>cc. cc \<in> set_tree ga \<union> set_tree be \<union> set_tree al \<union> set (after c) \<union> set (before c)
             \<Longrightarrow> me' cc = me cc"
    using D by (auto simp: me'_def)
  have r: "rme me' ga = rme me ga" "rme me' be = rme me be" "rme me' al = rme me al"
    using k by (auto intro!: rme_cong)
  have m: "maxinv me' en ga = maxinv me en ga" "maxinv me' en be = maxinv me en be"
    "maxinv me' en al = maxinv me en al"
    using k by (auto intro!: maxinv_cong)
  have c: "cmaxinv me' en c m = cmaxinv me en c m" for m
    using k by (auto intro!: cmaxinv_cong)
  have x': "me' y = mx" and y': "me' x = max3 (en x) (rme me al) (Some mx)"
    using xy by (simp_all add: me'_def)
  have M1: "maxinv me en (Node (Node al x be) y ga)" and 4: "cmaxinv me en c (Some (me y))"
    using M by (simp_all only: maxinv_plug rme.simps)
  from M1 have 1: "me y = max3 (en y) (Some (me x)) (rme me ga)"
    and 2: "me x = max3 (en x) (rme me al) (rme me be)"
    and 3: "maxinv me en ga" "maxinv me en be" "maxinv me en al"
    by simp_all
  have yx: "me' x = me y" unfolding y' 1 2 mx_def by (rule max3_rot max3_rot [symmetric])
  have "maxinv me' en (Node al x (Node be y ga))"
    using 3 by (simp add: r m x' y' mx_def)
  moreover have "cmaxinv me' en c (rme me' (Node al x (Node be y ga)))"
    using 4 by (simp add: c yx)
  ultimately show ?thesis by (simp only: maxinv_plug)
qed

lemma right_rotate_ok:
  assumes Z: "zip_ok t c (Node (Node al x be) y ga)"
    and M: "maxinv (mef (nodes t)) (enf (nodes t)) (plug c (Node (Node al x be) y ga))"
    and notwin: "\<forall>d g w c'. c = (d, g, Node Leaf w Leaf) # c' \<longrightarrow> ga = Leaf \<longrightarrow> be = Leaf
                   \<longrightarrow> colf (nodes t) w \<noteq> colf (nodes t) y"
  shows "(right_rotate t (Some y) = Inl RecursionError
            \<and> dup (nodes t) (set_tree (plug c (Node (Node al x be) y ga))))
       \<or> (\<exists>t'. right_rotate t (Some y) = Inr t' \<and> zip_ok t' c (Node al x (Node be y ga))
            \<and> same_content t t' \<and> colf (nodes t') = colf (nodes t)
            \<and> maxinv (mef (nodes t')) (enf (nodes t')) (plug c (Node al x (Node be y ga))))"
proof -
  let ?h = "nodes t"
  from Z have H: "heap_ok ?h" and S: "sub_ok ?h (par c) (Node (Node al x be) y ga)"
    and C: "ctx_ok ?h c (Some y)"
    and D: "distinct (before c @ inorder (Node (Node al x be) y ga) @ after c)"
    and rt: "root t = top c (Some y)"
    by (simp_all add: zip_ok_def)
  have st: "set_tree (plug c (Node (Node al x be) y ga))
       = set (before c @ inorder (Node (Node al x be) y ga) @ after c)"
    by (simp only: set_inorder [symmetric] inorder_plug)
  note L = right_rotate_zip [OF H refl S C D rt]
  have nw: "\<forall>d g w c'. c = (d, g, Node Leaf w Leaf) # c' \<longrightarrow> ga = Leaf \<longrightarrow> be = Leaf
              \<longrightarrow> colf ?h w \<noteq> colf ?h y"
    using notwin by blast
  from L [unfolded atomize_imp atomize_all, THEN mp, OF nw]
  consider (err) "right_rotate t (Some y) = Inl RecursionError"
      "dup ?h (set (before c @ inorder (Node (Node al x be) y ga) @ after c))"
    | (ok) h' where "right_rotate t (Some y) = Inr (t\<lparr>nodes := h', root := top c (Some x)\<rparr>)"
      "heap_ok h'" "length h' = length ?h"
      "sub_ok h' (par c) (Node al x (Node be y ga))" "ctx_ok h' c (Some x)"
      "colf h' = colf ?h" "pay h' = pay ?h" "enf h' = enf ?h"
      "mef h' = (mef ?h)(y := max3 (enf ?h y) (rme (mef ?h) be) (rme (mef ?h) ga),
                        x := max3 (enf ?h x)
                              (rme (mef ?h) al)
                              (Some (max3 (enf ?h y) (rme (mef ?h) be) (rme (mef ?h) ga))))"
    by blast
  thus ?thesis
  proof cases
    case err
    thus ?thesis unfolding st by blast
  next
    case ok
    let ?t' = "t\<lparr>nodes := h', root := top c (Some x)\<rparr>"
    have "zip_ok ?t' c (Node al x (Node be y ga))"
      using ok D by (simp add: zip_ok_def)
    moreover have "same_content t ?t'" using ok by (simp add: same_content_def)
    moreover have "maxinv (mef h') (enf h') (plug c (Node al x (Node be y ga)))"
      unfolding ok(8,9) by (rule maxinv_rot_right [OF M D])
    ultimately show ?thesis using ok(1,6) by auto
  qed
qed

lemma cinv_sibling_black:
  "cinv col ((d, g, Node Leaf w Leaf) # c) rc (Suc b) \<Longrightarrow> col w = BLACK"
  by (cases "col w") auto

lemma col_congs:
  assumes "\<And>a. a \<in> set_tree t \<Longrightarrow> col' a = col a"
  shows "invc col' t = invc col t" "invh col' t = invh col t" "bh col' t = bh col t"
    "rcol col' t = rcol col t"
  using assms invc_cong [of t col' col] invh_cong [of t col' col] bh_cong [of t col' col]
    rcol_cong [of t col' col] by auto

lemma cfix_rot_ll:
  assumes F: "cfix col ((Lft, p, s) # (Lft, g, u) # c) sub"
    and D: "distinct (before ((Lft, p, s) # (Lft, g, u) # c) @ inorder sub
                      @ after ((Lft, p, s) # (Lft, g, u) # c))"
    and p: "col p = RED" and u: "rcol col u = BLACK"
  shows "cfix (col(p := BLACK, g := RED)) ((Lft, p, Node s g u) # c) sub"
proof -
  let ?col = "col(p := BLACK, g := RED)"
  have k: "\<And>a. a \<in> set_tree sub \<union> set_tree s \<union> set_tree u \<Longrightarrow> ?col a = col a"
    and kc: "\<And>a. a \<in> set (before c) \<union> set (after c) \<Longrightarrow> ?col a = col a"
    and pg: "p \<noteq> g"
    using D by auto
  have e: "invc ?col sub = invc col sub" "invh ?col sub = invh col sub" "bh ?col sub = bh col sub"
    "rcol ?col sub = rcol col sub"
    "invc ?col s = invc col s" "invh ?col s = invh col s" "bh ?col s = bh col s"
    "rcol ?col s = rcol col s"
    "invc ?col u = invc col u" "invh ?col u = invh col u" "bh ?col u = bh col u"
    "rcol ?col u = rcol col u"
    using k by (auto intro!: col_congs)
  have ec: "cinv ?col c rc b = cinv col c rc b" for rc b
    using kc by (rule cinv_cong)
  show ?thesis using F p u pg by (auto simp: cfix_def e ec)
qed

lemma cfix_rot_rl:
  assumes F: "cfix col ((Rgt, p, s) # (Lft, g, u) # c) (Node l a r)"
    and D: "distinct (before ((Rgt, p, s) # (Lft, g, u) # c) @ inorder (Node l a r)
                      @ after ((Rgt, p, s) # (Lft, g, u) # c))"
    and p: "col p = RED" and u: "rcol col u = BLACK"
  shows "cfix (col(a := BLACK, g := RED)) ((Lft, a, Node r g u) # c) (Node s p l)"
proof -
  let ?col = "col(a := BLACK, g := RED)"
  have k: "\<And>b. b \<in> set_tree l \<union> set_tree r \<union> set_tree s \<union> set_tree u \<Longrightarrow> ?col b = col b"
    and kc: "\<And>b. b \<in> set (before c) \<union> set (after c) \<Longrightarrow> ?col b = col b"
    and pg: "p \<noteq> g" "a \<noteq> g" "a \<noteq> p"
    using D by auto
  have e: "invc ?col l = invc col l" "invh ?col l = invh col l" "bh ?col l = bh col l"
    "rcol ?col l = rcol col l"
    "invc ?col r = invc col r" "invh ?col r = invh col r" "bh ?col r = bh col r"
    "rcol ?col r = rcol col r"
    "invc ?col s = invc col s" "invh ?col s = invh col s" "bh ?col s = bh col s"
    "rcol ?col s = rcol col s"
    "invc ?col u = invc col u" "invh ?col u = invh col u" "bh ?col u = bh col u"
    "rcol ?col u = rcol col u"
    using k by (auto intro!: col_congs)
  have ec: "cinv ?col c rc b = cinv col c rc b" for rc b
    using kc by (rule cinv_cong)
  show ?thesis using F p u pg by (auto simp: cfix_def e ec)
qed

lemma cfix_rot_rr:
  assumes F: "cfix col ((Rgt, p, s) # (Rgt, g, u) # c) sub"
    and D: "distinct (before ((Rgt, p, s) # (Rgt, g, u) # c) @ inorder sub
                      @ after ((Rgt, p, s) # (Rgt, g, u) # c))"
    and p: "col p = RED" and u: "rcol col u = BLACK"
  shows "cfix (col(p := BLACK, g := RED)) ((Rgt, p, Node u g s) # c) sub"
proof -
  let ?col = "col(p := BLACK, g := RED)"
  have k: "\<And>cc. cc \<in> set_tree sub \<union> set_tree s \<union> set_tree u \<Longrightarrow> ?col cc = col cc"
    and kc: "\<And>cc. cc \<in> set (before c) \<union> set (after c) \<Longrightarrow> ?col cc = col cc"
    and pg: "p \<noteq> g"
    using D by auto
  have e: "invc ?col sub = invc col sub" "invh ?col sub = invh col sub" "bh ?col sub = bh col sub"
    "rcol ?col sub = rcol col sub"
    "invc ?col s = invc col s" "invh ?col s = invh col s" "bh ?col s = bh col s"
    "rcol ?col s = rcol col s"
    "invc ?col u = invc col u" "invh ?col u = invh col u" "bh ?col u = bh col u"
    "rcol ?col u = rcol col u"
    using k by (auto intro!: col_congs)
  have ec: "cinv ?col c rc b = cinv col c rc b" for rc b
    using kc by (rule cinv_cong)
  show ?thesis using F p u pg by (auto simp: cfix_def e ec)
qed

lemma cfix_rot_lr:
  assumes F: "cfix col ((Lft, p, s) # (Rgt, g, u) # c) (Node r cc l)"
    and D: "distinct (before ((Lft, p, s) # (Rgt, g, u) # c) @ inorder (Node r cc l)
                      @ after ((Lft, p, s) # (Rgt, g, u) # c))"
    and p: "col p = RED" and u: "rcol col u = BLACK"
  shows "cfix (col(cc := BLACK, g := RED)) ((Rgt, cc, Node u g r) # c) (Node l p s)"
proof -
  let ?col = "col(cc := BLACK, g := RED)"
  have k: "\<And>b. b \<in> set_tree l \<union> set_tree r \<union> set_tree s \<union> set_tree u \<Longrightarrow> ?col b = col b"
    and kc: "\<And>b. b \<in> set (before c) \<union> set (after c) \<Longrightarrow> ?col b = col b"
    and pg: "p \<noteq> g" "cc \<noteq> g" "cc \<noteq> p"
    using D by auto
  have e: "invc ?col l = invc col l" "invh ?col l = invh col l" "bh ?col l = bh col l"
    "rcol ?col l = rcol col l"
    "invc ?col r = invc col r" "invh ?col r = invh col r" "bh ?col r = bh col r"
    "rcol ?col r = rcol col r"
    "invc ?col s = invc col s" "invh ?col s = invh col s" "bh ?col s = bh col s"
    "rcol ?col s = rcol col s"
    "invc ?col u = invc col u" "invh ?col u = invh col u" "bh ?col u = bh col u"
    "rcol ?col u = rcol col u"
    using k by (auto intro!: col_congs)
  have ec: "cinv ?col c rc b = cinv col c rc b" for rc b
    using kc by (rule cinv_cong)
  show ?thesis using F p u pg by (auto simp: cfix_def e ec)
qed

lemma cfix_recolor:
  assumes F: "cfix col ((d, p, s) # (d', g, u) # c) sub"
    and D: "distinct (before ((d, p, s) # (d', g, u) # c) @ inorder sub
                      @ after ((d, p, s) # (d', g, u) # c))"
    and p: "col p = RED" and u: "rcol col u = RED"
  shows "cfix (col(p := BLACK, raddr u := BLACK, g := RED)) c (up (d', g, u) (up (d, p, s) sub))"
proof -
  obtain ul w ur where U: "u = Node ul w ur" using u by (cases u) auto
  let ?col = "col(p := BLACK, w := BLACK, g := RED)"
  have k: "\<And>b. b \<in> set_tree sub \<union> set_tree s \<union> set_tree ul \<union> set_tree ur \<Longrightarrow> ?col b = col b"
    and kc: "\<And>b. b \<in> set (before c) \<union> set (after c) \<Longrightarrow> ?col b = col b"
    and pg: "p \<noteq> g" "w \<noteq> g" "w \<noteq> p"
    using D by (cases d; cases d'; auto simp: U)+
  have e: "invc ?col sub = invc col sub" "invh ?col sub = invh col sub" "bh ?col sub = bh col sub"
    "rcol ?col sub = rcol col sub"
    "invc ?col s = invc col s" "invh ?col s = invh col s" "bh ?col s = bh col s"
    "rcol ?col s = rcol col s"
    "invc ?col ul = invc col ul" "invh ?col ul = invh col ul" "bh ?col ul = bh col ul"
    "rcol ?col ul = rcol col ul"
    "invc ?col ur = invc col ur" "invh ?col ur = invh col ur" "bh ?col ur = bh col ur"
    "rcol ?col ur = rcol col ur"
    using k by (auto intro!: col_congs)
  have ec: "cinv ?col c rc b = cinv col c rc b" for rc b
    using kc by (rule cinv_cong)
  show ?thesis using F p u pg by (cases d; cases d') (auto simp: cfix_def e ec U)
qed

section \<open>The loop of \<open>_insert_fixup\<close>\<close>

lemma fix_inv_parent_red:
  assumes F: "fix_inv t ((d, p, s) # c) sub" and p: "colf (nodes t) p = RED"
  shows "rcol (colf (nodes t)) s = BLACK"
    "\<exists>d' g u c'. c = (d', g, u) # c' \<and> colf (nodes t) g = BLACK
        \<and> cinv (colf (nodes t)) c' BLACK (Suc (bh (colf (nodes t)) sub))"
proof -
  let ?col = "colf (nodes t)"
  from F have C: "cinv ?col ((d, p, s) # c) BLACK (bh ?col sub)"
    by (simp add: fix_inv_def cfix_def)
  thus "rcol ?col s = BLACK" using p by simp
  from C p have C1: "cinv ?col c RED (bh ?col sub)" by simp
  then obtain d' g u c' where c: "c = (d', g, u) # c'" by (cases c) auto
  with C1 have "?col g = BLACK" by simp
  thus "\<exists>d' g u c'. c = (d', g, u) # c' \<and> ?col g = BLACK \<and> cinv ?col c' BLACK (Suc (bh ?col sub))"
    using C1 c by simp
qed

lemma fixup_left_tail_ok:
  assumes Z: "zip_ok t ((Lft, x, be) # (Lft, g, u) # c) al" and al: "al \<noteq> Leaf"
    and M: "maxinv (mef (nodes t)) (enf (nodes t)) (plug c (Node (Node al x be) g u))"
    and bs: "\<forall>d2 gg w c'. c = (d2, gg, Node Leaf w Leaf) # c' \<longrightarrow> colf (nodes t) w = BLACK"
  shows "(fixup_left_tail t (raddr al) = Inl RecursionError
            \<and> dup (nodes t) (set_tree (plug c (Node (Node al x be) g u))))
       \<or> (\<exists>t2. fixup_left_tail t (raddr al) = Inr (t2, Some (raddr al))
            \<and> zip_ok t2 ((Lft, x, Node be g u) # c) al
            \<and> same_content t t2 \<and> colf (nodes t2) = (colf (nodes t))(x := BLACK, g := RED)
            \<and> maxinv (mef (nodes t2)) (enf (nodes t2)) (plug c (Node al x (Node be g u))))"
proof -
  let ?h = "nodes t"
  define ta where "ta = t\<lparr>nodes := ?h[x := (?h ! x)\<lparr>color := BLACK\<rparr>]\<rparr>"
  define tb where "tb = ta\<lparr>nodes := (nodes ta)[g := (nodes ta ! g)\<lparr>color := RED\<rparr>]\<rparr>"
  from Z have S: "sub_ok ?h (Some x) al"
    and x: "0 < x" "x < length ?h" "parent (?h ! x) = Some g"
    and g: "0 < g" "g < length ?h"
    and D: "distinct (before c @ inorder (Node (Node al x be) g u) @ after c)"
    by (simp_all add: zip_ok_def)
  have pa: "parent (?h ! raddr al) = Some x" using sub_ok_raddr [OF S al] by simp
  have xg: "x \<noteq> g" using D by auto
  have Za: "zip_ok ta ((Lft, x, be) # (Lft, g, u) # c) al" and sa: "same_content t ta"
    and ma: "mef (nodes ta) = mef ?h" "enf (nodes ta) = enf ?h"
    and ca: "colf (nodes ta) = (colf ?h)(x := BLACK)"
    unfolding ta_def using set_color_ok [OF Z x(1), of BLACK] x(2) by simp_all
  have la: "length (nodes ta) = length ?h" by (simp add: ta_def)
  have Zb: "zip_ok tb ((Lft, x, be) # (Lft, g, u) # c) al" and sb: "same_content ta tb"
    and mb: "mef (nodes tb) = mef (nodes ta)" "enf (nodes tb) = enf (nodes ta)"
    and cb: "colf (nodes tb) = (colf (nodes ta))(g := RED)"
    unfolding tb_def using set_color_ok [OF Za g(1), of RED] g(2) la by simp_all
  have Zb': "zip_ok tb c (Node (Node al x be) g u)" using Zb by (simp add: zip_ok_up)
  have Mb: "maxinv (mef (nodes tb)) (enf (nodes tb)) (plug c (Node (Node al x be) g u))"
    using M by (simp add: ma mb)
  have colb: "colf (nodes tb) = (colf ?h)(x := BLACK, g := RED)" by (simp add: ca cb)
  have stb: "same_content t tb" using sa sb by (rule same_content_trans)
  have nw0: "colf (nodes tb) w \<noteq> colf (nodes tb) g"
    if "c = (d, gg, Node Leaf w Leaf) # c'" for d gg w c'
  proof -
    have "w \<noteq> x" "w \<noteq> g" using D that by (cases d; auto)+
    thus ?thesis using bs that by (simp add: colb)
  qed
  hence nw: "\<forall>d gg w c'. c = (d, gg, Node Leaf w Leaf) # c' \<longrightarrow> u = Leaf \<longrightarrow> be = Leaf
              \<longrightarrow> colf (nodes tb) w \<noteq> colf (nodes tb) g"
    by blast
  have unf: "fixup_left_tail t (raddr al) = bind (right_rotate tb (Some g)) (\<lambda>t2. Inr (t2, Some (raddr al)))"
    using x xg by (simp add: fixup_left_tail_def pa Let_def tb_def ta_def)
  from right_rotate_ok [OF Zb' Mb nw]
  consider (err) "right_rotate tb (Some g) = Inl RecursionError"
      "dup (nodes tb) (set_tree (plug c (Node (Node al x be) g u)))"
    | (ok) t2 where "right_rotate tb (Some g) = Inr t2" "zip_ok t2 c (Node al x (Node be g u))"
      "same_content tb t2" "colf (nodes t2) = colf (nodes tb)"
      "maxinv (mef (nodes t2)) (enf (nodes t2)) (plug c (Node al x (Node be g u)))"
    by blast
  thus ?thesis
  proof cases
    case err
    have "pay (nodes tb) = pay ?h" using stb by (simp add: same_content_def)
    thus ?thesis using err by (simp add: unf dup_def)
  next
    case ok
    have "zip_ok t2 ((Lft, x, Node be g u) # c) al" using ok(2) by (simp add: zip_ok_up)
    moreover have "same_content t t2" using stb ok(3) by (rule same_content_trans)
    ultimately show ?thesis using ok by (simp add: unf colb)
  qed
qed

lemma fixup_left_rot_ok:
  assumes F: "fix_inv t ((d, p, s) # (Lft, g, u) # c) (Node l a r)"
    and p: "colf (nodes t) p = RED" and u: "rcol (colf (nodes t)) u = BLACK"
  shows "(fixup_left_rot t a p = Inl RecursionError
            \<and> dup (nodes t) (set_tree (plug ((d, p, s) # (Lft, g, u) # c) (Node l a r))))
       \<or> (\<exists>t1 c1 sub1. fixup_left_rot t a p = Inr (t1, ref_of sub1) \<and> fix_inv t1 c1 sub1
            \<and> same_content t t1
            \<and> inorder (plug c1 sub1) = inorder (plug ((d, p, s) # (Lft, g, u) # c) (Node l a r))
            \<and> length c1 < Suc (Suc (length c)))"
proof -
  let ?h = "nodes t" and ?C = "(d, p, s) # (Lft, g, u) # c" and ?sub = "Node l a r"
  let ?col = "colf ?h"
  from F have Z: "zip_ok t ?C ?sub" and CF: "cfix ?col ?C ?sub"
    and M: "maxinv (mef ?h) (enf ?h) (plug ?C ?sub)"
    by (simp_all add: fix_inv_def)
  from Z have H: "heap_ok ?h" and S: "sub_ok ?h (Some p) ?sub" and C: "ctx_ok ?h ?C (Some a)"
    and D: "distinct (before ?C @ inorder ?sub @ after ?C)"
    by (simp_all add: zip_ok_def)
  from CF have a: "?col a = RED" by (simp add: cfix_def)
  have sb: "rcol ?col s = BLACK" by (rule fix_inv_parent_red(1) [OF F p])
  have gb: "?col g = BLACK" and cc: "cinv ?col c BLACK (Suc (bh ?col ?sub))"
    using fix_inv_parent_red(2) [OF F p] by auto
  have bs: "\<forall>d2 gg w c'. c = (d2, gg, Node Leaf w Leaf) # c' \<longrightarrow> ?col w = BLACK"
    using cc cinv_sibling_black by blast
  have st: "set_tree (plug ?C ?sub) = set (before ?C @ inorder ?sub @ after ?C)"
    by (simp only: set_inorder [symmetric] inorder_plug)
  from cmp_right_child [OF H S C D]
  consider (ok) "eq ?h (Some a) (right (?h ! p)) = Inr (d = Rgt)"
    | (rec) "eq ?h (Some a) (right (?h ! p)) = Inl RecursionError" "d = Lft" "s \<noteq> Leaf"
        "pay ?h (raddr s) = pay ?h a"
    | (twin) "d = Lft" "\<exists>w. s = Node Leaf w Leaf \<and> ?col w = ?col a"
    by blast
  thus ?thesis
  proof cases
    case twin
    thus ?thesis using sb a by auto
  next
    case rec
    have "raddr s \<in> set_tree (plug ?C ?sub)" "a \<in> set_tree (plug ?C ?sub)"
      using raddr_in [OF rec(3)] rec(2) unfolding st by auto
    moreover have "raddr s \<noteq> a" using raddr_in [OF rec(3)] rec(2) D by auto
    ultimately have "dup ?h (set_tree (plug ?C ?sub))" using rec(4) unfolding dup_def by blast
    thus ?thesis using rec(1) by (simp add: fixup_left_rot_def)
  next
    case ok
    show ?thesis
    proof (cases d)
      case Lft
      have unf: "fixup_left_rot t a p = fixup_left_tail t (raddr ?sub)"
        using ok Lft by (simp add: fixup_left_rot_def)
      have Z1: "zip_ok t ((Lft, p, s) # (Lft, g, u) # c) ?sub" using Z Lft by simp
      have M1: "maxinv (mef ?h) (enf ?h) (plug c (Node (Node ?sub p s) g u))"
        using M Lft by simp
      from fixup_left_tail_ok [OF Z1 _ M1 bs]
      consider (err) "fixup_left_tail t (raddr ?sub) = Inl RecursionError"
          "dup ?h (set_tree (plug c (Node (Node ?sub p s) g u)))"
        | (ok2) t2 where "fixup_left_tail t (raddr ?sub) = Inr (t2, Some (raddr ?sub))"
          "zip_ok t2 ((Lft, p, Node s g u) # c) ?sub" "same_content t t2"
          "colf (nodes t2) = ?col (p := BLACK, g := RED)"
          "maxinv (mef (nodes t2)) (enf (nodes t2)) (plug c (Node ?sub p (Node s g u)))"
        by blast
      thus ?thesis
      proof cases
        case err
        thus ?thesis using Lft by (simp add: unf)
      next
        case ok2
        have "cfix (colf (nodes t2)) ((Lft, p, Node s g u) # c) ?sub"
          unfolding ok2(4) using CF D p u unfolding Lft by (rule cfix_rot_ll)
        hence "fix_inv t2 ((Lft, p, Node s g u) # c) ?sub"
          using ok2 by (simp add: fix_inv_def)
        moreover have "inorder (plug ((Lft, p, Node s g u) # c) ?sub) = inorder (plug ?C ?sub)"
          using Lft by (simp add: inorder_plug)
        ultimately show ?thesis using ok2(1,3) unfolding unf
          by (intro disjI2 exI [of _ t2] exI [of _ "(Lft, p, Node s g u) # c"] exI [of _ ?sub]) simp
      qed
    next
      case Rgt
      have Z2: "zip_ok t ((Lft, g, u) # c) (Node s p ?sub)" using Z Rgt by (simp add: zip_ok_up)
      have M2: "maxinv (mef ?h) (enf ?h) (plug ((Lft, g, u) # c) (Node s p ?sub))"
        using M Rgt by simp
      have nw: "\<forall>d0 g0 w c'. (Lft, g, u) # c = (d0, g0, Node Leaf w Leaf) # c' \<longrightarrow> s = Leaf \<longrightarrow> l = Leaf
                  \<longrightarrow> ?col w \<noteq> ?col p"
        using u p by auto
      have sets: "set_tree (plug ((Lft, g, u) # c) (Node s p ?sub)) = set_tree (plug ?C ?sub)"
        using Rgt by simp
      from left_rotate_ok [OF Z2 M2 nw]
      consider (err) "left_rotate t (Some p) = Inl RecursionError" "dup ?h (set_tree (plug ?C ?sub))"
        | (ok1) t1 where "left_rotate t (Some p) = Inr t1"
          "zip_ok t1 ((Lft, g, u) # c) (Node (Node s p l) a r)" "same_content t t1"
          "colf (nodes t1) = ?col"
          "maxinv (mef (nodes t1)) (enf (nodes t1)) (plug ((Lft, g, u) # c) (Node (Node s p l) a r))"
        unfolding sets by blast
      thus ?thesis
      proof cases
        case err
        thus ?thesis using ok Rgt by (simp add: fixup_left_rot_def)
      next
        case ok1
        have unf: "fixup_left_rot t a p = fixup_left_tail t1 (raddr (Node s p l))"
          using ok Rgt ok1(1) by (simp add: fixup_left_rot_def)
        have Z3: "zip_ok t1 ((Lft, a, r) # (Lft, g, u) # c) (Node s p l)"
          using ok1(2) by (simp add: zip_ok_up)
        have M3: "maxinv (mef (nodes t1)) (enf (nodes t1)) (plug c (Node (Node (Node s p l) a r) g u))"
          using ok1(5) by simp
        have bs1: "\<forall>d2 gg w c'. c = (d2, gg, Node Leaf w Leaf) # c' \<longrightarrow> colf (nodes t1) w = BLACK"
          using bs by (simp add: ok1(4))
        have p1: "pay (nodes t1) = pay ?h" using ok1(3) by (simp add: same_content_def)
        have sets1: "set_tree (plug c (Node (Node (Node s p l) a r) g u)) = set_tree (plug ?C ?sub)"
          using Rgt by (auto simp: set_tree_plug)
        from fixup_left_tail_ok [OF Z3 _ M3 bs1]
        consider (err2) "fixup_left_tail t1 (raddr (Node s p l)) = Inl RecursionError"
            "dup (nodes t1) (set_tree (plug c (Node (Node (Node s p l) a r) g u)))"
          | (ok2) t2 where "fixup_left_tail t1 (raddr (Node s p l)) = Inr (t2, Some (raddr (Node s p l)))"
            "zip_ok t2 ((Lft, a, Node r g u) # c) (Node s p l)" "same_content t1 t2"
            "colf (nodes t2) = ?col (a := BLACK, g := RED)"
            "maxinv (mef (nodes t2)) (enf (nodes t2)) (plug c (Node (Node s p l) a (Node r g u)))"
          unfolding ok1(4) by blast
        thus ?thesis
        proof cases
          case err2
          thus ?thesis unfolding unf sets1 by (simp add: dup_def p1)
        next
          case ok2
          have "cfix (colf (nodes t2)) ((Lft, a, Node r g u) # c) (Node s p l)"
            unfolding ok2(4) using CF D p u unfolding Rgt by (rule cfix_rot_rl)
          hence "fix_inv t2 ((Lft, a, Node r g u) # c) (Node s p l)"
            using ok2 by (simp add: fix_inv_def)
          moreover have "inorder (plug ((Lft, a, Node r g u) # c) (Node s p l)) = inorder (plug ?C ?sub)"
            using Rgt by (simp add: inorder_plug)
          moreover have "same_content t t2" using ok1(3) ok2(3) by (rule same_content_trans)
          ultimately show ?thesis using ok2(1) unfolding unf
            by (intro disjI2 exI [of _ t2] exI [of _ "(Lft, a, Node r g u) # c"]
                  exI [of _ "Node s p l"]) simp
        qed
      qed
    qed
  qed
qed

lemma fixup_right_tail_ok:
  assumes Z: "zip_ok t ((Rgt, y, be) # (Rgt, g, u) # c) ga" and ga: "ga \<noteq> Leaf"
    and M: "maxinv (mef (nodes t)) (enf (nodes t)) (plug c (Node u g (Node be y ga)))"
    and bs: "\<forall>d2 gg w c'. c = (d2, gg, Node Leaf w Leaf) # c' \<longrightarrow> colf (nodes t) w = BLACK"
  shows "(fixup_right_tail t (raddr ga) = Inl RecursionError
            \<and> dup (nodes t) (set_tree (plug c (Node u g (Node be y ga)))))
       \<or> (\<exists>t2. fixup_right_tail t (raddr ga) = Inr (t2, Some (raddr ga))
            \<and> zip_ok t2 ((Rgt, y, Node u g be) # c) ga
            \<and> same_content t t2 \<and> colf (nodes t2) = (colf (nodes t))(y := BLACK, g := RED)
            \<and> maxinv (mef (nodes t2)) (enf (nodes t2)) (plug c (Node (Node u g be) y ga)))"
proof -
  let ?h = "nodes t"
  define ta where "ta = t\<lparr>nodes := ?h[y := (?h ! y)\<lparr>color := BLACK\<rparr>]\<rparr>"
  define tb where "tb = ta\<lparr>nodes := (nodes ta)[g := (nodes ta ! g)\<lparr>color := RED\<rparr>]\<rparr>"
  from Z have S: "sub_ok ?h (Some y) ga"
    and y: "0 < y" "y < length ?h" "parent (?h ! y) = Some g"
    and g: "0 < g" "g < length ?h"
    and D: "distinct (before c @ inorder (Node u g (Node be y ga)) @ after c)"
    by (simp_all add: zip_ok_def)
  have pa: "parent (?h ! raddr ga) = Some y" using sub_ok_raddr [OF S ga] by simp
  have xg: "y \<noteq> g" using D by auto
  have Za: "zip_ok ta ((Rgt, y, be) # (Rgt, g, u) # c) ga" and sa: "same_content t ta"
    and ma: "mef (nodes ta) = mef ?h" "enf (nodes ta) = enf ?h"
    and ca: "colf (nodes ta) = (colf ?h)(y := BLACK)"
    unfolding ta_def using set_color_ok [OF Z y(1), of BLACK] y(2) by simp_all
  have la: "length (nodes ta) = length ?h" by (simp add: ta_def)
  have Zb: "zip_ok tb ((Rgt, y, be) # (Rgt, g, u) # c) ga" and sb: "same_content ta tb"
    and mb: "mef (nodes tb) = mef (nodes ta)" "enf (nodes tb) = enf (nodes ta)"
    and cb: "colf (nodes tb) = (colf (nodes ta))(g := RED)"
    unfolding tb_def using set_color_ok [OF Za g(1), of RED] g(2) la by simp_all
  have Zb': "zip_ok tb c (Node u g (Node be y ga))" using Zb by (simp add: zip_ok_up)
  have Mb: "maxinv (mef (nodes tb)) (enf (nodes tb)) (plug c (Node u g (Node be y ga)))"
    using M by (simp add: ma mb)
  have colb: "colf (nodes tb) = (colf ?h)(y := BLACK, g := RED)" by (simp add: ca cb)
  have stb: "same_content t tb" using sa sb by (rule same_content_trans)
  have nw0: "colf (nodes tb) w \<noteq> colf (nodes tb) g"
    if "c = (d, gg, Node Leaf w Leaf) # c'" for d gg w c'
  proof -
    have "w \<noteq> y" "w \<noteq> g" using D that by (cases d; auto)+
    thus ?thesis using bs that by (simp add: colb)
  qed
  hence nw: "\<forall>d gg w c'. c = (d, gg, Node Leaf w Leaf) # c' \<longrightarrow> u = Leaf \<longrightarrow> be = Leaf
              \<longrightarrow> colf (nodes tb) w \<noteq> colf (nodes tb) g"
    by blast
  have unf: "fixup_right_tail t (raddr ga) = bind (left_rotate tb (Some g)) (\<lambda>t2. Inr (t2, Some (raddr ga)))"
    using y xg by (simp add: fixup_right_tail_def pa Let_def tb_def ta_def)
  from left_rotate_ok [OF Zb' Mb nw]
  consider (err) "left_rotate tb (Some g) = Inl RecursionError"
      "dup (nodes tb) (set_tree (plug c (Node u g (Node be y ga))))"
    | (ok) t2 where "left_rotate tb (Some g) = Inr t2" "zip_ok t2 c (Node (Node u g be) y ga)"
      "same_content tb t2" "colf (nodes t2) = colf (nodes tb)"
      "maxinv (mef (nodes t2)) (enf (nodes t2)) (plug c (Node (Node u g be) y ga))"
    by blast
  thus ?thesis
  proof cases
    case err
    have "pay (nodes tb) = pay ?h" using stb by (simp add: same_content_def)
    thus ?thesis using err by (simp add: unf dup_def)
  next
    case ok
    have "zip_ok t2 ((Rgt, y, Node u g be) # c) ga" using ok(2) by (simp add: zip_ok_up)
    moreover have "same_content t t2" using stb ok(3) by (rule same_content_trans)
    ultimately show ?thesis using ok by (simp add: unf colb)
  qed
qed

lemma fixup_right_rot_ok:
  assumes F: "fix_inv t ((d, p, s) # (Rgt, g, u) # c) (Node r cc l)"
    and p: "colf (nodes t) p = RED" and u: "rcol (colf (nodes t)) u = BLACK"
  shows "(fixup_right_rot t cc p = Inl RecursionError
            \<and> dup (nodes t) (set_tree (plug ((d, p, s) # (Rgt, g, u) # c) (Node r cc l))))
       \<or> (\<exists>t1 c1 sub1. fixup_right_rot t cc p = Inr (t1, ref_of sub1) \<and> fix_inv t1 c1 sub1
            \<and> same_content t t1
            \<and> inorder (plug c1 sub1) = inorder (plug ((d, p, s) # (Rgt, g, u) # c) (Node r cc l))
            \<and> length c1 < Suc (Suc (length c)))"
proof -
  let ?h = "nodes t" and ?C = "(d, p, s) # (Rgt, g, u) # c" and ?sub = "Node r cc l"
  let ?col = "colf ?h"
  from F have Z: "zip_ok t ?C ?sub" and CF: "cfix ?col ?C ?sub"
    and M: "maxinv (mef ?h) (enf ?h) (plug ?C ?sub)"
    by (simp_all add: fix_inv_def)
  from Z have H: "heap_ok ?h" and S: "sub_ok ?h (Some p) ?sub" and C: "ctx_ok ?h ?C (Some cc)"
    and D: "distinct (before ?C @ inorder ?sub @ after ?C)"
    by (simp_all add: zip_ok_def)
  from CF have cc: "?col cc = RED" by (simp add: cfix_def)
  have sb: "rcol ?col s = BLACK" by (rule fix_inv_parent_red(1) [OF F p])
  have gb: "?col g = BLACK" and a: "cinv ?col c BLACK (Suc (bh ?col ?sub))"
    using fix_inv_parent_red(2) [OF F p] by auto
  have bs: "\<forall>d2 gg w c'. c = (d2, gg, Node Leaf w Leaf) # c' \<longrightarrow> ?col w = BLACK"
    using a cinv_sibling_black by blast
  have st: "set_tree (plug ?C ?sub) = set (before ?C @ inorder ?sub @ after ?C)"
    by (simp only: set_inorder [symmetric] inorder_plug)
  from cmp_left_child [OF H S C D]
  consider (ok) "eq ?h (Some cc) (left (?h ! p)) = Inr (d = Lft)"
    | (rec) "eq ?h (Some cc) (left (?h ! p)) = Inl RecursionError" "d = Rgt" "s \<noteq> Leaf"
        "pay ?h (raddr s) = pay ?h cc"
    | (twin) "d = Rgt" "\<exists>w. s = Node Leaf w Leaf \<and> ?col w = ?col cc"
    by blast
  thus ?thesis
  proof cases
    case twin
    thus ?thesis using sb cc by auto
  next
    case rec
    have "raddr s \<in> set_tree (plug ?C ?sub)" "cc \<in> set_tree (plug ?C ?sub)"
      using raddr_in [OF rec(3)] rec(2) unfolding st by auto
    moreover have "raddr s \<noteq> cc" using raddr_in [OF rec(3)] rec(2) D by auto
    ultimately have "dup ?h (set_tree (plug ?C ?sub))" using rec(4) unfolding dup_def by blast
    thus ?thesis using rec(1) by (simp add: fixup_right_rot_def)
  next
    case ok
    show ?thesis
    proof (cases d)
      case Rgt
      have unf: "fixup_right_rot t cc p = fixup_right_tail t (raddr ?sub)"
        using ok Rgt by (simp add: fixup_right_rot_def)
      have Z1: "zip_ok t ((Rgt, p, s) # (Rgt, g, u) # c) ?sub" using Z Rgt by simp
      have M1: "maxinv (mef ?h) (enf ?h) (plug c (Node u g (Node s p ?sub)))"
        using M Rgt by simp
      from fixup_right_tail_ok [OF Z1 _ M1 bs]
      consider (err) "fixup_right_tail t (raddr ?sub) = Inl RecursionError"
          "dup ?h (set_tree (plug c (Node u g (Node s p ?sub))))"
        | (ok2) t2 where "fixup_right_tail t (raddr ?sub) = Inr (t2, Some (raddr ?sub))"
          "zip_ok t2 ((Rgt, p, Node u g s) # c) ?sub" "same_content t t2"
          "colf (nodes t2) = ?col (p := BLACK, g := RED)"
          "maxinv (mef (nodes t2)) (enf (nodes t2)) (plug c (Node (Node u g s) p ?sub))"
        by blast
      thus ?thesis
      proof cases
        case err
        thus ?thesis using Rgt by (simp add: unf)
      next
        case ok2
        have "cfix (colf (nodes t2)) ((Rgt, p, Node u g s) # c) ?sub"
          unfolding ok2(4) using CF D p u unfolding Rgt by (rule cfix_rot_rr)
        hence "fix_inv t2 ((Rgt, p, Node u g s) # c) ?sub"
          using ok2 by (simp add: fix_inv_def)
        moreover have "inorder (plug ((Rgt, p, Node u g s) # c) ?sub) = inorder (plug ?C ?sub)"
          using Rgt by (simp add: inorder_plug)
        ultimately show ?thesis using ok2(1,3) unfolding unf
          by (intro disjI2 exI [of _ t2] exI [of _ "(Rgt, p, Node u g s) # c"] exI [of _ ?sub]) simp
      qed
    next
      case Lft
      have Z2: "zip_ok t ((Rgt, g, u) # c) (Node ?sub p s)" using Z Lft by (simp add: zip_ok_up)
      have M2: "maxinv (mef ?h) (enf ?h) (plug ((Rgt, g, u) # c) (Node ?sub p s))"
        using M Lft by simp
      have nw: "\<forall>d0 g0 w c'. (Rgt, g, u) # c = (d0, g0, Node Leaf w Leaf) # c' \<longrightarrow> s = Leaf \<longrightarrow> l = Leaf
                  \<longrightarrow> ?col w \<noteq> ?col p"
        using u p by auto
      have sets: "set_tree (plug ((Rgt, g, u) # c) (Node ?sub p s)) = set_tree (plug ?C ?sub)"
        using Lft by simp
      from right_rotate_ok [OF Z2 M2 nw]
      consider (err) "right_rotate t (Some p) = Inl RecursionError" "dup ?h (set_tree (plug ?C ?sub))"
        | (ok1) t1 where "right_rotate t (Some p) = Inr t1"
          "zip_ok t1 ((Rgt, g, u) # c) (Node r cc (Node l p s))" "same_content t t1"
          "colf (nodes t1) = ?col"
          "maxinv (mef (nodes t1)) (enf (nodes t1)) (plug ((Rgt, g, u) # c) (Node r cc (Node l p s)))"
        unfolding sets by blast
      thus ?thesis
      proof cases
        case err
        thus ?thesis using ok Lft by (simp add: fixup_right_rot_def)
      next
        case ok1
        have unf: "fixup_right_rot t cc p = fixup_right_tail t1 (raddr (Node l p s))"
          using ok Lft ok1(1) by (simp add: fixup_right_rot_def)
        have Z3: "zip_ok t1 ((Rgt, cc, r) # (Rgt, g, u) # c) (Node l p s)"
          using ok1(2) by (simp add: zip_ok_up)
        have M3: "maxinv (mef (nodes t1)) (enf (nodes t1)) (plug c (Node u g (Node r cc (Node l p s))))"
          using ok1(5) by simp
        have bs1: "\<forall>d2 gg w c'. c = (d2, gg, Node Leaf w Leaf) # c' \<longrightarrow> colf (nodes t1) w = BLACK"
          using bs by (simp add: ok1(4))
        have p1: "pay (nodes t1) = pay ?h" using ok1(3) by (simp add: same_content_def)
        have sets1: "set_tree (plug c (Node u g (Node r cc (Node l p s)))) = set_tree (plug ?C ?sub)"
          using Lft by (auto simp: set_tree_plug)
        from fixup_right_tail_ok [OF Z3 _ M3 bs1]
        consider (err2) "fixup_right_tail t1 (raddr (Node l p s)) = Inl RecursionError"
            "dup (nodes t1) (set_tree (plug c (Node u g (Node r cc (Node l p s)))))"
          | (ok2) t2 where "fixup_right_tail t1 (raddr (Node l p s)) = Inr (t2, Some (raddr (Node l p s)))"
            "zip_ok t2 ((Rgt, cc, Node u g r) # c) (Node l p s)" "same_content t1 t2"
            "colf (nodes t2) = ?col (cc := BLACK, g := RED)"
            "maxinv (mef (nodes t2)) (enf (nodes t2)) (plug c (Node (Node u g r) cc (Node l p s)))"
          unfolding ok1(4) by blast
        thus ?thesis
        proof cases
          case err2
          thus ?thesis unfolding unf sets1 by (simp add: dup_def p1)
        next
          case ok2
          have "cfix (colf (nodes t2)) ((Rgt, cc, Node u g r) # c) (Node l p s)"
            unfolding ok2(4) using CF D p u unfolding Lft by (rule cfix_rot_lr)
          hence "fix_inv t2 ((Rgt, cc, Node u g r) # c) (Node l p s)"
            using ok2 by (simp add: fix_inv_def)
          moreover have "inorder (plug ((Rgt, cc, Node u g r) # c) (Node l p s)) = inorder (plug ?C ?sub)"
            using Lft by (simp add: inorder_plug)
          moreover have "same_content t t2" using ok1(3) ok2(3) by (rule same_content_trans)
          ultimately show ?thesis using ok2(1) unfolding unf
            by (intro disjI2 exI [of _ t2] exI [of _ "(Rgt, cc, Node u g r) # c"]
                  exI [of _ "Node l p s"]) simp
        qed
      qed
    qed
  qed
qed

lemma color_raddr: "heap_ok h \<Longrightarrow> color (h ! raddr u) = rcol (colf h) u"
  by (cases u) (simp_all add: heap_ok_nil_fields colf_def)

lemma fixup_recolor_ok:
  assumes F: "fix_inv t ((d, p, s) # (d', g, u) # c) sub"
    and p: "colf (nodes t) p = RED" and u: "rcol (colf (nodes t)) u = RED"
  shows "\<exists>t1. fixup_recolor t a p (raddr u) = (t1, Some g)
           \<and> fix_inv t1 c (up (d', g, u) (up (d, p, s) sub)) \<and> same_content t t1"
proof -
  let ?h = "nodes t" and ?C = "(d, p, s) # (d', g, u) # c"
  let ?col = "colf ?h"
  define w where "w = raddr u"
  define ta where "ta = t\<lparr>nodes := ?h[p := (?h ! p)\<lparr>color := BLACK\<rparr>]\<rparr>"
  define tb where "tb = ta\<lparr>nodes := (nodes ta)[w := (nodes ta ! w)\<lparr>color := BLACK\<rparr>]\<rparr>"
  define tc where "tc = tb\<lparr>nodes := (nodes tb)[g := (nodes tb ! g)\<lparr>color := RED\<rparr>]\<rparr>"
  from F have Z: "zip_ok t ?C sub" and CF: "cfix ?col ?C sub"
    and M: "maxinv (mef ?h) (enf ?h) (plug ?C sub)"
    by (simp_all add: fix_inv_def)
  from Z have D: "distinct (before ?C @ inorder sub @ after ?C)" by (simp add: zip_ok_def)
  from Z have pp: "0 < p" "p < length ?h" "parent (?h ! p) = Some g"
    and g: "0 < g" "g < length ?h" and Su: "sub_ok ?h (Some g) u"
    by (cases d; cases d'; simp add: zip_ok_def)+
  have uL: "u \<noteq> Leaf" using u by auto
  have w: "0 < w" "w < length ?h" using sub_ok_raddr [OF Su uL] by (simp_all add: w_def)
  have wp: "w \<noteq> p" using D raddr_in [OF uL] by (cases d; cases d'; auto simp: w_def)
  have Za: "zip_ok ta ?C sub" and sa: "same_content t ta"
    and ma: "mef (nodes ta) = mef ?h" "enf (nodes ta) = enf ?h"
    and ca: "colf (nodes ta) = ?col (p := BLACK)"
    unfolding ta_def using set_color_ok [OF Z pp(1), of BLACK] pp(2) by simp_all
  have la: "length (nodes ta) = length ?h" by (simp add: ta_def)
  have Zb: "zip_ok tb ?C sub" and sb: "same_content ta tb"
    and mb: "mef (nodes tb) = mef (nodes ta)" "enf (nodes tb) = enf (nodes ta)"
    and cb: "colf (nodes tb) = (colf (nodes ta))(w := BLACK)"
    unfolding tb_def using set_color_ok [OF Za w(1), of BLACK] w(2) la by simp_all
  have lb: "length (nodes tb) = length ?h" by (simp add: tb_def la)
  have Zc: "zip_ok tc ?C sub" and sc: "same_content tb tc"
    and mc: "mef (nodes tc) = mef (nodes tb)" "enf (nodes tc) = enf (nodes tb)"
    and cc: "colf (nodes tc) = (colf (nodes tb))(g := RED)"
    unfolding tc_def using set_color_ok [OF Zb g(1), of RED] g(2) lb by simp_all
  have col: "colf (nodes tc) = ?col (p := BLACK, raddr u := BLACK, g := RED)"
    by (simp add: ca cb cc w_def)
  have "cfix (colf (nodes tc)) c (up (d', g, u) (up (d, p, s) sub))"
    unfolding col using CF D p u by (rule cfix_recolor)
  moreover have "zip_ok tc c (up (d', g, u) (up (d, p, s) sub))"
    using Zc by (simp only: zip_ok_up)
  moreover have "maxinv (mef (nodes tc)) (enf (nodes tc)) (plug c (up (d', g, u) (up (d, p, s) sub)))"
    using M by (simp only: ma mb mc plug_Cons)
  ultimately have "fix_inv tc c (up (d', g, u) (up (d, p, s) sub))" by (simp add: fix_inv_def)
  moreover have "same_content t tc" using sa sb sc by (blast intro: same_content_trans)
  moreover have "fixup_recolor t a p (raddr u) = (tc, Some g)"
    using pp w wp by (simp add: fixup_recolor_def Let_def tc_def tb_def ta_def w_def [symmetric])
  ultimately show ?thesis by blast
qed


lemma fixup_step_ok:
  assumes F: "fix_inv t ((d, p, s) # c0) sub" and p: "colf (nodes t) p = RED"
  shows "(fixup_step t (ref_of sub) = Inl RecursionError
            \<and> dup (nodes t) (set_tree (plug ((d, p, s) # c0) sub)))
       \<or> (\<exists>t1 c1 sub1. fixup_step t (ref_of sub) = Inr (t1, ref_of sub1) \<and> fix_inv t1 c1 sub1
            \<and> same_content t t1
            \<and> inorder (plug c1 sub1) = inorder (plug ((d, p, s) # c0) sub)
            \<and> length c1 < length ((d, p, s) # c0))"
proof -
  let ?h = "nodes t"
  let ?col = "colf ?h"
  obtain d' g u c where c0: "c0 = (d', g, u) # c" and gb: "?col g = BLACK"
    using fix_inv_parent_red(2) [OF F p] by blast
  let ?C = "(d, p, s) # (d', g, u) # c"
  from F have Z: "zip_ok t ?C sub" and CF: "cfix ?col ?C sub"
    by (simp_all add: fix_inv_def c0)
  from CF obtain l a r where sub: "sub = Node l a r" by (cases sub) (auto simp: cfix_def)
  from Z have H: "heap_ok ?h" and D: "distinct (before ?C @ inorder sub @ after ?C)"
    and pa: "parent (?h ! a) = Some p"
    by (simp_all add: zip_ok_def sub)
  from Z have pp: "parent (?h ! p) = Some g" by (cases d; simp add: zip_ok_def)
  have Z1: "zip_ok t ((d', g, u) # c) (up (d, p, s) sub)" using Z by (simp only: zip_ok_up)
  obtain ul ur where U: "up (d, p, s) sub = Node ul p ur" "ul \<noteq> Leaf \<or> ur \<noteq> Leaf"
    by (cases d) (auto simp: sub)
  from Z1 have S1: "sub_ok ?h (Some g) (Node ul p ur)"
    and C1: "ctx_ok ?h ((d', g, u) # c) (Some p)"
    and D1: "distinct (before ((d', g, u) # c) @ inorder (Node ul p ur) @ after ((d', g, u) # c))"
    by (simp_all add: zip_ok_def U)
  have st: "set_tree (plug ?C sub) = set (before ((d', g, u) # c) @ inorder (Node ul p ur)
              @ after ((d', g, u) # c))"
    unfolding plug_Cons [of "(d, p, s)"] U by (simp only: set_inorder [symmetric] inorder_plug)
  have ug: "(if d' = Lft then right (?h ! g) else left (?h ! g)) = Some (raddr u)"
    using C1 by (cases d') (simp_all add: ref_of_raddr)
  have uc: "color (?h ! raddr u) = rcol ?col u" by (rule color_raddr [OF H])
  from cmp_left_child [OF H S1 C1 D1] U(2)
  consider (ok) "eq ?h (Some p) (left (?h ! g)) = Inr (d' = Lft)"
    | (rec) "eq ?h (Some p) (left (?h ! g)) = Inl RecursionError" "d' = Rgt" "u \<noteq> Leaf"
        "pay ?h (raddr u) = pay ?h p"
    by blast
  thus ?thesis
  proof cases
    case rec
    have "raddr u \<in> set_tree (plug ?C sub)" "p \<in> set_tree (plug ?C sub)"
      using raddr_in [OF rec(3)] rec(2) unfolding st by auto
    moreover have "raddr u \<noteq> p" using raddr_in [OF rec(3)] rec(2) D1 by auto
    ultimately have "dup ?h (set_tree (plug ?C sub))" using rec(4) unfolding dup_def by blast
    thus ?thesis using rec(1) by (simp add: fixup_step_def sub pa pp c0)
  next
    case ok
    show ?thesis
    proof (cases "rcol ?col u = RED")
      case True
      have unf: "fixup_step t (ref_of sub) = Inr (fixup_recolor t a p (raddr u))"
        using ok ug uc True by (cases d') (simp_all add: fixup_step_def sub pa pp)
      from fixup_recolor_ok [OF F [unfolded c0] p True, of a]
      obtain t1 where 1: "fixup_recolor t a p (raddr u) = (t1, Some g)"
        "fix_inv t1 c (up (d', g, u) (up (d, p, s) sub))" "same_content t t1"
        by blast
      have r: "ref_of (up (d', g, u) (up (d, p, s) sub)) = Some g" by (cases d') simp_all
      show ?thesis unfolding unf 1(1) c0 using 1(2,3) r
        by (intro disjI2 exI [of _ t1] exI [of _ c] exI [of _ "up (d', g, u) (up (d, p, s) sub)"])
           (simp add: plug_Cons del: plug.simps)
    next
      case False
      hence ub: "rcol ?col u = BLACK" by (cases "rcol ?col u") auto
      show ?thesis
      proof (cases d')
        case Lft
        have unf: "fixup_step t (ref_of sub) = fixup_left_rot t a p"
          using ok ug uc ub Lft by (simp add: fixup_step_def sub pa pp)
        from fixup_left_rot_ok [OF F [unfolded c0 Lft sub] p ub]
        show ?thesis unfolding unf unfolding c0 Lft sub by simp
      next
        case Rgt
        have unf: "fixup_step t (ref_of sub) = fixup_right_rot t a p"
          using ok ug uc ub Rgt by (simp add: fixup_step_def sub pa pp)
        from fixup_right_rot_ok [OF F [unfolded c0 Rgt sub] p ub]
        show ?thesis unfolding unf unfolding c0 Rgt sub by simp
      qed
    qed
  qed
qed


lemma dup_same:
  assumes "dup (nodes t1) (set_tree T1)" "same_content t t1" "inorder T1 = inorder T"
  shows "dup (nodes t) (set_tree T)"
proof -
  have "set_tree T1 = set_tree T" using assms(3) by (metis set_inorder)
  thus ?thesis using assms(1,2) by (simp add: dup_def same_content_def)
qed

lemma fixup_loop_ok:
  "fix_inv t c sub \<Longrightarrow>
     (fixup_loop t (ref_of sub) = Some (Inl RecursionError) \<and> dup (nodes t) (set_tree (plug c sub)))
   \<or> (\<exists>t' c' sub'. fixup_loop t (ref_of sub) = Some (Inr t') \<and> fix_inv t' c' sub'
         \<and> same_content t t' \<and> inorder (plug c' sub') = inorder (plug c sub)
         \<and> (c' = [] \<or> colf (nodes t') (paddr c') = BLACK))"
proof (induction "length c" arbitrary: t c sub rule: less_induct)
  case less
  let ?h = "nodes t"
  let ?col = "colf ?h"
  note F = less.prems
  from F have Z: "zip_ok t c sub" and CF: "cfix ?col c sub" by (simp_all add: fix_inv_def)
  from CF obtain l a r where sub: "sub = Node l a r" by (cases sub) (auto simp: cfix_def)
  from Z have H: "heap_ok ?h" and pa: "parent (?h ! a) = Some (paddr c)"
    by (simp_all add: zip_ok_def sub par_paddr)
  have len: "0 < length ?h" using H by (simp add: heap_ok_def)
  have stop: ?case if "fixup_cond t (Some a) = Inr False" "c = [] \<or> ?col (paddr c) = BLACK"
  proof -
    have "fixup_loop t (ref_of sub) = Some (Inr t)"
      by (subst fixup_loop.simps) (simp add: sub that(1))
    thus ?thesis using F that(2) same_content_refl by blast
  qed
  show ?case
  proof (cases c)
    case Nil
    have "fixup_cond t (Some a) = Inr False"
      using pa Nil ne_nil [OF H len] by (simp add: fixup_cond_def)
    thus ?thesis using Nil by (intro stop) simp_all
  next
    case (Cons f c0)
    obtain d p s where f: "f = (d, p, s)" by (cases f)
    have c: "c = (d, p, s) # c0" using Cons f by simp
    from Z have p: "0 < p" "p < length ?h" by (cases d; simp add: zip_ok_def c)+
    have cond: "fixup_cond t (Some a) = Inr (?col p = RED)"
      using pa c ne_nil [OF H p(2)] p(1) by (simp add: fixup_cond_def colf_def)
    show ?thesis
    proof (cases "?col p = RED")
      case False
      hence "?col p = BLACK" by (cases "?col p") auto
      thus ?thesis using cond False c by (intro stop) simp_all
    next
      case True
      have unf: "fixup_loop t (ref_of sub)
          = (case fixup_step t (ref_of sub) of Inl e \<Rightarrow> Some (Inl e)
             | Inr (t1, node1) \<Rightarrow> fixup_loop t1 node1)"
        by (subst fixup_loop.simps) (simp add: sub cond True)
      from fixup_step_ok [OF F [unfolded c] True]
      consider (err) "fixup_step t (ref_of sub) = Inl RecursionError"
          "dup ?h (set_tree (plug c sub))"
        | (ok) t1 c1 sub1 where "fixup_step t (ref_of sub) = Inr (t1, ref_of sub1)"
          "fix_inv t1 c1 sub1" "same_content t t1"
          "inorder (plug c1 sub1) = inorder (plug c sub)" "length c1 < length c"
        unfolding c by blast
      thus ?thesis
      proof cases
        case err
        thus ?thesis unfolding unf by simp
      next
        case ok
        have unf2: "fixup_loop t (ref_of sub) = fixup_loop t1 (ref_of sub1)"
          unfolding unf ok(1) by simp
        from less.hyps [OF ok(5) ok(2)]
        consider (err2) "fixup_loop t1 (ref_of sub1) = Some (Inl RecursionError)"
            "dup (nodes t1) (set_tree (plug c1 sub1))"
          | (ok2) t' c' sub' where "fixup_loop t1 (ref_of sub1) = Some (Inr t')"
            "fix_inv t' c' sub'" "same_content t1 t'"
            "inorder (plug c' sub') = inorder (plug c1 sub1)"
            "c' = [] \<or> colf (nodes t') (paddr c') = BLACK"
          by blast
        thus ?thesis
        proof cases
          case err2
          thus ?thesis unfolding unf2 using dup_same [OF err2(2) ok(3) ok(4)] by simp
        next
          case ok2
          have "same_content t t'" using ok(3) ok2(3) by (rule same_content_trans)
          thus ?thesis unfolding unf2 using ok2 ok(4) by auto
        qed
      qed
    qed
  qed
qed


lemma plug_not_Leaf: "sub \<noteq> Leaf \<Longrightarrow> plug c sub \<noteq> Leaf"
  by (induction c sub rule: plug.induct) auto

lemma paint_root:
  assumes "invc col l" "invc col r" "invh col (Node l a r)" "a \<notin> set_tree l \<union> set_tree r"
  shows "invc (col(a := BLACK)) (Node l a r) \<and> invh (col(a := BLACK)) (Node l a r)"
proof -
  let ?col = "col(a := BLACK)"
  have "\<And>b. b \<in> set_tree l \<Longrightarrow> ?col b = col b" "\<And>b. b \<in> set_tree r \<Longrightarrow> ?col b = col b"
    using assms(4) by auto
  hence "invc ?col l = invc col l" "invh ?col l = invh col l" "bh ?col l = bh col l"
    "invc ?col r = invc col r" "invh ?col r = invh col r" "bh ?col r = bh col r"
    by (auto intro!: col_congs)
  thus ?thesis using assms(1,2,3) by simp
qed

lemma cfix_done:
  assumes F: "cfix col c sub" and b: "c = [] \<or> col (paddr c) = BLACK"
    and D: "distinct (inorder (plug c sub))"
  shows "plug c sub \<noteq> Leaf \<and> invc (col(raddr (plug c sub) := BLACK)) (plug c sub)
       \<and> invh (col(raddr (plug c sub) := BLACK)) (plug c sub)"
proof -
  from F have sub: "sub \<noteq> Leaf" by (auto simp: cfix_def)
  hence "plug c sub \<noteq> Leaf" by (rule plug_not_Leaf)
  then obtain L x R where T: "plug c sub = Node L x R" by (cases "plug c sub") auto
  have "invc col L \<and> invc col R \<and> invh col (Node L x R)"
  proof (cases c)
    case Nil
    thus ?thesis using F T by (auto simp: cfix_def)
  next
    case (Cons f c0)
    obtain d p s where f: "f = (d, p, s)" by (cases f)
    have "cinv col c (rcol col sub) (bh col sub)"
      using F b by (simp add: cfix_def Cons f)
    hence "invc col (plug c sub) \<and> invh col (plug c sub)"
      using F rb_plug [of col c sub] by (simp add: cfix_def)
    thus ?thesis by (simp add: T)
  qed
  moreover have "x \<notin> set_tree L \<union> set_tree R" using D by (auto simp: T)
  ultimately show ?thesis using paint_root [of col L R x] by (simp add: T)
qed

lemma insert_fixup_ok:
  assumes F: "fix_inv t c sub"
  shows "(insert_fixup t (ref_of sub) = Some (Inl RecursionError)
            \<and> dup (nodes t) (set_tree (plug c sub)))
       \<or> (\<exists>t' T. insert_fixup t (ref_of sub) = Some (Inr t') \<and> zip_ok t' [] T \<and> T \<noteq> Leaf
            \<and> inorder T = inorder (plug c sub) \<and> same_content t t'
            \<and> invc (colf (nodes t')) T \<and> invh (colf (nodes t')) T
            \<and> rcol (colf (nodes t')) T = BLACK
            \<and> maxinv (mef (nodes t')) (enf (nodes t')) T)"
proof -
  from F obtain l a r where sub: "sub = Node l a r"
    by (cases sub) (auto simp: fix_inv_def cfix_def)
  from fixup_loop_ok [OF F]
  consider (err) "fixup_loop t (ref_of sub) = Some (Inl RecursionError)"
      "dup (nodes t) (set_tree (plug c sub))"
    | (ok) t1 c1 sub1 where "fixup_loop t (ref_of sub) = Some (Inr t1)" "fix_inv t1 c1 sub1"
      "same_content t t1" "inorder (plug c1 sub1) = inorder (plug c sub)"
      "c1 = [] \<or> colf (nodes t1) (paddr c1) = BLACK"
    by blast
  thus ?thesis
  proof cases
    case err
    thus ?thesis by (simp add: insert_fixup_def sub)
  next
    case ok
    let ?T = "plug c1 sub1" and ?h1 = "nodes t1"
    define x where "x = raddr ?T"
    define t2 where "t2 = t1\<lparr>nodes := ?h1[x := (?h1 ! x)\<lparr>color := BLACK\<rparr>]\<rparr>"
    from ok(2) have Z: "zip_ok t1 [] ?T" and CF: "cfix (colf ?h1) c1 sub1"
      and M: "maxinv (mef ?h1) (enf ?h1) ?T"
      by (simp_all add: fix_inv_def zip_ok_plug [symmetric])
    from Z have D: "distinct (inorder ?T)" and rt: "root t1 = ref_of ?T"
      and S: "sub_ok ?h1 (Some 0) ?T"
      by (simp_all add: zip_ok_def)
    from cfix_done [OF CF ok(5) D]
    have TL: "?T \<noteq> Leaf" and ic: "invc ((colf ?h1)(x := BLACK)) ?T"
      and ih: "invh ((colf ?h1)(x := BLACK)) ?T"
      by (simp_all add: x_def)
    have x: "0 < x" "x < length ?h1" using sub_ok_raddr [OF S TL] by (simp_all add: x_def)
    have rx: "root t1 = Some x" using rt by (simp add: ref_of_raddr x_def)
    have Z2: "zip_ok t2 [] ?T" and s2: "same_content t1 t2"
      and m2: "mef (nodes t2) = mef ?h1" "enf (nodes t2) = enf ?h1"
      and c2: "colf (nodes t2) = (colf ?h1)(x := BLACK)"
      unfolding t2_def using set_color_ok [OF Z x(1), of BLACK] x(2) by simp_all
    have "rcol (colf (nodes t2)) ?T = BLACK"
      using TL by (cases ?T) (simp_all add: c2 x_def)
    moreover have "insert_fixup t (ref_of sub) = Some (Inr t2)"
      by (simp add: insert_fixup_def sub ok(1) [unfolded sub, simplified] rx t2_def)
    moreover have "same_content t t2" using ok(3) s2 by (rule same_content_trans)
    ultimately show ?thesis using Z2 TL ok(4) ic ih M by (auto simp: c2 m2)
  qed
qed

section \<open>\<open>insert\<close> keeps the invariant\<close>

lemma update_max_end_sub:
  assumes H: "heap_ok h" and S: "sub_ok h q (Node l a r)" and D: "distinct (inorder (Node l a r))"
  shows "update_max_end h (Some a)
           = Inr (h[a := (h ! a)\<lparr>max_end := max3 (enf h a) (rme (mef h) l) (rme (mef h) r)\<rparr>])"
proof -
  from H have len: "0 < length h" by (simp add: heap_ok_def)
  from S have a: "0 < a" "a < length h" and Sl: "sub_ok h (Some a) l" and Sr: "sub_ok h (Some a) r"
    and l: "left (h ! a) = Some (raddr l)" and r: "right (h ! a) = Some (raddr r)"
    by (simp_all add: ref_of_raddr)
  have ll: "raddr l < length h" "raddr l \<noteq> a"
    using raddr_less [OF Sl len] raddr_in [of l] raddr_0 [OF Sl] D a by auto
  have rr: "raddr r < length h" "raddr r \<noteq> a"
    using raddr_less [OF Sr len] raddr_in [of r] raddr_0 [OF Sr] D a by auto
  show ?thesis
    unfolding update_max_end_node [OF H a l ll r rr] rme_raddr [OF Sl] rme_raddr [OF Sr] enf_def ..
qed

lemma descend_plug: "plug (descend st s c T) Leaf = plug c T"
  by (induction T arbitrary: c) auto

lemma insert_descend_ok:
  assumes H: "heap_ok h"
  shows "sub_ok h (par c) T \<Longrightarrow> distinct (inorder T) \<Longrightarrow> maxinv (mef h) (enf h) T
     \<Longrightarrow> insert_descend h s (ref_of T) (par c) = Some (Inr (h, par (descend (stf h) s c T)))"
proof (induction T arbitrary: c)
  case Leaf
  from H have len: "0 < length h" by (simp add: heap_ok_def)
  show ?case
    by (subst insert_descend.simps) (simp add: ne_nil [OF H len, unfolded nil_def] nil_def)
next
  case (Node l a r)
  from Node.prems have a: "0 < a" "a < length h" by simp_all
  have u: "update_max_end h (Some a) = Inr h"
    using Node.prems(3) unfolding update_max_end_sub [OF H Node.prems(1,2)]
    by (simp add: mef_def [of h a] list_update_same_conv a)
  have n: "ne h (Some a) nil = Inr True" using ne_nil [OF H a(2)] a(1) by simp
  have unf: "insert_descend h s (ref_of (Node l a r)) (par c)
      = insert_descend h s (if s \<le> stf h a then ref_of l else ref_of r) (Some a)"
    using Node.prems(1) by (subst insert_descend.simps) (simp add: n u stf_def)
  show ?case
  proof (cases "s \<le> stf h a")
    case True
    have "insert_descend h s (ref_of l) (par ((Lft, a, r) # c))
        = Some (Inr (h, par (descend (stf h) s ((Lft, a, r) # c) l)))"
      using Node.prems by (intro Node.IH(1)) simp_all
    thus ?thesis unfolding unf using True by simp
  next
    case False
    have "insert_descend h s (ref_of r) (par ((Rgt, a, l) # c))
        = Some (Inr (h, par (descend (stf h) s ((Rgt, a, l) # c) r)))"
      using Node.prems by (intro Node.IH(2)) simp_all
    thus ?thesis unfolding unf using False by simp
  qed
qed


lemma descend_head:
  "(descend st s c T = c \<and> T = Leaf)
   \<or> (\<exists>d pa sib c0. descend st s c T = (d, pa, sib) # c0 \<and> (d = Lft) = (s \<le> st pa))"
proof (induction T arbitrary: c)
  case Leaf
  show ?case by simp
next
  case (Node l a r)
  show ?case
  proof (cases "s \<le> st a")
    case True
    from Node.IH(1) [of "(Lft, a, r) # c"] True show ?thesis by auto
  next
    case False
    from Node.IH(2) [of "(Rgt, a, l) # c"] False show ?thesis by auto
  qed
qed

lemma descend_bounds:
  "sorted (map st (inorder T)) \<Longrightarrow> \<forall>b \<in> set (before c). st b < s \<Longrightarrow> \<forall>b \<in> set (after c). s \<le> st b
     \<Longrightarrow> (\<forall>b \<in> set (before (descend st s c T)). st b < s)
         \<and> (\<forall>b \<in> set (after (descend st s c T)). s \<le> st b)"
proof (induction T arbitrary: c)
  case Leaf
  thus ?case by simp
next
  case (Node l a r)
  from Node.prems(1) have sl: "sorted (map st (inorder l))" and sr: "sorted (map st (inorder r))"
    and la: "\<forall>b \<in> set (inorder l). st b \<le> st a" and ar: "\<forall>b \<in> set (inorder r). st a \<le> st b"
    by (auto simp: sorted_append)
  show ?case
  proof (cases "s \<le> st a")
    case True
    have A: "\<forall>b \<in> set (after ((Lft, a, r) # c)). s \<le> st b"
      using True ar Node.prems(3) by auto
    have B: "\<forall>b \<in> set (before ((Lft, a, r) # c)). st b < s"
      using Node.prems(2) by simp
    show ?thesis using Node.IH(1) [OF sl B A] True by simp
  next
    case False
    have B: "\<forall>b \<in> set (before ((Rgt, a, l) # c)). st b < s"
      using False la Node.prems(2) by auto
    have A: "\<forall>b \<in> set (after ((Rgt, a, l) # c)). s \<le> st b"
      using Node.prems(3) by simp
    show ?thesis using Node.IH(2) [OF sr B A] False by simp
  qed
qed

lemma sorted_insert_at:
  assumes "sorted (map st (xs @ ys))" "\<forall>b \<in> set xs. st b < s" "\<forall>b \<in> set ys. s \<le> st b"
    and "st' n = s" "\<forall>b \<in> set xs \<union> set ys. st' b = st b"
  shows "sorted (map st' (xs @ [n] @ ys))"
proof -
  have "map st' xs = map st xs" "map st' ys = map st ys" using assms(5) by auto
  hence E: "map st' (xs @ [n] @ ys) = map st xs @ [s] @ map st ys" using assms(4) by simp
  show ?thesis unfolding E using assms(1-3) by (auto simp: sorted_append less_imp_le)
qed

lemma sub_ok_append: "sub_ok h p t \<Longrightarrow> sub_ok (h @ xs) p t"
  by (induction t arbitrary: p) (auto simp: nth_append)

lemma ctx_ok_append: "ctx_ok h c r \<Longrightarrow> ctx_ok (h @ xs) c r"
  by (induction h c r rule: ctx_ok.induct) (auto simp: nth_append sub_ok_append)

lemma smaxinv_cong:
  "(\<And>a. a \<in> set (before c) \<union> set (after c) \<Longrightarrow> me' a = me a \<and> en' a = en a)
     \<Longrightarrow> smaxinv me' en' c = smaxinv me en c"
proof (induction c)
  case Nil
  show ?case by simp
next
  case (Cons f c)
  obtain d g s where f: "f = (d, g, s)" by (cases f)
  have s: "\<And>a. a \<in> set_tree s \<Longrightarrow> me' a = me a \<and> en' a = en a"
    and c: "\<And>a. a \<in> set (before c) \<union> set (after c) \<Longrightarrow> me' a = me a \<and> en' a = en a"
    using Cons.prems by (cases d; auto simp: f)+
  show ?case using maxinv_cong [of s me' me en' en, OF s] Cons.IH [OF c] by (simp add: f)
qed

lemma cmaxinv_smaxinv: "cmaxinv me en c m \<Longrightarrow> smaxinv me en c"
  by (induction me en c m rule: cmaxinv.induct) auto

lemma set_me_ok:
  fixes m :: int
  assumes Z: "zip_ok t c sub" and p: "0 < p"
  defines "t' \<equiv> t\<lparr>nodes := (nodes t)[p := (nodes t ! p)\<lparr>max_end := m\<rparr>]\<rparr>"
  shows "zip_ok t' c sub" "same_content t t'"
    "colf (nodes t') = colf (nodes t)" "enf (nodes t') = enf (nodes t)"
    "p < length (nodes t) \<Longrightarrow> mef (nodes t') = (mef (nodes t))(p := m)"
proof -
  let ?h = "nodes t" and ?h' = "(nodes t)[p := (nodes t ! p)\<lparr>max_end := m\<rparr>]"
  have n: "nodes t' = ?h'" "root t' = root t" "tsize t' = tsize t" by (simp_all add: t'_def)
  have l: "length ?h' = length ?h" by simp
  have f: "left (?h' ! i) = left (?h ! i) \<and> right (?h' ! i) = right (?h ! i)
         \<and> parent (?h' ! i) = parent (?h ! i) \<and> pay ?h' i = pay ?h i
         \<and> color (?h' ! i) = color (?h ! i) \<and> end' (?h' ! i) = end' (?h ! i)" for i
    by (cases "i = p"; cases "p < length ?h") (simp_all add: pay_def list_update_beyond)
  have z: "?h' ! 0 = ?h ! 0" using p by simp
  have H: "heap_ok ?h'"
    using Z heap_ok_same_left [of ?h ?h'] l z f by (simp add: zip_ok_def)
  show "zip_ok t' c sub"
    using Z H sub_ok_cong [OF l, of sub "par c"] ctx_ok_cong [OF l, of c "ref_of sub"] f
    by (simp add: zip_ok_def n)
  show "same_content t t'" using f by (auto simp: same_content_def n)
  show "colf (nodes t') = colf (nodes t)" using f by (auto simp: colf_def n)
  show "enf (nodes t') = enf (nodes t)" using f by (auto simp: enf_def n)
  show "p < length (nodes t) \<Longrightarrow> mef (nodes t') = (mef (nodes t))(p := m)"
    by (auto simp: mef_def n fun_eq_iff)
qed


lemma insert_update_ok:
  "zip_ok t c (Node l a r) \<Longrightarrow> maxinv (mef (nodes t)) (enf (nodes t)) l
     \<Longrightarrow> maxinv (mef (nodes t)) (enf (nodes t)) r \<Longrightarrow> smaxinv (mef (nodes t)) (enf (nodes t)) c
     \<Longrightarrow> \<exists>h'. insert_update (nodes t) (Some a) = Some (Inr h')
           \<and> zip_ok (t\<lparr>nodes := h'\<rparr>) c (Node l a r) \<and> same_content t (t\<lparr>nodes := h'\<rparr>)
           \<and> colf h' = colf (nodes t)
           \<and> maxinv (mef h') (enf h') (plug c (Node l a r))"
proof (induction c arbitrary: t l a r)
  case Nil
  let ?h = "nodes t"
  define m where "m = max3 (enf ?h a) (rme (mef ?h) l) (rme (mef ?h) r)"
  define t1 where "t1 = t\<lparr>nodes := ?h[a := (?h ! a)\<lparr>max_end := m\<rparr>]\<rparr>"
  let ?h1 = "nodes t1"
  note Z = Nil.prems(1)
  from Z have H: "heap_ok ?h" and S: "sub_ok ?h (Some 0) (Node l a r)"
    and D: "distinct (inorder (Node l a r))"
    by (simp_all add: zip_ok_def)
  from S have a: "0 < a" "a < length ?h" "parent (?h ! a) = Some 0" by simp_all
  have Z1: "zip_ok t1 [] (Node l a r)" and s1: "same_content t t1"
    and c1: "colf ?h1 = colf ?h" and e1: "enf ?h1 = enf ?h" and m1: "mef ?h1 = (mef ?h)(a := m)"
    unfolding t1_def using set_me_ok [OF Z a(1), of m] a(2) by simp_all
  have u: "update_max_end ?h (Some a) = Inr ?h1"
    unfolding update_max_end_sub [OF H S D] by (simp add: t1_def m_def)
  have n: "ne ?h (Some a) nil = Inr True" using ne_nil [OF H a(2)] a(1) by simp
  have H1: "heap_ok ?h1" using Z1 by (simp add: zip_ok_def)
  have len1: "0 < length ?h1" using H1 by (simp add: heap_ok_def)
  have p1: "parent (?h1 ! a) = Some 0" using a by (simp add: t1_def)
  have "insert_update ?h1 (Some 0) = Some (Inr ?h1)"
    by (subst insert_update.simps) (simp add: ne_nil [OF H1 len1, unfolded nil_def] nil_def)
  hence res: "insert_update ?h (Some a) = Some (Inr ?h1)"
    by (subst insert_update.simps) (simp add: n u p1)
  have k: "\<And>b. b \<in> set_tree l \<union> set_tree r \<Longrightarrow> (mef ?h1) b = mef ?h b \<and> enf ?h1 b = enf ?h b"
    using D by (auto simp: m1 e1)
  have "maxinv (mef ?h1) (enf ?h1) l = maxinv (mef ?h) (enf ?h) l"
    "maxinv (mef ?h1) (enf ?h1) r = maxinv (mef ?h) (enf ?h) r"
    "rme (mef ?h1) l = rme (mef ?h) l" "rme (mef ?h1) r = rme (mef ?h) r"
    using k by (auto intro!: maxinv_cong rme_cong)
  hence "maxinv (mef ?h1) (enf ?h1) (Node l a r)"
    using Nil.prems(2,3) by (simp add: m1 e1 m_def)
  moreover have "t\<lparr>nodes := ?h1\<rparr> = t1" by (simp add: t1_def)
  ultimately show ?case using res Z1 s1 c1 by auto
next
  case (Cons f c)
  let ?h = "nodes t"
  obtain d g s where f: "f = (d, g, s)" by (cases f)
  define m where "m = max3 (enf ?h a) (rme (mef ?h) l) (rme (mef ?h) r)"
  define t1 where "t1 = t\<lparr>nodes := ?h[a := (?h ! a)\<lparr>max_end := m\<rparr>]\<rparr>"
  let ?h1 = "nodes t1"
  note Z = Cons.prems(1)
  from Z have H: "heap_ok ?h" and S: "sub_ok ?h (Some g) (Node l a r)"
    and D0: "distinct (before (f # c) @ inorder (Node l a r) @ after (f # c))"
    by (simp_all add: zip_ok_def f)
  have D: "distinct (inorder (Node l a r))" using D0 by auto
  from S have a: "0 < a" "a < length ?h" "parent (?h ! a) = Some g" by simp_all
  have Z1: "zip_ok t1 (f # c) (Node l a r)" and s1: "same_content t t1"
    and c1: "colf ?h1 = colf ?h" and e1: "enf ?h1 = enf ?h" and m1: "mef ?h1 = (mef ?h)(a := m)"
    unfolding t1_def using set_me_ok [OF Z a(1), of m] a(2) by simp_all
  have u: "update_max_end ?h (Some a) = Inr ?h1"
    unfolding update_max_end_sub [OF H S D] by (simp add: t1_def m_def)
  have n: "ne ?h (Some a) nil = Inr True" using ne_nil [OF H a(2)] a(1) by simp
  have p1: "parent (?h1 ! a) = Some g" using a by (simp add: t1_def)
  have unf: "insert_update ?h (Some a) = insert_update ?h1 (Some g)"
    by (subst insert_update.simps) (simp add: n u p1)
  have k: "\<And>b. b \<in> set_tree l \<union> set_tree r \<union> set_tree s \<union> set (before c) \<union> set (after c)
              \<Longrightarrow> (mef ?h1) b = mef ?h b \<and> enf ?h1 b = enf ?h b"
    using D0 by (cases d) (auto simp: m1 e1 f)
  have "maxinv (mef ?h1) (enf ?h1) l = maxinv (mef ?h) (enf ?h) l"
    "maxinv (mef ?h1) (enf ?h1) r = maxinv (mef ?h) (enf ?h) r"
    "rme (mef ?h1) l = rme (mef ?h) l" "rme (mef ?h1) r = rme (mef ?h) r"
    using k by (auto intro!: maxinv_cong rme_cong)
  hence Ma: "maxinv (mef ?h1) (enf ?h1) (Node l a r)"
    using Cons.prems(2,3) by (simp add: m1 e1 m_def)
  have "maxinv (mef ?h1) (enf ?h1) s = maxinv (mef ?h) (enf ?h) s"
    using k by (auto intro!: maxinv_cong)
  hence Ms: "maxinv (mef ?h1) (enf ?h1) s" using Cons.prems(4) by (simp add: f)
  have "smaxinv (mef ?h1) (enf ?h1) c = smaxinv (mef ?h) (enf ?h) c"
    using k by (auto intro!: smaxinv_cong)
  hence Mc: "smaxinv (mef ?h1) (enf ?h1) c" using Cons.prems(4) by (simp add: f)
  obtain ul ur where U: "up f (Node l a r) = Node ul g ur"
    "maxinv (mef ?h1) (enf ?h1) ul" "maxinv (mef ?h1) (enf ?h1) ur"
    using Ma Ms by (cases d) (auto simp: f)
  have Z2: "zip_ok t1 c (Node ul g ur)" using Z1 by (simp add: zip_ok_up U)
  from Cons.IH [OF Z2 U(2,3) Mc]
  obtain h' where r: "insert_update ?h1 (Some g) = Some (Inr h')"
    "zip_ok (t1\<lparr>nodes := h'\<rparr>) c (Node ul g ur)" "same_content t1 (t1\<lparr>nodes := h'\<rparr>)"
    "colf h' = colf ?h1" "maxinv (mef h') (enf h') (plug c (Node ul g ur))"
    by blast
  have tt: "t1\<lparr>nodes := h'\<rparr> = t\<lparr>nodes := h'\<rparr>" by (simp add: t1_def)
  have "zip_ok (t\<lparr>nodes := h'\<rparr>) (f # c) (Node l a r)"
    using r(2) unfolding tt U(1) [symmetric] by (simp only: zip_ok_up)
  moreover have "same_content t (t\<lparr>nodes := h'\<rparr>)"
    using s1 r(3) unfolding tt by (rule same_content_trans)
  moreover have "maxinv (mef h') (enf h') (plug (f # c) (Node l a r))"
    using r(5) unfolding U(1) [symmetric] by (simp only: plug_Cons)
  ultimately show ?case using r(1,4) c1 unfolding unf by auto
qed

lemma descend_cong:
  "(\<And>a. a \<in> set_tree T \<Longrightarrow> st' a = st a) \<Longrightarrow> descend st' s c T = descend st s c T"
  by (induction T arbitrary: c) auto

lemma descend_nil: "descend st s c T = [] \<Longrightarrow> T = Leaf \<and> c = []"
  using descend_head [of st s c T] by auto

lemma insert_link:
  fixes s e i :: int
  assumes I: "tree_inv t T"
  defines "h \<equiv> nodes t" and "na \<equiv> length (nodes t)" and "c \<equiv> descend (stf (nodes t)) s [] T"
  shows "\<exists>t3. insert' t s e i
            = obind (insert_update (nodes t3) (Some na)) (\<lambda>h4.
              obind (insert_fixup (t3\<lparr>nodes := h4\<rparr>) (Some na)) (\<lambda>t5.
              Some (Inr (t5\<lparr>tsize := tsize t5 + 1\<rparr>))))
          \<and> zip_ok t3 c (Node Leaf na Leaf) \<and> tsize t3 = tsize t \<and> length (nodes t3) = Suc na
          \<and> (\<forall>a < na. pay (nodes t3) a = pay h a \<and> colf (nodes t3) a = colf h a
                \<and> mef (nodes t3) a = mef h a \<and> enf (nodes t3) a = enf h a)
          \<and> pay (nodes t3) na = (s, e, i) \<and> colf (nodes t3) na = RED"
proof -
  define nn where "nn = \<lparr>start = s, end' = e, slot_id = i, max_end = e,
                      left = nil, right = nil, parent = nil, color = RED\<rparr>"
  define h0 where "h0 = h @ [nn]"
  define h2 where "h2 = h0[na := (h0 ! na)\<lparr>parent := par c\<rparr>]"
  from I have H: "heap_ok h" and rt: "root t = (if T = Leaf then None else ref_of T)"
    and S: "sub_ok h (Some 0) T" and D: "distinct (inorder T)" and N: "set_tree T = {1..<na}"
    and M: "maxinv (mef h) (enf h) T"
    by (simp_all add: tree_inv_def Let_def h_def na_def)
  have len: "0 < na" using H by (simp add: heap_ok_def na_def h_def)
  have l0: "length h0 = Suc na" by (simp add: h0_def na_def h_def)
  have old0: "h0 ! a = h ! a" if "a < na" for a
    using that by (simp add: h0_def nth_append na_def h_def)
  have new0: "h0 ! na = nn" by (simp add: h0_def na_def h_def)
  have H0: "heap_ok h0"
    unfolding heap_ok_def
  proof (intro conjI allI impI)
    show "0 < length h0" by (simp add: l0)
    show "h0 ! 0 = nil_node" using old0 [OF len] H by (simp add: heap_ok_def)
    fix a assume "0 < a \<and> a < length h0"
    thus "left (h0 ! a) \<noteq> None"
      using old0 [of a] new0 heap_okD(3) [OF H, of a]
      by (cases "a = na") (auto simp: l0 nn_def nil_def na_def h_def)
  qed
  have inT: "\<And>a. a \<in> set_tree T \<Longrightarrow> 0 < a \<and> a < na" using N by auto
  have S0: "sub_ok h0 (Some 0) T" unfolding h0_def using S by (rule sub_ok_append)
  have st0: "\<And>a. a \<in> set_tree T \<Longrightarrow> stf h0 a = stf h a \<and> mef h0 a = mef h a \<and> enf h0 a = enf h a"
    using inT old0 by (simp add: stf_def mef_def enf_def)
  have M0: "maxinv (mef h0) (enf h0) T"
    using M maxinv_cong [of T "mef h0" "mef h" "enf h0" "enf h"] st0 by simp
  have c0: "descend (stf h0) s [] T = c"
    unfolding c_def h_def [symmetric] using st0 by (intro descend_cong) simp
  have pT: "plug c Leaf = T" unfolding c_def by (simp add: descend_plug)
  have inC: "set (before c) \<union> set (after c) = set_tree T"
    using set_tree_plug [of c Leaf] pT by simp
  have Dc: "distinct (before c @ after c)"
    using D inorder_plug [of c Leaf] pT by simp
  have C0: "ctx_ok h0 c (Some 0)"
    using S0 sub_ok_plug [of h0 c Leaf] pT by simp
  have d1: "insert_descend h0 s (root t) nil = Some (Inr (h0, par c))"
  proof (cases T)
    case Leaf
    hence "c = []" by (simp add: c_def)
    thus ?thesis using rt Leaf by (subst insert_descend.simps) (simp add: nil_def)
  next
    case (Node l a r)
    hence "root t = ref_of T" using rt by simp
    thus ?thesis
      using insert_descend_ok [OF H0, of "[]" T s] S0 D M0 by (simp add: c0 nil_def)
  qed
  have l2: "length h2 = Suc na" by (simp add: h2_def l0)
  have old2: "h2 ! a = h ! a" if "a < na" for a
    using that old0 [OF that] by (simp add: h2_def)
  have new2: "h2 ! na = nn\<lparr>parent := par c\<rparr>" by (simp add: h2_def new0 l0)
  have H2: "heap_ok h2"
    unfolding h2_def using H0 len by (intro heap_ok_update) (simp_all add: new0 nn_def nil_def)
  have pc: "paddr c < Suc na" "(paddr c = 0) = (c = [])"
    using ctx_ok_paddr [OF C0] inC inT [of "paddr c"] by (cases "c = []"; auto)+
  have e2: "eq h2 (par c) nil = Inr (c = [])"
    using eq_nil [OF H2, of "paddr c"] pc by (simp add: par_paddr l2)
  define t3 where "t3 =
     (if c = [] then t\<lparr>nodes := h2, root := Some na\<rparr>
      else if s \<le> stf h (paddr c)
           then t\<lparr>nodes := h2[paddr c := (h2 ! paddr c)\<lparr>left := Some na\<rparr>]\<rparr>
           else t\<lparr>nodes := h2[paddr c := (h2 ! paddr c)\<lparr>right := Some na\<rparr>]\<rparr>)"
  let ?rest = "\<lambda>t3. obind (insert_update (nodes t3) (Some na)) (\<lambda>h4.
              obind (insert_fixup (t3\<lparr>nodes := h4\<rparr>) (Some na)) (\<lambda>t5.
              Some (Inr (t5\<lparr>tsize := tsize t5 + 1\<rparr>))))"
  have ins0: "insert' t s e i
      = obind (insert_descend h0 s (root t) nil) (\<lambda>(h1, pr).
          obind (Some (bind (eq (h1[na := (h1 ! na)\<lparr>parent := pr\<rparr>]) pr nil)
                   (\<lambda>b. Inr (b \<or> pr = None)))) (\<lambda>no_parent.
          obind (if no_parent
                 then Some (Inr (t\<lparr>nodes := h1[na := (h1 ! na)\<lparr>parent := pr\<rparr>], root := Some na\<rparr>))
                 else (case pr of None \<Rightarrow> Some (Inl AttributeError)
                       | Some pa \<Rightarrow>
                         if start (h1[na := (h1 ! na)\<lparr>parent := pr\<rparr>] ! na)
                              \<le> start (h1[na := (h1 ! na)\<lparr>parent := pr\<rparr>] ! pa)
                         then Some (Inr (t\<lparr>nodes := (h1[na := (h1 ! na)\<lparr>parent := pr\<rparr>])
                                   [pa := (h1[na := (h1 ! na)\<lparr>parent := pr\<rparr>] ! pa)\<lparr>left := Some na\<rparr>]\<rparr>))
                         else Some (Inr (t\<lparr>nodes := (h1[na := (h1 ! na)\<lparr>parent := pr\<rparr>])
                                   [pa := (h1[na := (h1 ! na)\<lparr>parent := pr\<rparr>] ! pa)\<lparr>right := Some na\<rparr>]\<rparr>))))
            ?rest))"
    unfolding insert'_def h0_def nn_def na_def h_def by (simp add: Let_def)
  have ins1: "insert' t s e i
      = obind (if c = []
                 then Some (Inr (t\<lparr>nodes := h2, root := Some na\<rparr>))
                 else if start (h2 ! na) \<le> start (h2 ! paddr c)
                      then Some (Inr (t\<lparr>nodes := h2[paddr c := (h2 ! paddr c)\<lparr>left := Some na\<rparr>]\<rparr>))
                      else Some (Inr (t\<lparr>nodes := h2[paddr c := (h2 ! paddr c)\<lparr>right := Some na\<rparr>]\<rparr>)))
            ?rest"
    unfolding ins0 d1 obind_simps prod.case h2_def [symmetric] e2 bind_simps
    by (simp add: par_paddr)
  have ins: "insert' t s e i = ?rest t3"
  proof (cases "c = []")
    case True
    thus ?thesis unfolding ins1 by (simp add: t3_def)
  next
    case False
    have p: "0 < paddr c" "paddr c < na" "paddr c \<in> set_tree T"
      using ctx_ok_paddr [OF C0 False] inC inT [of "paddr c"] by auto
    have "start (h2 ! na) = s" "start (h2 ! paddr c) = stf h (paddr c)"
      using old2 [OF p(2)] by (simp_all add: new2 nn_def stf_def)
    thus ?thesis unfolding ins1 using False by (simp add: t3_def)
  qed
  let ?h3 = "nodes t3"
  have l3: "length ?h3 = Suc na" by (simp add: t3_def l2)
  have new3: "?h3 ! na = nn\<lparr>parent := par c\<rparr>"
  proof (cases "c = []")
    case True
    thus ?thesis by (simp add: t3_def new2)
  next
    case False
    have "paddr c \<noteq> na" using ctx_ok_paddr [OF C0 False] inC inT [of "paddr c"] by auto
    thus ?thesis using False by (simp add: t3_def new2)
  qed
  have old3: "?h3 ! a = (if c \<noteq> [] \<and> a = paddr c
                   then (if s \<le> stf h a then (h ! a)\<lparr>left := Some na\<rparr> else (h ! a)\<lparr>right := Some na\<rparr>)
                   else h ! a)" if "a < na" for a
    using that old2 [OF that] by (auto simp: t3_def l2)
  have fields: "pay ?h3 a = pay h a \<and> colf ?h3 a = colf h a \<and> mef ?h3 a = mef h a
       \<and> enf ?h3 a = enf h a" if "a < na" for a
    using old3 [OF that] by (simp add: pay_def colf_def mef_def enf_def)
  have H3: "heap_ok ?h3"
    unfolding heap_ok_def
  proof (intro conjI allI impI)
    show "0 < length ?h3" by (simp add: l3)
    show "?h3 ! 0 = nil_node" using old3 [OF len] pc(2) H by (simp add: heap_ok_def)
    fix a assume "0 < a \<and> a < length ?h3"
    thus "left (?h3 ! a) \<noteq> None"
      using old3 [of a] new3 heap_okD(3) [OF H, of a]
      by (cases "a = na") (auto simp: l3 nn_def nil_def na_def h_def)
  qed
  have C3: "ctx_ok ?h3 c (Some na)"
  proof (rule ctx_ok_set_child [OF C0 _ Dc], goal_cases)
    case 1
    show ?case by (simp add: l3 l0)
  next
    case (2 d g sb c')
    hence ne: "c \<noteq> []" and g: "paddr c = g" by simp_all
    have gn: "g < na" using ctx_ok_paddr [OF C0 ne] inC inT [of "paddr c"] g by auto
    have "(d = Lft) = (s \<le> stf h g)"
      using descend_head [of "stf h" s "[]" T] 2 by (auto simp: c_def h_def)
    thus ?case using old3 [OF gn] old0 [OF gn] ne g by (cases d) auto
  next
    case (3 a)
    hence "a < na" using inC inT [of a] by auto
    thus ?case using old3 [of a] old0 [of a] 3 by simp
  qed
  have "root t3 = top c (Some na)"
  proof (cases "c = []")
    case True
    thus ?thesis by (simp add: t3_def)
  next
    case False
    hence "T \<noteq> Leaf" by (auto simp: c_def)
    hence "root t3 = ref_of (plug c Leaf)" using rt False by (simp add: t3_def pT)
    thus ?thesis using top_nonempty [OF False] by (simp add: ref_of_plug)
  qed
  moreover have "sub_ok ?h3 (par c) (Node Leaf na Leaf)"
    using len by (simp add: l3 new3 nn_def nil_def)
  moreover have "distinct (before c @ inorder (Node Leaf na Leaf) @ after c)"
    using Dc inC inT [of na] by auto
  ultimately have Z3: "zip_ok t3 c (Node Leaf na Leaf)"
    using H3 C3 by (simp add: zip_ok_def)
  have "tsize t3 = tsize t" by (simp add: t3_def)
  moreover have "pay ?h3 na = (s, e, i)" "colf ?h3 na = RED"
    by (simp_all add: pay_def colf_def new3 nn_def)
  ultimately show ?thesis using ins Z3 l3 fields by blast
qed


lemma stf_pay: "stf h a = fst (pay h a)"
  by (simp add: stf_def pay_def)

lemma dup_not_distinct: "dup h (set xs) \<Longrightarrow> \<not> distinct (map (pay h) xs)"
  by (auto simp: dup_def distinct_map inj_on_def)

lemma insert_ok:
  fixes s e i :: int
  assumes I: "tree_inv t T"
  shows "(insert' t s e i = Some (Inl RecursionError)
            \<and> \<not> distinct ((s, e, i) # map (pay (nodes t)) (inorder T)))
       \<or> (\<exists>t' T'. insert' t s e i = Some (Inr t') \<and> tree_inv t' T'
            \<and> mset (map (pay (nodes t')) (inorder T'))
                = add_mset (s, e, i) (mset (map (pay (nodes t)) (inorder T))))"
proof -
  define h where "h = nodes t"
  define na where "na = length (nodes t)"
  define c where "c = descend (stf (nodes t)) s [] T"
  let ?N = "Node Leaf na Leaf"
  from insert_link [OF I, of s e i]
  obtain t3 where ins: "insert' t s e i
            = obind (insert_update (nodes t3) (Some na)) (\<lambda>h4.
              obind (insert_fixup (t3\<lparr>nodes := h4\<rparr>) (Some na)) (\<lambda>t5.
              Some (Inr (t5\<lparr>tsize := tsize t5 + 1\<rparr>))))"
    and Z3: "zip_ok t3 c ?N" and ts3: "tsize t3 = tsize t" and l3: "length (nodes t3) = Suc na"
    and f3: "\<forall>a < na. pay (nodes t3) a = pay h a \<and> colf (nodes t3) a = colf h a
                \<and> mef (nodes t3) a = mef h a \<and> enf (nodes t3) a = enf h a"
    and p3: "pay (nodes t3) na = (s, e, i)" and c3: "colf (nodes t3) na = RED"
    unfolding h_def na_def c_def by blast
  let ?h3 = "nodes t3"
  from I have H: "heap_ok h" and D: "distinct (inorder T)" and N: "set_tree T = {1..<na}"
    and M: "maxinv (mef h) (enf h) T" and ic: "invc (colf h) T" and ih: "invh (colf h) T"
    and rc: "rcol (colf h) T = BLACK" and so: "sorted (map (stf h) (inorder T))"
    and ts: "tsize t = int (length (inorder T))"
    by (simp_all add: tree_inv_def Let_def h_def na_def)
  have len: "0 < na" using H by (simp add: heap_ok_def na_def h_def)
  have pT: "plug c Leaf = T" unfolding c_def by (simp add: descend_plug)
  have ino: "inorder T = before c @ after c" using inorder_plug [of c Leaf] pT by simp
  have inC: "set (before c) \<union> set (after c) = set_tree T"
    using set_tree_plug [of c Leaf] pT by simp
  have inT: "\<And>a. a \<in> set (before c) \<union> set (after c) \<Longrightarrow> a < na" using N inC by auto
  have k3: "\<And>a. a \<in> set (before c) \<union> set (after c) \<Longrightarrow>
      pay ?h3 a = pay h a \<and> colf ?h3 a = colf h a \<and> mef ?h3 a = mef h a \<and> enf ?h3 a = enf h a"
    using f3 inT by blast
  have E3: "mset (map (pay ?h3) (inorder (plug c ?N)))
      = add_mset (s, e, i) (mset (map (pay h) (inorder T)))"
  proof -
    have m: "map (pay ?h3) (before c) = map (pay h) (before c)"
      "map (pay ?h3) (after c) = map (pay h) (after c)"
      using k3 by auto
    have "map (pay ?h3) (inorder (plug c ?N))
        = map (pay h) (before c) @ [(s, e, i)] @ map (pay h) (after c)"
      by (simp add: inorder_plug m p3)
    thus ?thesis by (simp add: ino)
  qed
  have "cmaxinv (mef h) (enf h) c None" using M maxinv_plug [of "mef h" "enf h" c Leaf] pT by simp
  hence "smaxinv (mef h) (enf h) c" by (rule cmaxinv_smaxinv)
  moreover have "smaxinv (mef ?h3) (enf ?h3) c = smaxinv (mef h) (enf h) c"
    using k3 by (intro smaxinv_cong) blast
  ultimately have sm3: "smaxinv (mef ?h3) (enf ?h3) c" by simp
  from insert_update_ok [OF Z3 _ _ sm3]
  obtain h4 where u: "insert_update ?h3 (Some na) = Some (Inr h4)"
    and Z4: "zip_ok (t3\<lparr>nodes := h4\<rparr>) c ?N" and sc4: "same_content t3 (t3\<lparr>nodes := h4\<rparr>)"
    and col4: "colf h4 = colf ?h3" and M4: "maxinv (mef h4) (enf h4) (plug c ?N)"
    by auto
  define t4 where "t4 = t3\<lparr>nodes := h4\<rparr>"
  have n4: "nodes t4 = h4" by (simp add: t4_def)
  have "cinv (colf h) c BLACK 0" using ic ih rc rb_plug [of "colf h" c Leaf] pT by simp
  moreover have "cinv (colf h4) c BLACK 0 = cinv (colf h) c BLACK 0"
    unfolding col4 using k3 by (intro cinv_cong) blast
  ultimately have "cfix (colf h4) c ?N" by (simp add: cfix_def col4 c3)
  hence F4: "fix_inv t4 c ?N" using Z4 M4 by (simp add: fix_inv_def t4_def)
  have ins2: "insert' t s e i = obind (insert_fixup t4 (Some na)) (\<lambda>t5.
              Some (Inr (t5\<lparr>tsize := tsize t5 + 1\<rparr>)))"
    unfolding ins u by (simp add: t4_def)
  have pay4: "pay h4 = pay ?h3" using sc4 by (simp add: same_content_def)
  from insert_fixup_ok [OF F4]
  consider (err) "insert_fixup t4 (Some na) = Some (Inl RecursionError)"
      "dup h4 (set_tree (plug c ?N))"
    | (ok) t5 T5 where "insert_fixup t4 (Some na) = Some (Inr t5)" "zip_ok t5 [] T5" "T5 \<noteq> Leaf"
      "inorder T5 = inorder (plug c ?N)" "same_content t4 t5"
      "invc (colf (nodes t5)) T5" "invh (colf (nodes t5)) T5" "rcol (colf (nodes t5)) T5 = BLACK"
      "maxinv (mef (nodes t5)) (enf (nodes t5)) T5"
    unfolding n4 by auto
  thus ?thesis
  proof cases
    case err
    have "\<not> distinct (map (pay h4) (inorder (plug c ?N)))"
      using err(2) dup_not_distinct [of h4 "inorder (plug c ?N)"] by simp
    moreover have "mset (map (pay h4) (inorder (plug c ?N)))
        = mset ((s, e, i) # map (pay h) (inorder T))"
      unfolding pay4 E3 by simp
    ultimately have "\<not> distinct ((s, e, i) # map (pay h) (inorder T))"
      using mset_eq_imp_distinct_iff by blast
    thus ?thesis unfolding ins2 err(1) h_def by simp
  next
    case ok
    define t' where "t' = t5\<lparr>tsize := tsize t5 + 1\<rparr>"
    let ?h5 = "nodes t5"
    have pay5: "pay ?h5 = pay ?h3" and l5: "length ?h5 = Suc na"
      and ts5: "tsize t5 = tsize t"
      using ok(5) sc4 l3 ts3 by (simp_all add: same_content_def t4_def)
    have io: "inorder T5 = before c @ [na] @ after c" using ok(4) by (simp add: inorder_plug)
    have "set_tree T5 = set (inorder T5)" by simp
    also have "\<dots> = set_tree T \<union> {na}" unfolding io using inC by auto
    also have "\<dots> = {1..<Suc na}" using N len by auto
    finally have set5: "set_tree T5 = {1..<length ?h5}" by (simp add: l5)
    have b: "(\<forall>b \<in> set (before c). stf h b < s) \<and> (\<forall>b \<in> set (after c). s \<le> stf h b)"
      unfolding c_def h_def [symmetric] using so by (intro descend_bounds) simp_all
    have "sorted (map (stf ?h5) (before c @ [na] @ after c))"
    proof (rule sorted_insert_at [of "stf h" _ _ s])
      show "sorted (map (stf h) (before c @ after c))" using so by (simp add: ino)
      show "\<forall>b \<in> set (before c). stf h b < s" "\<forall>b \<in> set (after c). s \<le> stf h b"
        using b by simp_all
      show "stf ?h5 na = s" by (simp add: stf_pay pay5 p3)
      show "\<forall>b \<in> set (before c) \<union> set (after c). stf ?h5 b = stf h b"
        using k3 by (simp add: stf_pay pay5)
    qed
    hence so5: "sorted (map (stf ?h5) (inorder T5))" by (simp add: io)
    have "tree_inv t' T5"
      unfolding tree_inv_def Let_def
      using ok(2,3,6,7,8,9) set5 so5 ts5 ts
      by (simp add: t'_def zip_ok_def io ino)
    moreover have "mset (map (pay (nodes t')) (inorder T5))
        = add_mset (s, e, i) (mset (map (pay (nodes t)) (inorder T)))"
      using E3 by (simp add: t'_def pay5 ok(4) h_def)
    moreover have "insert' t s e i = Some (Inr t')" unfolding ins2 ok(1) by (simp add: t'_def)
    ultimately show ?thesis by blast
  qed
qed

section \<open>The queries on a tree built by \<open>insert\<close>\<close>

lemma tree_inv_new: "tree_inv new_tree Leaf"
  by (simp add: tree_inv_def new_tree_def heap_ok_def)

lemma inserts_ok:
  "tree_inv t T \<Longrightarrow>
     (inserts t xs = Some (Inl RecursionError) \<and> \<not> distinct (map (pay (nodes t)) (inorder T) @ xs))
   \<or> (\<exists>t' T'. inserts t xs = Some (Inr t') \<and> tree_inv t' T'
         \<and> mset (map (pay (nodes t')) (inorder T')) = mset (map (pay (nodes t)) (inorder T)) + mset xs)"
proof (induction xs arbitrary: t T)
  case Nil
  thus ?case by auto
next
  case (Cons x xs)
  obtain s e i where x: "x = (s, e, i)" by (cases x)
  let ?c = "map (pay (nodes t)) (inorder T)"
  from insert_ok [OF Cons.prems, of s e i]
  consider (err) "insert' t s e i = Some (Inl RecursionError)" "\<not> distinct ((s, e, i) # ?c)"
    | (ok) t1 T1 where "insert' t s e i = Some (Inr t1)" "tree_inv t1 T1"
        "mset (map (pay (nodes t1)) (inorder T1)) = add_mset (s, e, i) (mset ?c)"
    by blast
  thus ?case
  proof cases
    case err
    have "\<not> distinct (?c @ x # xs)" using err(2) by (auto simp: x)
    thus ?thesis using err(1) by (simp add: x)
  next
    case ok
    let ?c1 = "map (pay (nodes t1)) (inorder T1)"
    have m: "mset (?c1 @ xs) = mset (?c @ x # xs)" using ok(3) by (simp add: x)
    from Cons.IH [OF ok(2)]
    consider (err2) "inserts t1 xs = Some (Inl RecursionError)" "\<not> distinct (?c1 @ xs)"
      | (ok2) t' T' where "inserts t1 xs = Some (Inr t')" "tree_inv t' T'"
          "mset (map (pay (nodes t')) (inorder T')) = mset ?c1 + mset xs"
      by blast
    thus ?thesis
    proof cases
      case err2
      have "\<not> distinct (?c @ x # xs)" using err2(2) mset_eq_imp_distinct_iff [OF m] by blast
      thus ?thesis using err2(1) ok(1) by (simp add: x)
    next
      case ok2
      have "mset (map (pay (nodes t')) (inorder T')) = mset ?c + mset (x # xs)"
        using ok2(3) ok(3) by (simp add: x)
      thus ?thesis using ok2(1,2) ok(1) unfolding x by auto
    qed
  qed
qed

lemma inserts_new_ok:
  "(inserts new_tree xs = Some (Inl RecursionError) \<and> \<not> distinct xs)
   \<or> (\<exists>t T. inserts new_tree xs = Some (Inr t) \<and> tree_inv t T
         \<and> mset (map (pay (nodes t)) (inorder T)) = mset xs)"
  using inserts_ok [OF tree_inv_new, of xs] by simp

lemma maxinv_bound:
  "maxinv me en t \<Longrightarrow> a \<in> set_tree t \<Longrightarrow> \<exists>m. rme me t = Some m \<and> en a \<le> m"
proof (induction t)
  case Leaf
  thus ?case by simp
next
  case (Node l x r)
  have mx: "en x \<le> me x" "\<And>m. rme me l = Some m \<Longrightarrow> m \<le> me x"
    "\<And>m. rme me r = Some m \<Longrightarrow> m \<le> me x"
    using Node.prems(1) by (auto simp: max3_def Let_def split: option.splits)
  from Node.prems(2) consider "a = x" | "a \<in> set_tree l" | "a \<in> set_tree r" by auto
  thus ?case
  proof cases
    case 1
    thus ?thesis using mx(1) by simp
  next
    case 2
    with Node.IH(1) Node.prems(1) obtain m where "rme me l = Some m" "en a \<le> m" by auto
    thus ?thesis using mx(2) by fastforce
  next
    case 3
    with Node.IH(2) Node.prems(1) obtain m where "rme me r = Some m" "en a \<le> m" by auto
    thus ?thesis using mx(3) by fastforce
  qed
qed

text \<open>The nodes of a shape that overlap a range, in the order \<open>search\<close> visits them.\<close>

lemma search_ok:
  assumes H: "heap_ok h"
  shows "sub_ok h p T \<Longrightarrow> distinct (inorder T) \<Longrightarrow> maxinv (mef h) (enf h) T
     \<Longrightarrow> sorted (map (stf h) (inorder T))
     \<Longrightarrow> search h s e (ref_of T) acc
         = Some (Inr (acc @ map (\<lambda>a. slot_id (h ! a))
                          (filter (\<lambda>a. overlaps_with (h ! a) s e) (preorder T))))"
proof (induction T arbitrary: p acc)
  case Leaf
  from H have len: "0 < length h" by (simp add: heap_ok_def)
  show ?case
    by (subst search.simps) (simp add: eq_nil [OF H len, unfolded nil_def] nil_def)
next
  case (Node l a r)
  let ?ov = "\<lambda>a. overlaps_with (h ! a) s e"
  let ?ids = "\<lambda>t. map (\<lambda>a. slot_id (h ! a)) (filter ?ov (preorder t))"
  from H have len: "0 < length h" by (simp add: heap_ok_def)
  from Node.prems have a: "0 < a" "a < length h" and Sl: "sub_ok h (Some a) l"
    and Sr: "sub_ok h (Some a) r" and Dl: "distinct (inorder l)" and Dr: "distinct (inorder r)"
    and Ml: "maxinv (mef h) (enf h) l" and Mr: "maxinv (mef h) (enf h) r"
    and sl: "sorted (map (stf h) (inorder l))" and sr: "sorted (map (stf h) (inorder r))"
    and ar: "\<forall>b \<in> set_tree r. stf h a \<le> stf h b"
    and lf: "left (h ! a) = Some (raddr l)" and rg: "right (h ! a) = Some (raddr r)"
    by (auto simp: sorted_append ref_of_raddr)
  have e0: "eq h (Some a) nil = Inr False" using eq_nil [OF H a(2)] a(1) by simp
  have nl: "ne h (Some (raddr l)) nil = Inr (l \<noteq> Leaf)"
    using ne_nil [OF H raddr_less [OF Sl len]] raddr_0 [OF Sl] by simp
  have nr: "ne h (Some (raddr r)) nil = Inr (r \<noteq> Leaf)"
    using ne_nil [OF H raddr_less [OF Sr len]] raddr_0 [OF Sr] by simp
  define acc1 where "acc1 = (if ?ov a then acc @ [slot_id (h ! a)] else acc)"
  define gl where "gl = (l \<noteq> Leaf \<and> max_end (h ! raddr l) > s)"
  define gr where "gr = (r \<noteq> Leaf \<and> stf h a < e)"
  have L: "(if gl then search h s e (ref_of l) acc1 else Some (Inr acc1))
      = Some (Inr (acc1 @ ?ids l))"
  proof (cases gl)
    case True
    thus ?thesis using Node.IH(1) [OF Sl Dl Ml sl, of acc1] by simp
  next
    case False
    have "\<not> ?ov b" if b: "b \<in> set_tree l" for b
    proof -
      from b have lL: "l \<noteq> Leaf" by auto
      obtain m where m: "rme (mef h) l = Some m" "enf h b \<le> m"
        using maxinv_bound [OF Ml b] by blast
      have "m = max_end (h ! raddr l)" using m(1) lL by (cases l) (auto simp: mef_def)
      hence "enf h b \<le> s" using False lL m(2) by (simp add: gl_def)
      thus ?thesis by (simp add: overlaps_with_def enf_def)
    qed
    hence "filter ?ov (preorder l) = []" by (auto simp: filter_empty_conv)
    thus ?thesis using False by simp
  qed
  have R: "(if gr then search h s e (ref_of r) acc2 else Some (Inr acc2))
      = Some (Inr (acc2 @ ?ids r))" for acc2
  proof (cases gr)
    case True
    thus ?thesis using Node.IH(2) [OF Sr Dr Mr sr, of acc2] by simp
  next
    case False
    have "\<not> ?ov b" if "b \<in> set_tree r" for b
    proof -
      from that have "r \<noteq> Leaf" by auto
      hence "e \<le> stf h a" using False by (simp add: gr_def)
      hence "e \<le> stf h b" using ar that by fastforce
      thus ?thesis by (simp add: overlaps_with_def stf_def)
    qed
    hence "filter ?ov (preorder r) = []" by (auto simp: filter_empty_conv)
    thus ?thesis using False by simp
  qed
  have "search h s e (ref_of (Node l a r)) acc
      = Option.bind (if gl then search h s e (ref_of l) acc1 else Some (Inr acc1)) (\<lambda>r'.
          case r' of Inl er \<Rightarrow> Some (Inl er)
          | Inr acc2 \<Rightarrow> (if gr then search h s e (ref_of r) acc2 else Some (Inr acc2)))"
    by (subst search.simps)
       (simp add: e0 lf rg nl nr acc1_def gl_def gr_def Let_def ref_of_raddr stf_def)
  also have "\<dots> = Some (Inr ((acc1 @ ?ids l) @ ?ids r))"
    unfolding L by (simp add: R)
  also have "(acc1 @ ?ids l) @ ?ids r = acc @ ?ids (Node l a r)"
    by (simp add: acc1_def)
  finally show ?case .
qed



lemma mset_preorder_inorder: "mset (preorder t) = mset (inorder t)"
  by (induction t) auto

lemma find_overlapping_ok:
  assumes I: "tree_inv t T"
  shows "find_overlapping t s e
      = Some (Inr (map (\<lambda>a. slot_id (nodes t ! a))
                    (filter (\<lambda>a. overlaps_with (nodes t ! a) s e) (preorder T))))"
proof (cases T)
  case Leaf
  thus ?thesis using I by (simp add: tree_inv_def Let_def find_overlapping_def)
next
  case (Node l a r)
  from I have H: "heap_ok (nodes t)" and S: "sub_ok (nodes t) (Some 0) T"
    and D: "distinct (inorder T)" and M: "maxinv (mef (nodes t)) (enf (nodes t)) T"
    and so: "sorted (map (stf (nodes t)) (inorder T))" and rt: "root t = ref_of T"
    using Node by (simp_all add: tree_inv_def Let_def)
  show ?thesis
    using search_ok [OF H S D M so, of s e "[]"] rt Node by (simp add: find_overlapping_def)
qed

lemma find_overlapping_mset:
  assumes I: "tree_inv t T" and C: "mset (map (pay (nodes t)) (inorder T)) = mset xs"
  shows "\<exists>r. find_overlapping t s e = Some (Inr r)
           \<and> mset r = mset (map idf (overlapping s e xs))"
proof -
  let ?h = "nodes t"
  let ?P = "\<lambda>(st, en, i). \<not> (en \<le> s \<or> st \<ge> (e::int))"
  have ov: "overlaps_with (?h ! a) s e = ?P (pay ?h a)" for a
    by (simp add: overlaps_with_def pay_def)
  have sid: "slot_id (?h ! a) = idf (pay ?h a)" for a
    by (simp add: idf_def pay_def)
  let ?r = "map (\<lambda>a. slot_id (?h ! a)) (filter (\<lambda>a. overlaps_with (?h ! a) s e) (preorder T))"
  have "?r = map idf (filter ?P (map (pay ?h) (preorder T)))"
    by (simp add: ov sid filter_map comp_def)
  hence "mset ?r = image_mset idf (filter_mset ?P (mset (map (pay ?h) (preorder T))))"
    by simp
  also have "mset (map (pay ?h) (preorder T)) = mset (map (pay ?h) (inorder T))"
    by (simp add: mset_preorder_inorder)
  also have "image_mset idf (filter_mset ?P (mset (map (pay ?h) (inorder T))))
      = mset (map idf (overlapping s e xs))"
    unfolding C by (simp add: overlapping_def)
  finally show ?thesis using find_overlapping_ok [OF I, of s e] by blast
qed




lemma reach_in_tree:
  assumes S: "sub_ok h p T" and T: "T \<noteq> Leaf" and R: "reach h (raddr T) a"
  shows "a \<in> set_tree T"
  using R
proof (induction rule: reach.induct)
  case reach_root
  show ?case using T by (rule raddr_in)
next
  case (reach_left a b)
  thus ?case using sub_ok_left [OF S, of a] by auto
next
  case (reach_right a b)
  thus ?case using sub_ok_right [OF S, of a] by auto
qed

lemma node_max_ok_in_tree:
  "sub_ok h p T \<Longrightarrow> maxinv (mef h) (enf h) T \<Longrightarrow> a \<in> set_tree T \<Longrightarrow> node_max_ok h a"
proof (induction T arbitrary: p)
  case Leaf
  thus ?case by simp
next
  case (Node l x r)
  show ?case
  proof (cases "a = x")
    case True
    from Node.prems(1) have Sl: "sub_ok h (Some x) l" and Sr: "sub_ok h (Some x) r"
      and lf: "left (h ! x) = Some (raddr l)" and rg: "right (h ! x) = Some (raddr r)"
      by (simp_all add: ref_of_raddr)
    have cm: "child_max h (left (h ! x)) = rme (mef h) l"
      "child_max h (right (h ! x)) = rme (mef h) r"
      unfolding lf rg child_max_def using rme_raddr [OF Sl] rme_raddr [OF Sr] by simp_all
    have "mef h x = max3 (enf h x) (rme (mef h) l) (rme (mef h) r)"
      using Node.prems(2) by simp
    thus ?thesis
      unfolding True node_max_ok_def cm mef_def [of h x] enf_def [of h x] .
  next
    case False
    thus ?thesis using Node by auto
  qed
qed

lemma inserts_returns:
  "distinct xs \<Longrightarrow> \<exists>t. inserts new_tree xs = Some (Inr t)"
  using inserts_new_ok [of xs] by auto

lemma inserts_tree_inv:
  "inserts new_tree xs = Some (Inr t) \<Longrightarrow>
     \<exists>T. tree_inv t T \<and> mset (map (pay (nodes t)) (inorder T)) = mset xs"
  using inserts_new_ok [of xs] by auto

section \<open>Times printed and parsed back\<close>


lemma is_digit_all: "\<forall>c \<in> set ''0123456789''. digit_val c < 10"
  by code_simp










section \<open>The index after a load\<close>







lemma index_days_trees [simp]: "interval_trees (index_days m ds) = interval_trees m"
  by (induction ds arbitrary: m) simp_all







section \<open>The gaps between the intervals of a day\<close>

lemma ispan_simps [simp]:
  "ispan [] = {}" "ispan ((a, b) # ps) = {a ..< b} \<union> ispan ps"
  "ispan (ps @ qs) = ispan ps \<union> ispan qs"
  by (auto simp: ispan_def)

lemma bspan_simps [simp]:
  "bspan [] = {}" "bspan ((s, e, i) # xs) = {s ..< e} \<union> bspan xs"
  by (auto simp: bspan_def)









section \<open>The queries of a loaded manager\<close>










section \<open>The load operation\<close>

lemma index_days_days [simp]: "days (index_days m ds) = days m"
  by (induction ds arbitrary: m) simp_all

lemma index_days_timeslots [simp]: "timeslots (index_days m ds) = timeslots m"
  by (induction ds arbitrary: m) simp_all

lemma index_slots_days: "index_slots m ss = Some (Inr m') \<Longrightarrow> days m' = days m"
proof (induction ss arbitrary: m)
  case Nil
  then show ?case by simp
next
  case (Cons slot ss)
  show ?case
  proof (cases "day_by_id m (ts_day_id slot)")
    case None
    with Cons show ?thesis by simp
  next
    case (Some day)
    with Cons.prems Cons.IH show ?thesis
      by (fastforce simp: Let_def obind_eq_Some_Inr split: option.splits if_splits)
  qed
qed

lemma build_indexes_days: "build_indexes m = Some (Inr m') \<Longrightarrow> days m' = days m"
  unfolding build_indexes_def by (drule index_slots_days) simp

lemma set_data_days:
  assumes "set_data m ds ss = Some (Inr m')"
  shows "parse_all day_from_dict ds = Inr (days m')"
  using assms
  by (auto simp: set_data_def Let_def split: sum.splits option.splits dest!: build_indexes_days)

lemma parse_all_Inl_iff:
  "(\<exists>e. parse_all f xs = Inl e) \<longleftrightarrow> (\<exists>x \<in> set xs. \<exists>e. f x = Inl e)"
proof (induction xs)
  case Nil
  then show ?case by simp
next
  case (Cons x xs)
  show ?case
  proof (cases "f x")
    case (Inl e)
    then show ?thesis by auto
  next
    case (Inr y)
    with Cons show ?thesis
      by (cases "parse_all f xs") auto
  qed
qed

lemma parse_all_first_error:
  assumes "\<forall>x \<in> set good. \<exists>y. f x = Inr y" "f bad = Inl e"
  shows "parse_all f (good @ bad # rest) = Inl e"
  using assms by (induction good) auto

lemma pbind_Inl:
  "pbind m f = Inl e \<Longrightarrow> m = Inl e \<or> (\<exists>x. m = Inr x \<and> f x = Inl e)"
  by (cases m) auto

lemma field_error: "field v = Inl e \<Longrightarrow> e = KeyError"
  by (cases v) (auto simp: field_def)

lemma parsed_error: "parsed p v = Inl e \<Longrightarrow> e = ValueError \<or> e = TypeError"
  by (cases v) (auto simp: parsed_def split: option.splits)

lemma day_from_dict_error:
  assumes "day_from_dict r = Inl e"
  shows "e = KeyError \<or> e = ValueError \<or> e = TypeError"
proof (cases r)
  case NotObj
  with assms show ?thesis by (simp add: day_from_dict_def)
next
  case (Obj data)
  with assms show ?thesis
    unfolding day_from_dict_def
    by (auto dest!: pbind_Inl dest: field_error parsed_error)
qed

lemma slot_from_dict_error:
  assumes "slot_from_dict r = Inl e"
  shows "e = KeyError \<or> e = ValueError \<or> e = TypeError"
proof (cases r)
  case NotObj
  with assms show ?thesis by (simp add: slot_from_dict_def)
next
  case (Obj data)
  with assms show ?thesis
    unfolding slot_from_dict_def
    by (auto dest!: pbind_Inl dest: field_error parsed_error)
qed

text \<open>
  Claim C10. A load with an empty batch of days that returns leaves a manager on which
  \<open>get_busy_intervals\<close>, \<open>get_free_time\<close> and \<open>is_time_available\<close> raise the not-loaded
  error, whatever the slots were: the check is \<open>not self.days\<close>.
\<close>

theorem empty_days_load_is_not_loaded:
  assumes "set_data m [] ss = Some (Inr m')"
  shows "get_busy_intervals m' date_str = Some (Inl NotLoaded)
       \<and> get_free_time m' date_str = Some (Inl NotLoaded)
       \<and> is_time_available m' date_str start_str end_str = Some (Inl NotLoaded)"
proof -
  from set_data_days [OF assms] have "days m' = []" by simp
  then show ?thesis
    by (simp add: get_busy_intervals_def get_free_time_def is_time_available_def find_day_def)
qed

theorem empty_days_load_is_not_loaded_witness:
  "\<exists>m'. set_data new_manager [] sample_slots = Some (Inr m')
      \<and> get_busy_intervals m' ''2024-01-15'' = Some (Inl NotLoaded)
      \<and> get_free_time m' ''2024-01-15'' = Some (Inl NotLoaded)
      \<and> is_time_available m' ''2024-01-15'' ''12:00'' ''13:00'' = Some (Inl NotLoaded)"
proof -
  have "(case set_data new_manager [] sample_slots of Some (Inr m') \<Rightarrow> True | _ \<Rightarrow> False)"
    by code_simp
  then obtain m' where m': "set_data new_manager [] sample_slots = Some (Inr m')"
    by (auto split: option.splits sum.splits)
  from empty_days_load_is_not_loaded [OF m', of "''2024-01-15''" "''12:00''" "''13:00''"] m'
  show ?thesis by blast
qed

text \<open>
  Claim C3, as stated, fails: with a well-formed batch of days and a malformed slot record,
  \<open>set_data\<close> raises the format error after \<open>self.days\<close> has been assigned, so the list
  of days of a fresh manager is no longer empty.
\<close>

theorem load_not_atomic_counterexample:
  "(case set_data new_manager sample_days [bad_slot] of
      Some (Inl (e, Some m')) \<Rightarrow> e = FormatError \<and> days m' \<noteq> days new_manager
    | _ \<Rightarrow> False)"
  by code_simp

text \<open>
  Claim C3, amended. The records are parsed in order and the first record on which
  \<open>from_dict\<close> raises ends the load. If that record is a day record, the manager is left
  as it was. If all day records are parsed and that record is a slot record, the manager
  is left as it was except for the list of days, which is the list parsed from the batch;
  the list of slots, both maps and all trees are as before. In both cases \<open>from_dict\<close>
  raises \<open>KeyError\<close>, \<open>ValueError\<close> or \<open>TypeError\<close>, and the load raises the format error for
  the first two (a key is missing, a date or time string is refused) and \<open>TypeError\<close>, not
  the format error, for the third (a date or time that is not a string, a record that is
  not a dictionary).
\<close>

theorem load_failure_state:
  "((\<forall>d \<in> set good. \<exists>day. day_from_dict d = Inr day) \<and> day_from_dict bad = Inl e \<longrightarrow>
      (e = KeyError \<or> e = ValueError \<or> e = TypeError)
      \<and> set_data m (good @ bad # rest) ss
          = Some (Inl (if e = TypeError then TypeError else FormatError, Some m)))
 \<and> ((\<forall>d \<in> set ds. \<exists>day. day_from_dict d = Inr day)
      \<and> (\<forall>x \<in> set sgood. \<exists>slot. slot_from_dict x = Inr slot) \<and> slot_from_dict sbad = Inl e' \<longrightarrow>
      (e' = KeyError \<or> e' = ValueError \<or> e' = TypeError)
      \<and> (\<exists>parsed_days. parse_all day_from_dict ds = Inr parsed_days
           \<and> set_data m ds (sgood @ sbad # srest)
               = Some (Inl (if e' = TypeError then TypeError else FormatError,
                            Some (m\<lparr>days := parsed_days\<rparr>)))))"
proof (intro conjI impI)
  assume a: "(\<forall>d \<in> set good. \<exists>day. day_from_dict d = Inr day) \<and> day_from_dict bad = Inl e"
  show "e = KeyError \<or> e = ValueError \<or> e = TypeError"
    using a day_from_dict_error by blast
  then have "caught e = (if e = TypeError then TypeError else FormatError)"
    by (auto simp: caught_def)
  moreover have "parse_all day_from_dict (good @ bad # rest) = Inl e"
    using a by (intro parse_all_first_error) simp_all
  ultimately show "set_data m (good @ bad # rest) ss
      = Some (Inl (if e = TypeError then TypeError else FormatError, Some m))"
    by (simp add: set_data_def)
next
  assume a: "(\<forall>d \<in> set ds. \<exists>day. day_from_dict d = Inr day)
      \<and> (\<forall>x \<in> set sgood. \<exists>slot. slot_from_dict x = Inr slot) \<and> slot_from_dict sbad = Inl e'"
  show "e' = KeyError \<or> e' = ValueError \<or> e' = TypeError"
    using a slot_from_dict_error by blast
  then have c: "caught e' = (if e' = TypeError then TypeError else FormatError)"
    by (auto simp: caught_def)
  from a have "\<not> (\<exists>e. parse_all day_from_dict ds = Inl e)"
    using parse_all_Inl_iff [of day_from_dict ds] by fastforce
  then obtain pd where pd: "parse_all day_from_dict ds = Inr pd"
    by (cases "parse_all day_from_dict ds") auto
  have "parse_all slot_from_dict (sgood @ sbad # srest) = Inl e'"
    using a by (intro parse_all_first_error) simp_all
  with pd c show "\<exists>parsed_days. parse_all day_from_dict ds = Inr parsed_days
      \<and> set_data m ds (sgood @ sbad # srest)
          = Some (Inl (if e' = TypeError then TypeError else FormatError,
                       Some (m\<lparr>days := parsed_days\<rparr>)))"
    by (simp add: set_data_def Let_def)
qed

theorem load_failure_state_witness:
  "day_from_dict bad_day = Inl KeyError
 \<and> set_data new_manager [bad_day] sample_slots = Some (Inl (FormatError, Some new_manager))
 \<and> list_all (\<lambda>d. \<exists>day. day_from_dict d = Inr day) sample_days
 \<and> day_from_dict null_date_day = Inl TypeError
 \<and> set_data new_manager (sample_days @ [null_date_day]) sample_slots
     = Some (Inl (TypeError, Some new_manager))
 \<and> slot_from_dict bad_slot = Inl ValueError
 \<and> (\<exists>parsed_days. parse_all day_from_dict sample_days = Inr parsed_days
       \<and> set_data new_manager sample_days [bad_slot]
           = Some (Inl (FormatError, Some (new_manager\<lparr>days := parsed_days\<rparr>))))
 \<and> slot_from_dict number_start_slot = Inl TypeError
 \<and> (\<exists>parsed_days. parse_all day_from_dict sample_days = Inr parsed_days
       \<and> set_data new_manager sample_days [number_start_slot]
           = Some (Inl (TypeError, Some (new_manager\<lparr>days := parsed_days\<rparr>))))"
proof -
  have d: "day_from_dict bad_day = Inl KeyError"
    by (simp add: day_from_dict_def bad_day_def field_def)
  have n: "day_from_dict null_date_day = Inl TypeError"
    by (simp add: day_from_dict_def null_date_day_def field_def parsed_def)
  have s: "slot_from_dict bad_slot = Inl ValueError"
    by (simp add: slot_from_dict_def bad_slot_def field_def parsed_def)
  have u: "slot_from_dict number_start_slot = Inl TypeError"
    by (simp add: slot_from_dict_def number_start_slot_def field_def parsed_def)
  have g: "\<forall>d \<in> set sample_days. \<exists>day. day_from_dict d = Inr day"
    by (simp add: sample_days_def day_from_dict_def field_def parsed_def is_digit_def
          days_in_month_def is_leap_def two_digits_def digit_val_def)
  from load_failure_state [where good = "[]" and bad = bad_day and rest = "[]" and e = KeyError
      and m = new_manager and ss = sample_slots and ds = "[]" and sgood = "[]"] d
  have c1: "set_data new_manager [bad_day] sample_slots = Some (Inl (FormatError, Some new_manager))"
    by simp
  from load_failure_state [where good = sample_days and bad = null_date_day and rest = "[]"
      and e = TypeError and m = new_manager and ss = sample_slots and ds = "[]" and sgood = "[]"] g n
  have c2: "set_data new_manager (sample_days @ [null_date_day]) sample_slots
      = Some (Inl (TypeError, Some new_manager))"
    by simp
  from load_failure_state [where ds = sample_days and sgood = "[]" and sbad = bad_slot
      and srest = "[]" and e' = ValueError and m = new_manager and good = "[]"] g s
  have c3: "\<exists>parsed_days. parse_all day_from_dict sample_days = Inr parsed_days
       \<and> set_data new_manager sample_days [bad_slot]
           = Some (Inl (FormatError, Some (new_manager\<lparr>days := parsed_days\<rparr>)))"
    by simp
  from load_failure_state [where ds = sample_days and sgood = "[]" and sbad = number_start_slot
      and srest = "[]" and e' = TypeError and m = new_manager and good = "[]"] g u
  have c4: "\<exists>parsed_days. parse_all day_from_dict sample_days = Inr parsed_days
       \<and> set_data new_manager sample_days [number_start_slot]
           = Some (Inl (TypeError, Some (new_manager\<lparr>days := parsed_days\<rparr>)))"
    by simp
  from g have g': "list_all (\<lambda>d. \<exists>day. day_from_dict d = Inr day) sample_days"
    by (simp add: list_all_iff)
  from d c1 g' n c2 s c3 u c4 show ?thesis by blast
qed

section \<open>Defects found by evaluation\<close>

text \<open>
  Claim C8. Inserting the same interval with the same identifier twelve times into a new
  tree raises \<open>RecursionError\<close> in the twelfth insert: \<open>_right_rotate\<close> compares the
  rotated node with its sibling by \<open>==\<close>, the dataclass equality, which follows the
  \<open>parent\<close> fields of two equal-looking children back to the two nodes being compared.
\<close>

theorem insert_duplicates_raises:
  "inserts new_tree (replicate 12 (5, 10, 1)) = Some (Inl RecursionError)"
  by code_simp

text \<open>
  Claim C7. On the fixture of the tests, the slot 09:00 to 10:30 of 2024-01-15 makes
  09:30 to 10:00 unavailable when the date is written \<open>2024-01-15\<close>. Written \<open>2024-1-15\<close>,
  which \<open>strptime\<close> parses to the same date and which finds the same working day, the
  same request is reported available: the tree is looked up under the string as given,
  not under the date printed back as the index was built.
\<close>

theorem availability_depends_on_date_spelling:
  "(case sample_manager of None \<Rightarrow> False
    | Some m \<Rightarrow>
        find_day m ''2024-1-15'' = find_day m ''2024-01-15''
      \<and> (case find_day m ''2024-1-15'' of Inr day \<Rightarrow> True | Inl e \<Rightarrow> False)
      \<and> is_time_available m ''2024-01-15'' ''09:30'' ''10:00'' = Some (Inr False)
      \<and> is_time_available m ''2024-1-15'' ''09:30'' ''10:00'' = Some (Inr True)
      \<and> (case interval_trees m ''2024-01-15'' of None \<Rightarrow> False
          | Some tree \<Rightarrow> find_overlapping tree (9 * 60 + 30) (10 * 60) = Some (Inr [1])))"
  by code_simp

section \<open>Counterexamples to claims as stated\<close>



section \<open>The tree after a sequence of inserts\<close>

text \<open>
  Claim C1. A sequence of inserts into a new tree returns whenever no triple
  \<open>(start, end, identifier)\<close> occurs twice in it. Whenever it returns, \<open>find_overlapping\<close>
  on the tree returns, for every range \<open>(s, e)\<close>, and its result holds the identifiers of
  the inserted triples with \<open>\<not> (end \<le> s \<or> start \<ge> e)\<close>, each as often as the brute-force scan
  \<open>overlapping\<close> finds it and no other.
\<close>

theorem find_overlapping_is_brute_force:
  "(distinct xs \<longrightarrow> (\<exists>t. inserts new_tree xs = Some (Inr t)))
 \<and> (inserts new_tree xs = Some (Inr t) \<longrightarrow>
      (\<exists>r. find_overlapping t s e = Some (Inr r)
         \<and> mset r = mset (map idf (overlapping s e xs))
         \<and> set r = {i. \<exists>st en. (st, en, i) \<in> set xs \<and> \<not> (en \<le> s \<or> st \<ge> e)}))"
proof (intro conjI impI)
  assume "distinct xs"
  thus "\<exists>t. inserts new_tree xs = Some (Inr t)" by (rule inserts_returns)
next
  assume "inserts new_tree xs = Some (Inr t)"
  then obtain T where I: "tree_inv t T" and C: "mset (map (pay (nodes t)) (inorder T)) = mset xs"
    using inserts_tree_inv by blast
  from find_overlapping_mset [OF I C, of s e]
  obtain r where r: "find_overlapping t s e = Some (Inr r)"
    "mset r = mset (map idf (overlapping s e xs))"
    by blast
  have "set r = set (map idf (overlapping s e xs))" using r(2) by (rule mset_eq_setD)
  also have "\<dots> = {i. \<exists>st en. (st, en, i) \<in> set xs \<and> \<not> (en \<le> s \<or> st \<ge> e)}"
    by (force simp: overlapping_def idf_def)
  finally show "\<exists>r. find_overlapping t s e = Some (Inr r)
         \<and> mset r = mset (map idf (overlapping s e xs))
         \<and> set r = {i. \<exists>st en. (st, en, i) \<in> set xs \<and> \<not> (en \<le> s \<or> st \<ge> e)}"
    using r by blast
qed

theorem find_overlapping_is_brute_force_witness:
  "distinct [(10, 20, 1), (15, 25, 2), (30, 40, 3), (5, 8, 4), (18, 30, 5 :: int) :: int \<times> int \<times> int]
 \<and> (\<exists>t r. inserts new_tree [(10, 20, 1), (15, 25, 2), (30, 40, 3), (5, 8, 4), (18, 30, 5)] = Some (Inr t)
        \<and> find_overlapping t 12 19 = Some (Inr r) \<and> mset r = {#1, 2, 5#})"
proof -
  let ?xs = "[(10, 20, 1), (15, 25, 2), (30, 40, 3), (5, 8, 4), (18, 30, 5 :: int) :: int \<times> int \<times> int]"
  have d: "distinct ?xs" by simp
  from find_overlapping_is_brute_force [of ?xs] d
  obtain t where t: "inserts new_tree ?xs = Some (Inr t)" by blast
  from find_overlapping_is_brute_force [of ?xs t 12 19] t
  obtain r where "find_overlapping t 12 19 = Some (Inr r)"
    "mset r = mset (map idf (overlapping 12 19 ?xs))"
    by blast
  moreover have "mset (map idf (overlapping 12 19 ?xs)) = {#1, 2, 5#}"
    by (simp add: overlapping_def idf_def)
  ultimately show ?thesis using d t by auto
qed

text \<open>
  Claim C2. When a sequence of inserts into a new tree has returned, every node that is
  reachable from the root through \<open>left\<close> and \<open>right\<close> has
  \<open>max_end = max(end, max_end of the left child, max_end of the right child)\<close>, a child that
  is the sentinel contributing nothing.
\<close>

theorem max_end_invariant_after_inserts:
  assumes "inserts new_tree xs = Some (Inr t)" and "root t = Some r" and "reach (nodes t) r a"
  shows "node_max_ok (nodes t) a"
proof -
  from assms(1) obtain T where I: "tree_inv t T" using inserts_tree_inv by blast
  hence S: "sub_ok (nodes t) (Some 0) T" and M: "maxinv (mef (nodes t)) (enf (nodes t)) T"
    and rt: "root t = (if T = Leaf then None else ref_of T)"
    by (simp_all add: tree_inv_def Let_def)
  from rt assms(2) have T: "T \<noteq> Leaf" and r: "r = raddr T"
    by (auto simp: ref_of_raddr split: if_splits)
  from reach_in_tree [OF S T assms(3) [unfolded r]] have "a \<in> set_tree T" .
  thus ?thesis using S M by (rule node_max_ok_in_tree [rotated 2])
qed

theorem max_end_invariant_after_inserts_witness:
  "\<exists>t r b. inserts new_tree [(10, 20, 1), (15, 25, 2), (30, 40, 3), (5, 8, 4), (18, 30, 5)] = Some (Inr t)
      \<and> root t = Some r \<and> left (nodes t ! r) = Some b \<and> b \<noteq> 0 \<and> reach (nodes t) r b
      \<and> node_max_ok (nodes t) b"
proof -
  let ?xs = "[(10, 20, 1), (15, 25, 2), (30, 40, 3), (5, 8, 4), (18, 30, 5 :: int) :: int \<times> int \<times> int]"
  have "(case inserts new_tree ?xs of
           Some (Inr t) \<Rightarrow>
             (case root t of None \<Rightarrow> False
              | Some r \<Rightarrow> (case left (nodes t ! r) of None \<Rightarrow> False | Some b \<Rightarrow> b \<noteq> 0))
         | _ \<Rightarrow> False)"
    by code_simp
  then obtain t r b where t: "inserts new_tree ?xs = Some (Inr t)" and r: "root t = Some r"
    and b: "left (nodes t ! r) = Some b" "b \<noteq> 0"
    by (auto split: option.splits sum.splits)
  have "reach (nodes t) r b" using reach_root b by (rule reach_left)
  moreover from max_end_invariant_after_inserts [OF t r this] have "node_max_ok (nodes t) b" .
  ultimately show ?thesis using t r b by blast
qed





section \<open>Busy and free intervals of a day\<close>




section \<open>The first free interval that is long enough\<close>



end
